(* ===== verification/Prelude.thy ===== *)
theory Prelude
  imports
    Main
    "HOL-Library.AList"
    "HOL-Library.Multiset"
    "HOL-Library.List_Lexorder"
    "HOL-Library.Product_Lexorder"
    "HOL-Library.Char_ord"
    "HOL-Library.Word"
begin

text \<open>
  What the components share: the Go types and errors, Go maps as association lists (the order of
  the list is the order in which one \<open>range\<close> loop visits the keys), the nested map
  \<open>map[A]map[P]map[B]struct{}\<close> that the graph keeps twice, and \<open>sort.Slice\<close> with the contract
  that its callers rely on. A Go string is its bytes, so it is a \<open>char list\<close>, and \<open><\<close> on strings
  is the bytewise lexicographic order of \<open>List_Lexorder\<close> over \<open>Char_ord\<close>.
\<close>

unbundle bit_operations_syntax

named_theorems go_map_simps \<open>lookups and key sets of Go maps\<close>

section \<open>Types and errors\<close>

type_synonym byte = "8 word"
type_synonym bytes = "byte list"
type_synonym uint16 = "16 word"
type_synonym uint32 = "32 word"
type_synonym uint64 = "64 word"
type_synonym int64 = "64 word"

text \<open>
  One constructor for each error value the packages create, named after its message, the two
  end-of-file errors of package \<open>io\<close>, the three of package \<open>encoding/csv\<close>, and the errors that come out of code the model does not
  contain (the operating system, the storage engine behind slipstream).
\<close>

datatype go_error =
    ErrNodeEmpty \<comment> \<open>from/to must be non-empty\<close>
  | ErrPredicateEmpty \<comment> \<open>predicate must be non-empty\<close>
  | ErrSourceEmpty \<comment> \<open>source must be non-empty\<close>
  | ErrInvalidPolarity \<comment> \<open>invalid polarity\<close>
  | ErrEOF \<comment> \<open>io.EOF\<close>
  | ErrUnexpectedEOF \<comment> \<open>io.ErrUnexpectedEOF\<close>
  | ErrTrailingBytes \<comment> \<open>trailing bytes\<close>
  | ErrFieldTooLarge \<comment> \<open>field too large\<close>
  | ErrNameTooLarge \<comment> \<open>name too large\<close>
  | ErrTooManyPremises \<comment> \<open>too many premises\<close>
  | ErrInvalidEventType \<comment> \<open>invalid event type\<close>
  | ErrWalClosed \<comment> \<open>wal closed\<close>
  | ErrPayloadTooLarge \<comment> \<open>payload too large\<close>
  | ErrInvalidMagic \<comment> \<open>invalid magic\<close>
  | ErrUnsupportedVersion \<comment> \<open>unsupported version\<close>
  | ErrCrcMismatch \<comment> \<open>crc mismatch\<close>
  | ErrBufferTooSmall \<comment> \<open>buffer too small\<close>
  | ErrRuleNameEmpty \<comment> \<open>rule name must be non-empty\<close>
  | ErrRuleNoPremises \<comment> \<open>rule must have premises\<close>
  | ErrLogNotConfigured \<comment> \<open>log not configured\<close>
  | ErrDimensionMismatch \<comment> \<open>dimension mismatch\<close>
  | ErrEmptyInput \<comment> \<open>empty input\<close>
  | ErrRequiresOdd \<comment> \<open>requires odd number of vectors\<close>
  | ErrBitsNotPositive \<comment> \<open>bits must be > 0\<close>
  | ErrInvalidHeader \<comment> \<open>invalid header\<close>
  | ErrInvalidLength \<comment> \<open>invalid length\<close>
  | ErrInvalidDimension \<comment> \<open>invalid dimension\<close>
  | ErrSlipstreamClosed \<comment> \<open>slipstream log closed\<close>
  | ErrInvalidSeq \<comment> \<open>invalid seq value\<close>
  | ErrBareQuote \<comment> \<open>encoding/csv: bare quote in non-quoted-field\<close>
  | ErrQuote \<comment> \<open>encoding/csv: extraneous or missing quote in quoted-field\<close>
  | ErrFieldCount \<comment> \<open>encoding/csv: wrong number of fields\<close>
  | ErrExternal string
  | GoPanic string \<comment> \<open>not an error value: the runtime panics there\<close>

section \<open>Go maps\<close>

type_synonym ('k, 'v) gomap = "('k \<times> 'v) list"

abbreviation go_get :: "('k, 'v) gomap \<Rightarrow> 'k \<Rightarrow> 'v option" where
  "go_get m k \<equiv> map_of m k"

abbreviation go_put :: "'k \<Rightarrow> 'v \<Rightarrow> ('k, 'v) gomap \<Rightarrow> ('k, 'v) gomap" where
  "go_put k v m \<equiv> AList.update k v m"

abbreviation go_keys_distinct :: "('k, 'v) gomap \<Rightarrow> bool" where
  "go_keys_distinct m \<equiv> distinct (map fst m)"

text \<open>\<open>m[k]\<close> for a map whose values are maps or slices: the zero value \<open>nil\<close> where \<open>k\<close> is absent.\<close>

definition go_index :: "('k, 'e list) gomap \<Rightarrow> 'k \<Rightarrow> 'e list" where
  "go_index m k = (case go_get m k of None \<Rightarrow> [] | Some v \<Rightarrow> v)"

lemma go_get_put [go_map_simps]:
  "go_get (go_put k v m) k' = (if k' = k then Some v else go_get m k')"
  by (simp add: update_conv')

lemma go_index_put [go_map_simps]:
  "go_index (go_put k v m) k' = (if k' = k then v else go_index m k')"
  by (simp add: go_index_def update_conv')

lemma go_keys_put [go_map_simps]: "fst ` set (go_put k v m) = insert k (fst ` set m)"
  by (simp add: dom_update)

lemma go_put_fresh: "k \<notin> fst ` set m \<Longrightarrow> go_put k v m = m @ [(k, v)]"
  by (induction m) auto

lemma go_put_split:
  assumes "go_get m k = Some w"
  obtains m1 m2 where "m = m1 @ (k, w) # m2" and "go_put k v m = m1 @ (k, v) # m2"
proof -
  from assms have "\<exists>m1 m2. m = m1 @ (k, w) # m2 \<and> go_put k v m = m1 @ (k, v) # m2"
  proof (induction m)
    case Nil
    then show ?case by simp
  next
    case (Cons e m)
    show ?case
    proof (cases "fst e = k")
      case True
      then show ?thesis
        using Cons.prems by (cases e) (auto intro: exI [of _ "[]"])
    next
      case False
      then obtain m1 m2 where "m = m1 @ (k, w) # m2" and "go_put k v m = m1 @ (k, v) # m2"
        using Cons by (cases e) auto
      with False show ?thesis
        by (cases e) (auto intro: exI [of _ "e # m1"])
    qed
  qed
  then show thesis using that by blast
qed

lemma go_get_in_keys: "go_get m k = None \<longleftrightarrow> k \<notin> fst ` set m"
  by (simp add: map_of_eq_None_iff)

lemma go_index_mem: "e \<in> set (go_index m k) \<Longrightarrow> \<exists>v. (k, v) \<in> set m \<and> e \<in> set v"
  by (cases "go_get m k") (auto simp: go_index_def intro: map_of_SomeD)

lemma go_get_pair: "go_keys_distinct m \<Longrightarrow> (k, v) \<in> set m \<longleftrightarrow> go_get m k = Some v"
  by simp

text \<open>Two lists that hold the same map are permutations of each other.\<close>

lemma go_same_map_mset:
  assumes "go_keys_distinct m" and "go_keys_distinct m'" and "map_of m = map_of m'"
  shows "mset m = mset m'"
proof -
  have "set m = set m'"
    using assms by (metis map_of_eqI map_of_eq_Some_iff subsetI subset_antisym surj_pair)
  moreover have "distinct m" and "distinct m'"
    using assms(1,2) by (simp_all add: distinct_map)
  ultimately show ?thesis by (simp add: set_eq_iff_mset_eq_distinct)
qed

text \<open>
  Visiting every element of every slice of a map: the two nested \<open>range\<close> loops, in the order in
  which the loops visit them.
\<close>

definition go_flat :: "('k, 'e list) gomap \<Rightarrow> ('k \<times> 'e) list" where
  "go_flat m = concat (map (\<lambda>(k, es). map (Pair k) es) m)"

lemma go_flat_Nil [simp]: "go_flat [] = []"
  by (simp add: go_flat_def)

lemma go_flat_Cons [simp]: "go_flat ((k, es) # m) = map (Pair k) es @ go_flat m"
  by (simp add: go_flat_def)

lemma go_flat_append [simp]: "go_flat (m @ m') = go_flat m @ go_flat m'"
  by (simp add: go_flat_def)

lemma fst_go_flat: "fst ` set (go_flat m) \<subseteq> fst ` set m"
  by (force simp: go_flat_def)

lemma go_index_absent: "k \<notin> fst ` set m \<Longrightarrow> go_index m k = []"
  by (simp add: go_index_def go_get_in_keys [symmetric])

lemma go_index_Cons: "go_index ((k', es) # m) k = (if k = k' then es else go_index m k)"
  by (simp add: go_index_def)

lemma set_go_flat: "go_keys_distinct m \<Longrightarrow> (k, e) \<in> set (go_flat m) \<longleftrightarrow> e \<in> set (go_index m k)"
proof (induction m)
  case Nil
  then show ?case by (simp add: go_index_def)
next
  case (Cons x m)
  then show ?case
    by (cases x) (auto simp: go_index_Cons go_index_absent)
qed

lemma distinct_go_flat:
  "go_keys_distinct m \<Longrightarrow> (\<And>k. distinct (go_index m k)) \<Longrightarrow> distinct (go_flat m)"
proof (induction m)
  case Nil
  then show ?case by simp
next
  case (Cons x m)
  obtain k es where x: "x = (k, es)" by force
  have ix: "distinct (go_index m k')" for k'
  proof (cases "k' = k")
    case True
    with Cons.prems(1) x show ?thesis by (simp add: go_index_absent)
  next
    case False
    with Cons.prems(2) [of k'] x show ?thesis by (simp add: go_index_Cons)
  qed
  moreover have "distinct es"
    using Cons.prems(2) [of k] x by (simp add: go_index_Cons)
  moreover have "set (map (Pair k) es) \<inter> set (go_flat m) = {}"
    using Cons.prems(1) x fst_go_flat [of m] by force
  ultimately show ?case
    using Cons.IH Cons.prems(1) x by (simp add: distinct_map inj_on_def)
qed

lemma mset_go_flat_put:
  assumes "go_keys_distinct m"
  shows "mset (go_flat (go_put k es m)) + mset (map (Pair k) (go_index m k)) =
    mset (go_flat m) + mset (map (Pair k) es)"
proof (cases "go_get m k")
  case None
  then show ?thesis
    by (simp add: go_index_def go_put_fresh go_get_in_keys [symmetric])
next
  case (Some w)
  then obtain m1 m2 where "m = m1 @ (k, w) # m2" and "go_put k es m = m1 @ (k, es) # m2"
    by (rule go_put_split)
  with Some show ?thesis by (simp add: go_index_def)
qed

lemma length_go_flat_put:
  assumes "go_keys_distinct m"
  shows "length (go_flat (go_put k es m)) + length (go_index m k) = length (go_flat m) + length es"
  using arg_cong [OF mset_go_flat_put [OF assms, of k es], of size] by simp

section \<open>Nested maps\<close>

text \<open>
  \<open>map[A]map[P]map[B]struct{}\<close>: what \<open>nest_ensure\<close> creates on the way down is what
  \<open>MemGraph.AddFact\<close> creates, and \<open>nest_flat\<close> is the three nested \<open>range\<close> loops.
\<close>

type_synonym ('a, 'p, 'b) nest = "('a, ('p, ('b, unit) gomap) gomap) gomap"

definition nest_tos :: "('a, 'p, 'b) nest \<Rightarrow> 'a \<Rightarrow> 'p \<Rightarrow> ('b, unit) gomap" where
  "nest_tos m a p = go_index (go_index m a) p"

definition nest_has :: "('a, 'p, 'b) nest \<Rightarrow> 'a \<Rightarrow> 'p \<Rightarrow> 'b \<Rightarrow> bool" where
  "nest_has m a p b \<longleftrightarrow> go_get (nest_tos m a p) b \<noteq> None"

definition nest_ensure :: "'a \<Rightarrow> 'p \<Rightarrow> ('a, 'p, 'b) nest \<Rightarrow> ('a, 'p, 'b) nest" where
  "nest_ensure a p m =
     (let m1 = (if go_get m a = None then go_put a [] m else m);
          ps = go_index m1 a
      in if go_get ps p = None then go_put a (go_put p [] ps) m1 else m1)"

definition nest_put :: "'a \<Rightarrow> 'p \<Rightarrow> 'b \<Rightarrow> ('a, 'p, 'b) nest \<Rightarrow> ('a, 'p, 'b) nest" where
  "nest_put a p b m = go_put a (go_put p (go_put b () (nest_tos m a p)) (go_index m a)) m"

definition pred_flat :: "('p, ('b, unit) gomap) gomap \<Rightarrow> ('p \<times> 'b) list" where
  "pred_flat ps = go_flat (map (\<lambda>(p, tos). (p, map fst tos)) ps)"

definition nest_flat :: "('a, 'p, 'b) nest \<Rightarrow> ('a \<times> 'p \<times> 'b) list" where
  "nest_flat m = go_flat (map (\<lambda>(a, ps). (a, pred_flat ps)) m)"

definition pred_ok :: "('p, ('b, unit) gomap) gomap \<Rightarrow> bool" where
  "pred_ok ps \<longleftrightarrow> go_keys_distinct ps \<and> (\<forall>(p, tos) \<in> set ps. go_keys_distinct tos)"

definition nest_ok :: "('a, 'p, 'b) nest \<Rightarrow> bool" where
  "nest_ok m \<longleftrightarrow> go_keys_distinct m \<and> (\<forall>(a, ps) \<in> set m. pred_ok ps)"

lemma nest_tos_put [go_map_simps]:
  "nest_tos (nest_put a p b m) a' p' =
     (if a' = a \<and> p' = p then go_put b () (nest_tos m a p) else nest_tos m a' p')"
  by (auto simp: nest_tos_def nest_put_def go_map_simps)

lemma nest_tos_ensure [go_map_simps]: "nest_tos (nest_ensure a p m) a' p' = nest_tos m a' p'"
  by (auto simp: nest_tos_def nest_ensure_def Let_def go_map_simps go_index_def split: option.splits)

lemma nest_has_put [go_map_simps]:
  "nest_has (nest_put a p b m) a' p' b' \<longleftrightarrow> (a' = a \<and> p' = p \<and> b' = b) \<or> nest_has m a' p' b'"
  by (auto simp: nest_has_def go_map_simps)

lemma nest_has_ensure [go_map_simps]:
  "nest_has (nest_ensure a p m) a' p' b' \<longleftrightarrow> nest_has m a' p' b'"
  by (simp add: nest_has_def go_map_simps)

lemma nest_has_Nil [simp]: "\<not> nest_has [] a p b"
  by (simp add: nest_has_def nest_tos_def go_index_def)

lemma pred_ok_index: "nest_ok m \<Longrightarrow> pred_ok (go_index m a)"
  by (auto simp: nest_ok_def go_index_def pred_ok_def split: option.splits dest!: map_of_SomeD)

lemma keys_distinct_index: "pred_ok ps \<Longrightarrow> go_keys_distinct (go_index ps p)"
  by (auto simp: go_index_def pred_ok_def split: option.splits dest!: map_of_SomeD)

lemma set_go_put_subset: "set (go_put k v m) \<subseteq> insert (k, v) (set m)"
  by (induction m) auto

lemma pred_ok_put: "pred_ok ps \<Longrightarrow> go_keys_distinct tos \<Longrightarrow> pred_ok (go_put p tos ps)"
  using set_go_put_subset [of p tos ps] by (auto simp: pred_ok_def distinct_update)

lemma nest_ok_put_ps: "nest_ok m \<Longrightarrow> pred_ok ps \<Longrightarrow> nest_ok (go_put a ps m)"
  using set_go_put_subset [of a ps m] by (auto simp: nest_ok_def distinct_update)

lemma pred_ok_Nil [simp]: "pred_ok []"
  by (simp add: pred_ok_def)

lemma nest_ok_Nil [simp]: "nest_ok []"
  by (simp add: nest_ok_def)

lemma nest_ok_ensure: "nest_ok m \<Longrightarrow> nest_ok (nest_ensure a p m)"
  by (auto simp: nest_ensure_def Let_def intro!: nest_ok_put_ps pred_ok_put pred_ok_index)

lemma nest_ok_put: "nest_ok m \<Longrightarrow> nest_ok (nest_put a p b m)"
  unfolding nest_put_def nest_tos_def
  by (intro nest_ok_put_ps pred_ok_put distinct_update keys_distinct_index pred_ok_index)

lemma fst_comp_map_value [simp]: "fst \<circ> (\<lambda>(k, v). (k, f v)) = fst"
  by (simp add: fun_eq_iff split_beta)

lemma go_get_map_values: "go_get (map (\<lambda>(k, v). (k, f v)) m) k = map_option f (go_get m k)"
  by (induction m) auto

lemma go_index_map_values: "f [] = [] \<Longrightarrow> go_index (map (\<lambda>(k, v). (k, f v)) m) k = f (go_index m k)"
  by (simp add: go_index_def go_get_map_values split: option.splits)

lemma map_values_put:
  "map (\<lambda>(k, v). (k, f v)) (go_put k0 v0 m) = go_put k0 (f v0) (map (\<lambda>(k, v). (k, f v)) m)"
  by (induction m) auto

lemma pred_flat_Nil [simp]: "pred_flat [] = []"
  by (simp add: pred_flat_def)

lemma go_index_pred_flat [simp]: "go_index (map (\<lambda>(p, tos). (p, map fst tos)) ps) p = map fst (go_index ps p)"
  by (rule go_index_map_values) simp

lemma go_index_nest_flat [simp]: "go_index (map (\<lambda>(a, ps). (a, pred_flat ps)) m) a = pred_flat (go_index m a)"
  by (rule go_index_map_values) simp

lemma set_pred_flat: "pred_ok ps \<Longrightarrow> (p, b) \<in> set (pred_flat ps) \<longleftrightarrow> b \<in> fst ` set (go_index ps p)"
  unfolding pred_flat_def by (simp add: set_go_flat pred_ok_def)

lemma distinct_pred_flat: "pred_ok ps \<Longrightarrow> distinct (pred_flat ps)"
  unfolding pred_flat_def
  by (rule distinct_go_flat) (simp_all add: keys_distinct_index, simp add: pred_ok_def)

lemma set_nest_flat: "nest_ok m \<Longrightarrow> (a, p, b) \<in> set (nest_flat m) \<longleftrightarrow> nest_has m a p b"
  unfolding nest_flat_def
  by (simp add: set_go_flat nest_ok_def set_pred_flat pred_ok_index
      nest_has_def nest_tos_def map_of_eq_None_iff)

lemma distinct_nest_flat: "nest_ok m \<Longrightarrow> distinct (nest_flat m)"
  unfolding nest_flat_def
  by (rule distinct_go_flat)
    (simp_all add: distinct_pred_flat pred_ok_index, simp add: nest_ok_def)

text \<open>Adding an absent triple adds one element to the triple loop; the empty maps that
  \<open>nest_ensure\<close> leaves behind add none.\<close>

lemma length_pred_flat_put:
  assumes "pred_ok ps"
  shows "length (pred_flat (go_put p tos ps)) + length (go_index ps p) =
    length (pred_flat ps) + length tos"
  using length_go_flat_put [of "map (\<lambda>(p, tos). (p, map fst tos)) ps" p "map fst tos"] assms
  by (simp add: pred_flat_def map_values_put pred_ok_def)

lemma length_nest_flat_put_ps:
  assumes "nest_ok m"
  shows "length (nest_flat (go_put a ps m)) + length (pred_flat (go_index m a)) =
    length (nest_flat m) + length (pred_flat ps)"
  using length_go_flat_put [of "map (\<lambda>(a, ps). (a, pred_flat ps)) m" a "pred_flat ps"] assms
  by (simp add: nest_flat_def map_values_put nest_ok_def)

lemma length_nest_flat_put_tos:
  assumes "nest_ok m"
  shows "length (nest_flat (go_put a (go_put p tos (go_index m a)) m)) + length (nest_tos m a p) =
    length (nest_flat m) + length tos"
  using length_nest_flat_put_ps [OF assms, of a "go_put p tos (go_index m a)"]
    length_pred_flat_put [OF pred_ok_index [OF assms, of a], of p tos]
  by (simp add: nest_tos_def)

lemma length_nest_flat_put:
  assumes "nest_ok m" and "\<not> nest_has m a p b"
  shows "length (nest_flat (nest_put a p b m)) = Suc (length (nest_flat m))"
proof -
  have "length (go_put b () (nest_tos m a p)) = Suc (length (nest_tos m a p))"
    using assms(2) by (simp add: nest_has_def go_put_fresh go_get_in_keys)
  then show ?thesis
    using length_nest_flat_put_tos [OF assms(1), of a p "go_put b () (nest_tos m a p)"]
    by (simp add: nest_put_def)
qed

lemma length_nest_flat_ensure:
  assumes "nest_ok m"
  shows "length (nest_flat (nest_ensure a p m)) = length (nest_flat m)"
proof -
  define m1 where "m1 = (if go_get m a = None then go_put a [] m else m)"
  have ok1: "nest_ok m1"
    using assms by (simp add: m1_def nest_ok_put_ps)
  have "length (nest_flat m1) = length (nest_flat m)"
    using length_nest_flat_put_ps [OF assms, of a "[]"] by (auto simp: m1_def go_index_def)
  then show ?thesis
    using length_nest_flat_put_tos [OF ok1, of a p "[]"]
    by (auto simp: nest_ensure_def Let_def m1_def [symmetric] nest_tos_def go_index_def [of _ p])
qed

text \<open>No inner map is empty: \<open>nest_put\<close> fills the maps that \<open>nest_ensure\<close> creates.\<close>

definition nest_full :: "('a, 'p, 'b) nest \<Rightarrow> bool" where
  "nest_full m \<longleftrightarrow> (\<forall>(a, ps) \<in> set m. \<forall>(p, tos) \<in> set ps. tos \<noteq> [])"

lemma nest_full_Nil [simp]: "nest_full []"
  by (simp add: nest_full_def)

lemma nest_ensure_has: "nest_has m a p b \<Longrightarrow> nest_ensure a p m = m"
  by (auto simp: nest_has_def nest_tos_def nest_ensure_def Let_def go_index_def split: option.splits)

lemma nest_put_ensure: "nest_put a p b (nest_ensure a p m) = nest_put a p b m"
  by (auto simp: nest_put_def nest_tos_def nest_ensure_def Let_def go_map_simps go_index_def)

lemma go_put_all:
  "(\<forall>(k, v) \<in> set m. P v) \<Longrightarrow> P v0 \<Longrightarrow> (\<forall>(k, v) \<in> set (go_put k0 v0 m). P v)"
  by (induction m) auto

lemma go_index_all: "(\<forall>(k, v) \<in> set m. P v) \<Longrightarrow> P [] \<Longrightarrow> P (go_index m k)"
  by (induction m) (auto simp: go_index_def)

lemma nest_full_put:
  assumes "nest_full m"
  shows "nest_full (nest_put a p b m)"
  unfolding nest_full_def nest_put_def
proof (rule go_put_all)
  show "\<forall>(a, ps) \<in> set m. \<forall>(p, tos) \<in> set ps. tos \<noteq> []"
    using assms by (simp add: nest_full_def)
  show "\<forall>(p', tos) \<in> set (go_put p (go_put b () (nest_tos m a p)) (go_index m a)). tos \<noteq> []"
    by (rule go_put_all, rule go_index_all [where P = "\<lambda>ps. \<forall>(p, tos) \<in> set ps. tos \<noteq> []"])
      (use assms in \<open>simp_all add: nest_full_def\<close>)
qed

text \<open>The predicates that occur as keys are then those of the triples.\<close>

lemma nest_full_keys:
  assumes "nest_full m" and "nest_ok m"
  shows "(\<Union>(a, ps) \<in> set m. fst ` set ps) = {p. \<exists>a b. nest_has m a p b}"
proof (intro set_eqI iffI)
  fix p
  assume "p \<in> (\<Union>(a, ps) \<in> set m. fst ` set ps)"
  then obtain a ps tos where ps: "(a, ps) \<in> set m" and tos: "(p, tos) \<in> set ps"
    by auto
  with assms have "go_get m a = Some ps" and "go_get ps p = Some tos" and "tos \<noteq> []"
    by (auto simp: nest_full_def nest_ok_def pred_ok_def)
  then have "nest_has m a p (fst (hd tos))"
    by (simp add: nest_has_def nest_tos_def go_index_def map_of_eq_None_iff)
  then show "p \<in> {p. \<exists>a b. nest_has m a p b}" by blast
next
  fix p
  assume "p \<in> {p. \<exists>a b. nest_has m a p b}"
  then obtain a ps tos where "go_get m a = Some ps" and "go_get ps p = Some tos"
    by (auto simp: nest_has_def nest_tos_def go_index_def split: option.splits)
  then show "p \<in> (\<Union>(a, ps) \<in> set m. fst ` set ps)"
    by (force dest: map_of_SomeD)
qed

section \<open>sort.Slice\<close>

text \<open>
  \<open>sort.Slice(x, less)\<close> sorts \<open>x\<close> in place by the comparison it is given; it is not stable. The model
  sorts by insertion. The contract \<open>keyed_less\<close> (the comparison is \<open><\<close> on a key) is what each
  comparison in the code satisfies; where the key is injective on the elements, the sorted
  permutation is unique, so that the result is the one of any sorting algorithm.
\<close>

fun slice_insert :: "('a \<Rightarrow> 'a \<Rightarrow> bool) \<Rightarrow> 'a \<Rightarrow> 'a list \<Rightarrow> 'a list" where
  "slice_insert lt x [] = [x]"
| "slice_insert lt x (y # ys) = (if lt y x then y # slice_insert lt x ys else x # y # ys)"

fun sort_slice :: "('a \<Rightarrow> 'a \<Rightarrow> bool) \<Rightarrow> 'a list \<Rightarrow> 'a list" where
  "sort_slice lt [] = []"
| "sort_slice lt (x # xs) = slice_insert lt x (sort_slice lt xs)"

lemma mset_slice_insert [simp]: "mset (slice_insert lt x xs) = add_mset x (mset xs)"
  by (induction xs) auto

lemma mset_sort_slice [simp]: "mset (sort_slice lt xs) = mset xs"
  by (induction xs) auto

lemma set_sort_slice [simp]: "set (sort_slice lt xs) = set xs"
  by (rule mset_eq_setD) simp

lemma length_sort_slice [simp]: "length (sort_slice lt xs) = length xs"
  by (rule mset_eq_length) simp

lemma distinct_sort_slice [simp]: "distinct (sort_slice lt xs) = distinct xs"
  by (rule mset_eq_imp_distinct_iff) simp

lemma sort_slice_empty_iff [simp]: "sort_slice lt xs = [] \<longleftrightarrow> xs = []"
  using set_sort_slice [of lt xs] by (metis set_empty)

text \<open>The comparison may be known on the elements only.\<close>

lemma slice_insert_cong:
  "(\<And>y. y \<in> set ys \<Longrightarrow> lt y x = lt' y x) \<Longrightarrow> slice_insert lt x ys = slice_insert lt' x ys"
  by (induction ys) auto

lemma sort_slice_cong:
  "(\<And>x y. x \<in> set xs \<Longrightarrow> y \<in> set xs \<Longrightarrow> lt x y = lt' x y) \<Longrightarrow>
    sort_slice lt xs = sort_slice lt' xs"
  by (induction xs) (auto intro!: slice_insert_cong)

lemma sort_key_unique:
  assumes "sorted (map key xs)" and "sorted (map key ys)" and "mset xs = mset ys"
    and "inj_on key (set xs)"
  shows "xs = ys"
proof -
  have "mset (map key xs) = mset (map key ys)"
    using assms(3) by simp
  then have "map key xs = map key ys"
    using assms(1,2) properties_for_sort [of "map key ys" "map key xs"]
      properties_for_sort [of "map key xs" "map key xs"] by simp
  moreover have "inj_on key (set xs \<union> set ys)"
    using assms(3,4) mset_eq_setD [of xs ys] by simp
  ultimately show ?thesis by (simp add: inj_on_map_eq_map)
qed

locale keyed_less =
  fixes lt :: "'a \<Rightarrow> 'a \<Rightarrow> bool"
    and key :: "'a \<Rightarrow> 'k :: linorder"
  assumes less_key: "lt x y \<longleftrightarrow> key x < key y"
begin

lemma slice_insert_key: "slice_insert lt x xs = insort_key key x xs"
  by (induction xs) (auto simp: less_key)

lemma sort_slice_key: "sort_slice lt xs = sort_key key xs"
  by (induction xs) (auto simp: slice_insert_key)

lemma sorted_sort_slice: "sorted (map key (sort_slice lt xs))"
  by (simp add: sort_slice_key)

lemma sort_slice_sorted: "sorted (map key xs) \<Longrightarrow> sort_slice lt xs = xs"
  by (simp add: sort_slice_key sort_key_id_if_sorted)

lemma sort_slice_unique:
  "mset ys = mset xs \<Longrightarrow> sorted (map key ys) \<Longrightarrow> inj_on key (set xs) \<Longrightarrow> sort_slice lt xs = ys"
  by (rule sort_key_unique [where key = key]) (simp_all add: sorted_sort_slice)

lemma sort_slice_perm:
  "mset xs = mset ys \<Longrightarrow> inj_on key (set xs) \<Longrightarrow> sort_slice lt xs = sort_slice lt ys"
  by (rule sort_slice_unique) (simp_all add: sorted_sort_slice)

lemma sort_slice_unique_set:
  "set ys = set xs \<Longrightarrow> distinct xs \<Longrightarrow> sorted_wrt lt ys \<Longrightarrow> inj_on key (set xs) \<Longrightarrow> sort_slice lt xs = ys"
proof (rule sort_slice_unique)
  assume set: "set ys = set xs" and "distinct xs" and sorted: "sorted_wrt lt ys"
  have "sorted_wrt (<) (map key ys)"
    unfolding sorted_wrt_map by (rule sorted_wrt_mono_rel [OF _ sorted]) (simp add: less_key)
  then have ys: "sorted (map key ys)" "distinct (map key ys)"
    by (simp_all add: strict_sorted_iff)
  then show "sorted (map key ys)" by simp
  show "mset ys = mset xs"
    using set \<open>distinct xs\<close> ys(2) by (simp add: set_eq_iff_mset_eq_distinct distinct_map)
qed

lemma sorted_wrt_sort_slice:
  "distinct xs \<Longrightarrow> inj_on key (set xs) \<Longrightarrow> sorted_wrt lt (sort_slice lt xs)"
proof -
  assume "distinct xs" and "inj_on key (set xs)"
  then have "sorted_wrt (\<lambda>x y. key x < key y) (sort_slice lt xs)"
    using sorted_sort_slice [of xs]
      strict_sorted_iff [of "map key (sort_slice lt xs)"] by (simp add: distinct_map sorted_wrt_map)
  then show ?thesis
    by (rule sorted_wrt_mono_rel [rotated]) (simp add: less_key)
qed

end

text \<open>A comparison that tells any two values apart: the sorted slice depends on the elements only.\<close>

locale total_less = keyed_less +
  assumes key_inj: "inj key"
begin

lemma inj_key: "inj_on key A"
  using key_inj by (rule inj_on_subset) simp

lemma sort_slice_det: "mset xs = mset ys \<Longrightarrow> sort_slice lt xs = sort_slice lt ys"
  by (rule sort_slice_perm [OF _ inj_key])

lemma sort_slice_strict: "distinct xs \<Longrightarrow> sorted_wrt lt (sort_slice lt xs)"
  by (rule sorted_wrt_sort_slice [OF _ inj_key])

lemma sort_slice_set_eq:
  "set xs = set ys \<Longrightarrow> distinct xs \<Longrightarrow> distinct ys \<Longrightarrow> sort_slice lt xs = sort_slice lt ys"
  by (rule sort_slice_det) (simp add: set_eq_iff_mset_eq_distinct)

end

text \<open>\<open>sort.Strings\<close>.\<close>

definition string_less :: "string \<Rightarrow> string \<Rightarrow> bool" where
  "string_less a b \<longleftrightarrow> a < b"

interpretation string_sort: total_less string_less "\<lambda>s. s"
  by unfold_locales (auto simp: string_less_def)

section \<open>Keys joined with bars\<close>

text \<open>
  Three fields with a bar between them, as the keys of \<open>rules\<close>, \<open>engine\<close> and \<open>ilp\<close> are built. Nothing
  is escaped, so a key determines its fields only where they hold no separator.
\<close>

definition bar_join :: "string \<Rightarrow> string \<Rightarrow> string \<Rightarrow> string" where
  "bar_join a p b = a @ CHR ''|'' # p @ CHR ''|'' # b"

definition plain :: "string \<Rightarrow> bool" where
  "plain s \<longleftrightarrow> CHR ''|'' \<notin> set s \<and> CHR '';'' \<notin> set s"

lemma split_at_eq:
  "c \<notin> set xs \<Longrightarrow> c \<notin> set ys \<Longrightarrow> xs @ c # us = ys @ c # vs \<longleftrightarrow> xs = ys \<and> us = vs"
proof (induction xs arbitrary: ys)
  case Nil
  then show ?case by (cases ys) auto
next
  case (Cons x xs)
  then show ?case by (cases ys) auto
qed

lemma bar_join_inject:
  "plain a \<Longrightarrow> plain a' \<Longrightarrow> plain p \<Longrightarrow> plain p' \<Longrightarrow>
    bar_join a p b = bar_join a' p' b' \<longleftrightarrow> a = a' \<and> p = p' \<and> b = b'"
  by (auto simp: bar_join_def plain_def split_at_eq)

lemma semicolon_bar_join: "plain a \<Longrightarrow> plain p \<Longrightarrow> plain b \<Longrightarrow> CHR '';'' \<notin> set (bar_join a p b)"
  by (simp add: bar_join_def plain_def)

text \<open>A list of such keys, each after a semicolon.\<close>

lemma split_tail_eq:
  assumes "c \<notin> set xs" and "c \<notin> set ys" and "us = [] \<or> (\<exists>r. us = c # r)" and "vs = [] \<or> (\<exists>r. vs = c # r)"
    and "xs @ us = ys @ vs"
  shows "xs = ys \<and> us = vs"
proof -
  have "c \<in> set us \<longleftrightarrow> us \<noteq> []" and "c \<in> set vs \<longleftrightarrow> vs \<noteq> []"
    using assms(3,4) by auto
  moreover have "c \<in> set us \<longleftrightarrow> c \<in> set vs"
    using arg_cong [OF assms(5), of set] assms(1,2) by auto
  ultimately show ?thesis
    using assms by (auto simp: split_at_eq)
qed

lemma semicolon_list_inject:
  assumes "\<forall>x \<in> set xs \<union> set ys. CHR '';'' \<notin> set (f x)" and "inj_on f (set xs \<union> set ys)"
    and "concat (map (\<lambda>x. CHR '';'' # f x) xs) = concat (map (\<lambda>x. CHR '';'' # f x) ys)"
  shows "xs = ys"
  using assms
proof (induction xs arbitrary: ys)
  case Nil
  then show ?case by (cases ys) auto
next
  case (Cons x xs)
  then obtain y ys' where ys: "ys = y # ys'"
    by (cases ys) auto
  let ?cat = "\<lambda>xs. concat (map (\<lambda>x. CHR '';'' # f x) xs)"
  have semi: "?cat zs = [] \<or> (\<exists>r. ?cat zs = CHR '';'' # r)" for zs
    by (cases zs) simp_all
  have eq: "f x @ ?cat xs = f y @ ?cat ys'"
    using Cons.prems(3) ys by simp
  have "CHR '';'' \<notin> set (f x)" and "CHR '';'' \<notin> set (f y)"
    using Cons.prems(1) ys by auto
  then have "f x = f y \<and> ?cat xs = ?cat ys'"
    by (rule split_tail_eq [OF _ _ semi semi eq])
  moreover from this have "x = y"
    using inj_onD [OF Cons.prems(2), of x y] ys by simp
  moreover have "xs = ys'"
    using Cons.prems(1,2) ys calculation
    by (intro Cons.IH) (auto intro: inj_on_subset)
  ultimately show ?case by (simp add: ys)
qed

end
