(* ===== verification/KG.thy ===== *)
theory KG
  imports Prelude
begin

text \<open>
  Package \<open>kg\<close>: the edge type and the \<open>Graph\<close> interface of \<open>graph.go\<close> (the locale \<open>fact_graph\<close>),
  and \<open>MemGraph\<close> of \<open>memgraph.go\<close>, which keeps every fact twice, under its subject in \<open>g_out\<close> and
  under its object in \<open>g_in\<close>, with a counter. \<open>graph_ok\<close> is the invariant that ties the three
  together, \<open>graph_facts\<close> the set of triples a graph stands for. The mutex is left out: an operation
  holds it from its first read to its last write, so the model's operations are the atomic steps.
\<close>

named_theorems graph_simps \<open>what the graph operations return, over \<open>graph_facts\<close>\<close>

section \<open>Edges\<close>

type_synonym nodeID = string
type_synonym triple = "nodeID \<times> string \<times> nodeID"

record Edge =
  eFrom :: nodeID
  ePred :: string
  eTo :: nodeID

abbreviation mk_edge :: "nodeID \<Rightarrow> string \<Rightarrow> nodeID \<Rightarrow> Edge" where
  "mk_edge a p b \<equiv> \<lparr>eFrom = a, ePred = p, eTo = b\<rparr>"

definition edge_triple :: "Edge \<Rightarrow> triple" where
  "edge_triple e = (eFrom e, ePred e, eTo e)"

definition triple_edge :: "triple \<Rightarrow> Edge" where
  "triple_edge t = mk_edge (fst t) (fst (snd t)) (snd (snd t))"

lemma edge_triple_inverse [simp]: "edge_triple (triple_edge t) = t"
  by (simp add: edge_triple_def triple_edge_def)

lemma triple_edge_inverse [simp]: "triple_edge (edge_triple e) = e"
  by (simp add: edge_triple_def triple_edge_def)

lemma edge_triple_mk [simp]: "edge_triple (mk_edge a p b) = (a, p, b)"
  by (simp add: edge_triple_def)

lemma inj_edge_triple: "inj edge_triple"
  by (rule inj_on_inverseI [where g = triple_edge]) simp

lemma inj_triple_edge: "inj triple_edge"
  by (rule inj_on_inverseI [where g = edge_triple]) simp

text \<open>The order of the values, on which the comparators of the package agree.\<close>

instantiation Edge_ext :: (linorder) linorder
begin

definition less_eq_Edge_ext :: "'a Edge_scheme \<Rightarrow> 'a Edge_scheme \<Rightarrow> bool" where
  "less_eq_Edge_ext e f \<longleftrightarrow>
     (eFrom e, ePred e, eTo e, Edge.more e) \<le> (eFrom f, ePred f, eTo f, Edge.more f)"

definition less_Edge_ext :: "'a Edge_scheme \<Rightarrow> 'a Edge_scheme \<Rightarrow> bool" where
  "less_Edge_ext e f \<longleftrightarrow>
     (eFrom e, ePred e, eTo e, Edge.more e) < (eFrom f, ePred f, eTo f, Edge.more f)"

instance
  by standard (auto simp: less_eq_Edge_ext_def less_Edge_ext_def)

end


lemma less_eq_Edge_iff: "e \<le> f \<longleftrightarrow> edge_triple e \<le> edge_triple f" for e f :: Edge
  by (auto simp: less_eq_Edge_ext_def edge_triple_def)

lemma less_Edge_iff: "e < f \<longleftrightarrow> edge_triple e < edge_triple f" for e f :: Edge
  by (auto simp: less_Edge_ext_def edge_triple_def)

text \<open>
  The comparators of \<open>EdgesFrom\<close>, \<open>EdgesTo\<close>, \<open>EdgesAll\<close> and \<open>EdgesByPredicate\<close>. The first two leave
  out the endpoint that all the edges of their list share, the last one the predicate.
\<close>

definition edge_from_less :: "Edge \<Rightarrow> Edge \<Rightarrow> bool" where
  "edge_from_less e f = (if ePred e \<noteq> ePred f then ePred e < ePred f else eTo e < eTo f)"

definition edge_to_less :: "Edge \<Rightarrow> Edge \<Rightarrow> bool" where
  "edge_to_less e f = (if ePred e \<noteq> ePred f then ePred e < ePred f else eFrom e < eFrom f)"

definition edge_less :: "Edge \<Rightarrow> Edge \<Rightarrow> bool" where
  "edge_less e f =
     (if eFrom e \<noteq> eFrom f then eFrom e < eFrom f
      else if ePred e \<noteq> ePred f then ePred e < ePred f
      else eTo e < eTo f)"

definition edge_pred_less :: "Edge \<Rightarrow> Edge \<Rightarrow> bool" where
  "edge_pred_less e f = (if eFrom e \<noteq> eFrom f then eFrom e < eFrom f else eTo e < eTo f)"

interpretation edge_from_sort: keyed_less edge_from_less "\<lambda>e. (ePred e, eTo e)"
  by unfold_locales (auto simp: edge_from_less_def)

interpretation edge_to_sort: keyed_less edge_to_less "\<lambda>e. (ePred e, eFrom e)"
  by unfold_locales (auto simp: edge_to_less_def)

interpretation edge_pred_sort: keyed_less edge_pred_less "\<lambda>e. (eFrom e, eTo e)"
  by unfold_locales (auto simp: edge_pred_less_def)

interpretation edge_sort: total_less edge_less edge_triple
  by unfold_locales (auto simp: edge_less_def edge_triple_def inj_edge_triple)

lemma edge_less_eq: "edge_less = (<)"
  by (simp add: fun_eq_iff edge_sort.less_key less_Edge_iff)

section \<open>MemGraph\<close>

record MemGraph =
  g_out :: "(nodeID, string, nodeID) nest"
  g_in :: "(nodeID, string, nodeID) nest"
  g_facts :: int

definition NewMemGraph :: MemGraph where
  "NewMemGraph = \<lparr>g_out = [], g_in = [], g_facts = 0\<rparr>"

definition AddFact :: "nodeID \<Rightarrow> string \<Rightarrow> nodeID \<Rightarrow> MemGraph \<Rightarrow> go_error option \<times> MemGraph" where
  "AddFact a p b g =
     (if a = [] \<or> b = [] then (Some ErrNodeEmpty, g)
      else if p = [] then (Some ErrPredicateEmpty, g)
      else
        let out1 = nest_ensure a p (g_out g);
            in1 = nest_ensure b p (g_in g);
            g1 = g\<lparr>g_out := out1, g_in := in1\<rparr>
        in if nest_has out1 a p b then (None, g1)
           else (None, g1\<lparr>g_out := nest_put a p b out1, g_in := nest_put b p a in1,
                         g_facts := g_facts g + 1\<rparr>))"

definition EdgesFrom :: "nodeID \<Rightarrow> MemGraph \<Rightarrow> Edge list" where
  "EdgesFrom a g =
     (case go_get (g_out g) a of
        None \<Rightarrow> []
      | Some preds \<Rightarrow> sort_slice edge_from_less [mk_edge a p b. (p, b) \<leftarrow> pred_flat preds])"

definition EdgesTo :: "nodeID \<Rightarrow> MemGraph \<Rightarrow> Edge list" where
  "EdgesTo b g =
     (case go_get (g_in g) b of
        None \<Rightarrow> []
      | Some preds \<Rightarrow> sort_slice edge_to_less [mk_edge a p b. (p, a) \<leftarrow> pred_flat preds])"

definition EdgesAll :: "MemGraph \<Rightarrow> Edge list" where
  "EdgesAll g = sort_slice edge_less [mk_edge a p b. (a, p, b) \<leftarrow> nest_flat (g_out g)]"

definition FactsCount :: "MemGraph \<Rightarrow> int" where
  "FactsCount g = g_facts g"

definition graph_CountIncoming :: "nodeID \<Rightarrow> string \<Rightarrow> MemGraph \<Rightarrow> int" where
  "graph_CountIncoming b p g =
     (case go_get (g_in g) b of
        None \<Rightarrow> 0
      | Some preds \<Rightarrow> (case go_get preds p of None \<Rightarrow> 0 | Some froms \<Rightarrow> int (length froms)))"

definition EdgesByPredicate :: "string \<Rightarrow> MemGraph \<Rightarrow> Edge list" where
  "EdgesByPredicate p g =
     sort_slice edge_pred_less
       (concat (map (\<lambda>(a, preds).
          (case go_get preds p of
             None \<Rightarrow> []
           | Some tos \<Rightarrow> [mk_edge a p b. (b, _) \<leftarrow> tos])) (g_out g)))"

text \<open>\<open>Predicates\<close> collects the keys in a set: the map from each predicate seen to \<open>struct{}\<close>.\<close>

definition Predicates :: "MemGraph \<Rightarrow> string list" where
  "Predicates g =
     (let seen = fold (\<lambda>(a, preds) m. fold (\<lambda>(p, _) m. go_put p () m) preds m) (g_out g) []
      in sort_slice string_less (map fst seen))"

section \<open>The invariant and the abstraction\<close>

definition graph_facts :: "MemGraph \<Rightarrow> triple set" where
  "graph_facts g = {(a, p, b). nest_has (g_out g) a p b}"

definition graph_ok :: "MemGraph \<Rightarrow> bool" where
  "graph_ok g \<longleftrightarrow>
     nest_ok (g_out g) \<and> nest_ok (g_in g) \<and> nest_full (g_out g) \<and>
     (\<forall>a p b. nest_has (g_in g) b p a \<longleftrightarrow> nest_has (g_out g) a p b) \<and>
     (\<forall>a p b. nest_has (g_out g) a p b \<longrightarrow> a \<noteq> [] \<and> p \<noteq> [] \<and> b \<noteq> []) \<and>
     g_facts g = int (length (nest_flat (g_out g)))"

lemma graph_ok_New [simp]: "graph_ok NewMemGraph"
  by (simp add: graph_ok_def NewMemGraph_def nest_flat_def)

lemma graph_facts_New [simp]: "graph_facts NewMemGraph = {}"
  by (simp add: graph_facts_def NewMemGraph_def)

lemma FactsCount_New: "FactsCount NewMemGraph = 0"
  by (simp add: FactsCount_def NewMemGraph_def)

lemma graph_ok_AddFact: "graph_ok g \<Longrightarrow> graph_ok (snd (AddFact a p b g))"
  by (auto simp: graph_ok_def AddFact_def Let_def nest_ok_put nest_ok_ensure go_map_simps
      nest_ensure_has nest_put_ensure nest_full_put length_nest_flat_put)

lemma graph_facts_AddFact [graph_simps]:
  "graph_facts (snd (AddFact a p b g)) =
     (if a = [] \<or> p = [] \<or> b = [] then graph_facts g else insert (a, p, b) (graph_facts g))"
  by (auto simp: graph_facts_def AddFact_def Let_def go_map_simps)

lemma AddFact_error [graph_simps]:
  "fst (AddFact a p b g) =
     (if a = [] \<or> b = [] then Some ErrNodeEmpty else if p = [] then Some ErrPredicateEmpty else None)"
  by (auto simp: AddFact_def Let_def)

lemma graph_nonempty:
  "graph_ok g \<Longrightarrow> (a, p, b) \<in> graph_facts g \<Longrightarrow> a \<noteq> [] \<and> p \<noteq> [] \<and> b \<noteq> []"
  by (simp add: graph_ok_def graph_facts_def)

lemma graph_facts_flat: "graph_ok g \<Longrightarrow> graph_facts g = set (nest_flat (g_out g))"
  by (auto simp: graph_ok_def graph_facts_def set_nest_flat)

lemma finite_graph_facts: "graph_ok g \<Longrightarrow> finite (graph_facts g)"
  by (simp add: graph_facts_flat)

lemma facts_card: "graph_ok g \<Longrightarrow> FactsCount g = int (card (graph_facts g))"
  by (simp add: graph_facts_flat distinct_card distinct_nest_flat graph_ok_def FactsCount_def)


section \<open>What the queries return\<close>

lemma mem_EdgesAll [graph_simps]:
  "graph_ok g \<Longrightarrow> e \<in> set (EdgesAll g) \<longleftrightarrow> edge_triple e \<in> graph_facts g"
  by (cases e) (force simp: EdgesAll_def graph_facts_flat)

lemma set_pred_flat_out:
  assumes "graph_ok g" and "go_get (g_out g) a = Some preds"
  shows "(p, b) \<in> set (pred_flat preds) \<longleftrightarrow> (a, p, b) \<in> graph_facts g"
proof -
  have "preds = go_index (g_out g) a"
    using assms(2) by (simp add: go_index_def)
  then show ?thesis
    using assms(1) by (simp add: graph_ok_def graph_facts_def set_pred_flat pred_ok_index
        nest_has_def nest_tos_def map_of_eq_None_iff)
qed

lemma set_pred_flat_in:
  assumes "graph_ok g" and "go_get (g_in g) b = Some preds"
  shows "(p, a) \<in> set (pred_flat preds) \<longleftrightarrow> (a, p, b) \<in> graph_facts g"
proof -
  have "preds = go_index (g_in g) b"
    using assms(2) by (simp add: go_index_def)
  then have "(p, a) \<in> set (pred_flat preds) \<longleftrightarrow> nest_has (g_in g) b p a"
    using assms(1) by (simp add: graph_ok_def set_pred_flat pred_ok_index
        nest_has_def nest_tos_def map_of_eq_None_iff)
  then show ?thesis
    using assms(1) by (simp add: graph_ok_def graph_facts_def)
qed

lemma no_facts_from: "go_get (g_out g) a = None \<Longrightarrow> (a, p, b) \<notin> graph_facts g"
  by (simp add: graph_facts_def nest_has_def nest_tos_def go_index_def)

lemma no_facts_to:
  assumes "graph_ok g" and "go_get (g_in g) b = None"
  shows "(a, p, b) \<notin> graph_facts g"
proof -
  from assms(2) have "\<not> nest_has (g_in g) b p a"
    by (simp add: nest_has_def nest_tos_def go_index_def)
  with assms(1) show ?thesis by (simp add: graph_ok_def graph_facts_def)
qed

lemma mem_EdgesFrom [graph_simps]:
  assumes "graph_ok g"
  shows "e \<in> set (EdgesFrom a g) \<longleftrightarrow> eFrom e = a \<and> edge_triple e \<in> graph_facts g"
proof (cases "go_get (g_out g) a")
  case None
  then show ?thesis by (auto simp: EdgesFrom_def no_facts_from edge_triple_def)
next
  case (Some preds)
  then show ?thesis
    using set_pred_flat_out [OF assms Some] by (cases e) (force simp: EdgesFrom_def)
qed

lemma mem_EdgesTo [graph_simps]:
  assumes "graph_ok g"
  shows "e \<in> set (EdgesTo b g) \<longleftrightarrow> eTo e = b \<and> edge_triple e \<in> graph_facts g"
proof (cases "go_get (g_in g) b")
  case None
  then show ?thesis by (auto simp: EdgesTo_def no_facts_to [OF assms] edge_triple_def)
next
  case (Some preds)
  then show ?thesis
    using set_pred_flat_in [OF assms Some] by (cases e) (force simp: EdgesTo_def)
qed

lemma nest_has_iff:
  assumes "nest_ok m"
  shows "nest_has m a p b \<longleftrightarrow> (\<exists>ps tos. (a, ps) \<in> set m \<and> go_get ps p = Some tos \<and> (b, ()) \<in> set tos)"
proof -
  have m: "(a, ps) \<in> set m \<longleftrightarrow> go_get m a = Some ps" for ps
    using assms by (simp add: nest_ok_def)
  have tos: "(b, ()) \<in> set tos \<longleftrightarrow> go_get tos b \<noteq> None" for tos :: "('c, unit) gomap"
    by (force simp: map_of_eq_None_iff)
  show ?thesis
    unfolding m tos by (simp add: nest_has_def nest_tos_def go_index_def split: option.splits)
qed

lemma mem_EdgesByPredicate [graph_simps]:
  assumes "graph_ok g"
  shows "e \<in> set (EdgesByPredicate p g) \<longleftrightarrow> ePred e = p \<and> edge_triple e \<in> graph_facts g"
proof -
  have "nest_ok (g_out g)"
    using assms by (simp add: graph_ok_def)
  then have facts: "(a, p, b) \<in> graph_facts g \<longleftrightarrow>
      (\<exists>ps tos. (a, ps) \<in> set (g_out g) \<and> go_get ps p = Some tos \<and> (b, ()) \<in> set tos)" for a b
    by (simp add: graph_facts_def nest_has_iff)
  have "mk_edge a q b \<in> set (EdgesByPredicate p g) \<longleftrightarrow> q = p \<and> (a, p, b) \<in> graph_facts g" for a q b
    unfolding facts by (force simp: EdgesByPredicate_def split: option.splits)
  then show ?thesis by (cases e) auto
qed

lemma graph_edges_distinct: "graph_ok g \<Longrightarrow> distinct (map (\<lambda>(a, p, b). mk_edge a p b) (nest_flat (g_out g)))"
  by (simp add: graph_ok_def distinct_map distinct_nest_flat inj_on_def split_beta prod_eq_iff)

lemma sorted_EdgesAll: "graph_ok g \<Longrightarrow> sorted_wrt edge_less (EdgesAll g)"
  unfolding EdgesAll_def by (rule edge_sort.sort_slice_strict) (rule graph_edges_distinct)

lemma length_EdgesAll [graph_simps]: "graph_ok g \<Longrightarrow> int (length (EdgesAll g)) = FactsCount g"
  by (simp add: EdgesAll_def graph_ok_def FactsCount_def)


text \<open>
  The order in which the loops of a query visit the maps does not show: every query is a function
  of the set of facts. \<open>EdgesFrom\<close> and \<open>EdgesByPredicate\<close> are selections from \<open>EdgesAll\<close>.
\<close>

lemma EdgesAll_det:
  "graph_ok g \<Longrightarrow> graph_ok g' \<Longrightarrow> graph_facts g = graph_facts g' \<Longrightarrow> EdgesAll g = EdgesAll g'"
  unfolding EdgesAll_def
  by (rule edge_sort.sort_slice_set_eq)
    (simp_all add: graph_edges_distinct graph_facts_flat split_beta image_image)

lemma distinct_EdgesAll: "graph_ok g \<Longrightarrow> distinct (EdgesAll g)"
  by (simp add: EdgesAll_def graph_edges_distinct)

lemma sorted_wrt_subset_less:
  assumes "sorted_wrt edge_less es"
    and "\<And>e f. e \<in> set es \<Longrightarrow> f \<in> set es \<Longrightarrow> P e \<Longrightarrow> P f \<Longrightarrow> edge_less e f \<Longrightarrow> lt e f"
  shows "sorted_wrt lt (filter P es)"
  using sorted_wrt_filter [OF assms(1), of P]
  by (rule sorted_wrt_mono_rel [rotated]) (use assms(2) in auto)

lemma EdgesFrom_filter:
  assumes "graph_ok g"
  shows "EdgesFrom a g = filter (\<lambda>e. eFrom e = a) (EdgesAll g)"
proof (cases "go_get (g_out g) a")
  case None
  then have "filter (\<lambda>e. eFrom e = a) (EdgesAll g) = []"
    using assms by (auto simp: filter_empty_conv mem_EdgesAll edge_triple_def no_facts_from)
  with None show ?thesis by (simp add: EdgesFrom_def)
next
  case (Some preds)
  let ?es = "map (\<lambda>(p, b). mk_edge a p b) (pred_flat preds)"
  have "pred_ok preds"
    using assms Some pred_ok_index [of "g_out g" a] by (simp add: graph_ok_def go_index_def)
  then have dist: "distinct ?es"
    by (simp add: distinct_map distinct_pred_flat inj_on_def split_beta prod_eq_iff)
  have "sort_slice edge_from_less ?es = filter (\<lambda>e. eFrom e = a) (EdgesAll g)"
  proof (rule edge_from_sort.sort_slice_unique_set [OF _ dist])
    show "set (filter (\<lambda>e. eFrom e = a) (EdgesAll g)) = set ?es"
      using mem_EdgesFrom [OF assms, of _ a] Some
      by (auto simp: set_eq_iff EdgesFrom_def mem_EdgesAll assms split_beta)
    show "sorted_wrt edge_from_less (filter (\<lambda>e. eFrom e = a) (EdgesAll g))"
      by (rule sorted_wrt_subset_less [OF sorted_EdgesAll [OF assms]])
        (auto simp: edge_less_def edge_from_less_def split: if_splits)
    show "inj_on (\<lambda>e. (ePred e, eTo e)) (set ?es)"
      by (auto simp: inj_on_def)
  qed
  with Some show ?thesis by (simp add: EdgesFrom_def split_beta)
qed


lemma distinct_EdgesFrom: "graph_ok g \<Longrightarrow> distinct (EdgesFrom a g)"
  by (simp add: EdgesFrom_filter distinct_EdgesAll)

lemma EdgesByPredicate_filter:
  assumes "graph_ok g"
  shows "EdgesByPredicate p g = filter (\<lambda>e. ePred e = p) (EdgesAll g)"
proof -
  let ?row = "\<lambda>(a, preds). case go_get preds p of
      None \<Rightarrow> [] | Some tos \<Rightarrow> map (\<lambda>(b, _). mk_edge a p b) tos"
  let ?es = "concat (map ?row (g_out g))"
  have ok: "go_keys_distinct (g_out g)" "\<forall>(a, ps) \<in> set (g_out g). pred_ok ps"
    using assms by (simp_all add: graph_ok_def nest_ok_def)
  have row: "distinct (?row (a, ps))" if "pred_ok ps" for a ps
    using keys_distinct_index [OF that, of p]
    by (auto simp: go_index_def distinct_map inj_on_def split: option.splits)
  have row_from: "eFrom e = a" if "e \<in> set (?row (a, ps))" for a ps e
    using that by (auto split: option.splits)
  have dist: "distinct (concat (map ?row m))"
    if "go_keys_distinct m" and "\<forall>(a, ps) \<in> set m. pred_ok ps" for m
    using that
  proof (induction m)
    case (Cons x m)
    obtain a ps where x: "x = (a, ps)" by force
    have "set (?row x) \<inter> set (concat (map ?row m)) = {}"
      using Cons.prems(1) row_from x by (fastforce simp: image_iff)
    with Cons x row [of ps a] show ?case by simp
  qed simp
  have "sort_slice edge_pred_less ?es = filter (\<lambda>e. ePred e = p) (EdgesAll g)"
  proof (rule edge_pred_sort.sort_slice_unique_set [OF _ dist [OF ok]])
    show "set (filter (\<lambda>e. ePred e = p) (EdgesAll g)) = set ?es"
      using mem_EdgesByPredicate [OF assms, of _ p]
      by (auto simp: set_eq_iff EdgesByPredicate_def mem_EdgesAll assms)
    show "sorted_wrt edge_pred_less (filter (\<lambda>e. ePred e = p) (EdgesAll g))"
      by (rule sorted_wrt_subset_less [OF sorted_EdgesAll [OF assms]])
        (auto simp: edge_less_def edge_pred_less_def split: if_splits)
    show "inj_on (\<lambda>e. (eFrom e, eTo e)) (set ?es)"
      by (auto simp: inj_on_def split: option.splits)
  qed
  then show ?thesis by (simp add: EdgesByPredicate_def)
qed


lemma CountIncoming_card:
  assumes "graph_ok g"
  shows "graph_CountIncoming b p g = int (card {a. (a, p, b) \<in> graph_facts g})"
proof -
  have in_eq: "(a, p, b) \<in> graph_facts g \<longleftrightarrow> a \<in> fst ` set (nest_tos (g_in g) b p)" for a
    using assms by (auto simp: graph_ok_def graph_facts_def nest_has_def map_of_eq_None_iff)
  have "go_keys_distinct (nest_tos (g_in g) b p)"
    using assms by (simp add: graph_ok_def nest_tos_def keys_distinct_index pred_ok_index)
  then have "card (fst ` set (nest_tos (g_in g) b p)) = length (nest_tos (g_in g) b p)"
    using distinct_card [of "map fst (nest_tos (g_in g) b p)"] by simp
  then show ?thesis
    by (simp add: in_eq graph_CountIncoming_def nest_tos_def go_index_def split: option.splits)
qed

lemma fold_put_keys:
  "fst ` set (fold (\<lambda>(p, _) m. go_put p () m) ps m) = fst ` set m \<union> fst ` set ps"
  by (induction ps arbitrary: m) (auto simp: go_map_simps split_beta)

lemma fold_put_distinct:
  "go_keys_distinct m \<Longrightarrow> go_keys_distinct (fold (\<lambda>(p, _) m. go_put p () m) ps m)"
  by (induction ps arbitrary: m) (auto simp: distinct_update split_beta)

lemma fold_fold_put_keys:
  "fst ` set (fold (\<lambda>(a, preds) m. fold (\<lambda>(p, _) m. go_put p () m) preds m) n m) =
     fst ` set m \<union> (\<Union>(a, ps) \<in> set n. fst ` set ps)"
proof (induction n arbitrary: m)
  case (Cons x n)
  then show ?case by (cases x) (simp add: fold_put_keys Un_assoc)
qed simp

lemma fold_fold_put_distinct:
  "go_keys_distinct m \<Longrightarrow>
    go_keys_distinct (fold (\<lambda>(a, preds) m. fold (\<lambda>(p, _) m. go_put p () m) preds m) n m)"
  by (induction n arbitrary: m) (auto simp: fold_put_distinct)

lemma set_Predicates [graph_simps]:
  assumes "graph_ok g"
  shows "set (Predicates g) = {p. \<exists>a b. (a, p, b) \<in> graph_facts g}"
  using assms
  by (simp add: Predicates_def Let_def fold_fold_put_keys nest_full_keys graph_ok_def graph_facts_def)

lemma sorted_Predicates: "sorted (Predicates g)"
  using string_sort.sorted_sort_slice by (simp add: Predicates_def Let_def)

lemma distinct_Predicates: "distinct (Predicates g)"
  by (simp add: Predicates_def Let_def fold_fold_put_distinct)

section \<open>The Graph interface\<close>

text \<open>
  \<open>kg.Graph\<close> as its clients use it: a set of triples \<open>facts\<close> that \<open>add\<close> extends, with the queries
  determined by that set. The laws are what \<open>MemGraph\<close> promises; the lemmas are the client's.
\<close>

locale fact_graph =
  fixes add :: "nodeID \<Rightarrow> string \<Rightarrow> nodeID \<Rightarrow> 'g \<Rightarrow> go_error option \<times> 'g"
    and all_edges :: "'g \<Rightarrow> Edge list"
    and count :: "'g \<Rightarrow> int"
    and facts :: "'g \<Rightarrow> triple set"
    and inv :: "'g \<Rightarrow> bool"
  assumes add_inv: "inv g \<Longrightarrow> inv (snd (add a p b g))"
    and add_facts: "facts (snd (add a p b g)) =
      (if a = [] \<or> p = [] \<or> b = [] then facts g else insert (a, p, b) (facts g))"
    and edges_mem: "inv g \<Longrightarrow> e \<in> set (all_edges g) \<longleftrightarrow> edge_triple e \<in> facts g"
    and edges_sorted: "inv g \<Longrightarrow> sorted_wrt edge_less (all_edges g)"
    and count_facts: "inv g \<Longrightarrow> count g = int (length (all_edges g))"
begin

lemma edges_distinct: "inv g \<Longrightarrow> distinct (all_edges g)"
  using edges_sorted [of g] by (simp add: edge_less_eq strict_sorted_iff)

text \<open>The edge list is the sorted listing of the facts, however they were added.\<close>

lemma edges_unique:
  assumes "inv g" and "inv g'" and "facts g = facts g'"
  shows "all_edges g = all_edges g'"
proof (rule sorted_distinct_set_unique)
  show "set (all_edges g) = set (all_edges g')"
    using assms by (auto simp: edges_mem)
qed (use assms edges_sorted in \<open>auto simp: edge_less_eq strict_sorted_iff\<close>)

lemma count_card: "inv g \<Longrightarrow> count g = int (card (facts g))"
proof -
  assume inv: "inv g"
  have "edge_triple ` set (all_edges g) = facts g"
    using edges_mem [OF inv] by (force intro: image_eqI [where x = "triple_edge t" for t])
  then have "card (facts g) = card (set (all_edges g))"
    using card_image [OF inj_on_subset [OF inj_edge_triple]] by (metis subset_UNIV)
  then show ?thesis
    using inv edges_distinct by (simp add: count_facts distinct_card)
qed

lemma add_idem: "(a, p, b) \<in> facts g \<Longrightarrow> facts (snd (add a p b g)) = facts g"
  by (simp add: add_facts insert_absorb)

lemma add_mono: "facts g \<subseteq> facts (snd (add a p b g))"
  by (auto simp: add_facts)

lemma adds_inv: "inv g \<Longrightarrow> inv (fold (\<lambda>(a, p, b) g. snd (add a p b g)) ts g)"
  by (induction ts arbitrary: g) (auto simp: add_inv)

lemma adds_facts:
  "facts (fold (\<lambda>(a, p, b) g. snd (add a p b g)) ts g) =
     facts g \<union> {(a, p, b) \<in> set ts. a \<noteq> [] \<and> p \<noteq> [] \<and> b \<noteq> []}"
proof (induction ts arbitrary: g)
  case (Cons t ts)
  then show ?case by (cases t) (auto simp: add_facts split: if_splits)
qed auto

lemma adds_edges:
  "inv g \<Longrightarrow> set ts = set ts' \<Longrightarrow>
    all_edges (fold (\<lambda>(a, p, b) g. snd (add a p b g)) ts g) =
    all_edges (fold (\<lambda>(a, p, b) g. snd (add a p b g)) ts' g)"
  by (rule edges_unique) (simp_all add: adds_inv adds_facts)

end

interpretation mem_graph: fact_graph AddFact EdgesAll FactsCount graph_facts graph_ok
  by unfold_locales
    (simp_all add: graph_ok_AddFact graph_facts_AddFact mem_EdgesAll sorted_EdgesAll length_EdgesAll)

text \<open>\<open>EdgesTo\<close> selects from \<open>EdgesAll\<close> too, in its own order.\<close>

lemma EdgesTo_filter:
  assumes "graph_ok g"
  shows "EdgesTo b g = sort_slice edge_to_less (filter (\<lambda>e. eTo e = b) (EdgesAll g))"
proof (cases "go_get (g_in g) b")
  case None
  then have "filter (\<lambda>e. eTo e = b) (EdgesAll g) = []"
    using assms by (auto simp: filter_empty_conv mem_EdgesAll edge_triple_def no_facts_to [OF assms])
  with None show ?thesis by (simp add: EdgesTo_def)
next
  case (Some preds)
  let ?es = "map (\<lambda>(p, a). mk_edge a p b) (pred_flat preds)"
  have "pred_ok preds"
    using assms Some pred_ok_index [of "g_in g" b] by (simp add: graph_ok_def go_index_def)
  then have "distinct ?es"
    by (simp add: distinct_map distinct_pred_flat inj_on_def split_beta prod_eq_iff)
  moreover have "set ?es = set (filter (\<lambda>e. eTo e = b) (EdgesAll g))"
    using mem_EdgesTo [OF assms, of _ b] Some
    by (auto simp: set_eq_iff EdgesTo_def mem_EdgesAll assms split_beta)
  ultimately have "mset ?es = mset (filter (\<lambda>e. eTo e = b) (EdgesAll g))"
    by (simp only: set_eq_iff_mset_eq_distinct distinct_filter distinct_EdgesAll [OF assms])
  then have "sort_slice edge_to_less ?es = sort_slice edge_to_less (filter (\<lambda>e. eTo e = b) (EdgesAll g))"
    by (rule edge_to_sort.sort_slice_perm) (auto simp: inj_on_def)
  with Some show ?thesis by (simp add: EdgesTo_def split_beta)
qed

section \<open>Properties of the graph\<close>

definition AddFacts :: "triple list \<Rightarrow> MemGraph" where
  "AddFacts ts = fold (\<lambda>(a, p, b) g. snd (AddFact a p b g)) ts NewMemGraph"

definition valid_triples :: "triple list \<Rightarrow> triple set" where
  "valid_triples ts = {(a, p, b) \<in> set ts. a \<noteq> [] \<and> p \<noteq> [] \<and> b \<noteq> []}"

lemma AddFacts_ok: "graph_ok (AddFacts ts)"
  unfolding AddFacts_def by (rule mem_graph.adds_inv) simp

lemma AddFacts_facts: "graph_facts (AddFacts ts) = valid_triples ts"
  unfolding AddFacts_def valid_triples_def by (subst mem_graph.adds_facts) auto

lemma EdgesAll_list:
  assumes "graph_ok g"
  shows "EdgesAll g = map triple_edge (sorted_list_of_set (graph_facts g))"
proof -
  have "sorted (map edge_triple (EdgesAll g))"
    unfolding EdgesAll_def by (rule edge_sort.sorted_sort_slice)
  moreover have "set (map edge_triple (EdgesAll g)) = graph_facts g"
    using mem_EdgesAll [OF assms] by (force intro: image_eqI [where x = "triple_edge t" for t])
  moreover have "distinct (map edge_triple (EdgesAll g))"
    using distinct_EdgesAll [OF assms] inj_on_subset [OF inj_edge_triple subset_UNIV]
    by (simp add: distinct_map)
  ultimately have "map edge_triple (EdgesAll g) = sorted_list_of_set (graph_facts g)"
    by (metis sorted_list_of_set.idem_if_sorted_distinct)
  then show ?thesis
    by (metis (no_types, lifting) list.map_comp list.map_ident_strong comp_apply triple_edge_inverse)
qed

text \<open>
  C26: A graph built by any sequence of \<open>AddFact\<close> calls, rejected and repeated ones included, lists
  in \<open>EdgesAll\<close> the facts with three non-empty fields, each once, in the order of subject, predicate
  and object; the counter counts them; and every other query is the selection from that list that
  its name says, in its own order. So no query depends on the order in which the facts were added or
  in which the maps are visited.
\<close>

theorem graph_queries_exact:
  "EdgesAll (AddFacts ts) = map triple_edge (sorted_list_of_set (valid_triples ts)) \<and>
   FactsCount (AddFacts ts) = int (card (valid_triples ts)) \<and>
   EdgesFrom a (AddFacts ts) = filter (\<lambda>e. eFrom e = a) (EdgesAll (AddFacts ts)) \<and>
   EdgesTo b (AddFacts ts) = sort_slice edge_to_less (filter (\<lambda>e. eTo e = b) (EdgesAll (AddFacts ts))) \<and>
   EdgesByPredicate p (AddFacts ts) = filter (\<lambda>e. ePred e = p) (EdgesAll (AddFacts ts)) \<and>
   graph_CountIncoming b p (AddFacts ts) = int (card {a. (a, p, b) \<in> valid_triples ts}) \<and>
   Predicates (AddFacts ts) = sorted_list_of_set {p. \<exists>a b. (a, p, b) \<in> valid_triples ts}"
proof (intro conjI)
  note ok = AddFacts_ok [of ts]
  show "EdgesAll (AddFacts ts) = map triple_edge (sorted_list_of_set (valid_triples ts))"
    using EdgesAll_list [OF ok] by (simp add: AddFacts_facts)
  show "FactsCount (AddFacts ts) = int (card (valid_triples ts))"
    using facts_card [OF ok] by (simp add: AddFacts_facts)
  show "graph_CountIncoming b p (AddFacts ts) = int (card {a. (a, p, b) \<in> valid_triples ts})"
    using CountIncoming_card [OF ok] by (simp add: AddFacts_facts)
  show "Predicates (AddFacts ts) = sorted_list_of_set {p. \<exists>a b. (a, p, b) \<in> valid_triples ts}"
    using sorted_list_of_set.idem_if_sorted_distinct [OF sorted_Predicates distinct_Predicates, of "AddFacts ts"]
      set_Predicates [OF ok] by (simp add: AddFacts_facts)
qed (simp_all only: EdgesFrom_filter EdgesTo_filter EdgesByPredicate_filter AddFacts_ok)

text \<open>
  \<open>AddFact\<close> keeps the invariant that ties the two indices and the counter together, refuses
  exactly the triples with an empty field (an empty endpoint before an empty predicate), changes
  the facts by that one triple, and counts it only where it is new.
\<close>

theorem AddFact_preserves:
  assumes "graph_ok g"
  shows "graph_ok (snd (AddFact a p b g)) \<and>
    fst (AddFact a p b g) =
      (if a = [] \<or> b = [] then Some ErrNodeEmpty else if p = [] then Some ErrPredicateEmpty else None) \<and>
    graph_facts (snd (AddFact a p b g)) =
      graph_facts g \<union> (if a = [] \<or> b = [] \<or> p = [] then {} else {(a, p, b)}) \<and>
    FactsCount (snd (AddFact a p b g)) =
      FactsCount g + (if a = [] \<or> b = [] \<or> p = [] \<or> (a, p, b) \<in> graph_facts g then 0 else 1)"
proof (intro conjI)
  note ok' = graph_ok_AddFact [OF assms, of a p b]
  show "graph_ok (snd (AddFact a p b g))" by (rule ok')
  show "FactsCount (snd (AddFact a p b g)) =
      FactsCount g + (if a = [] \<or> b = [] \<or> p = [] \<or> (a, p, b) \<in> graph_facts g then 0 else 1)"
    using finite_graph_facts [OF assms]
    by (auto simp: facts_card assms ok' graph_facts_AddFact insert_absorb)
qed (auto simp: graph_simps)

theorem AddFact_preserves_witness:
  "graph_ok (snd (AddFact ''a'' ''p'' ''b'' NewMemGraph)) \<and>
   FactsCount (snd (AddFact ''a'' ''p'' ''b'' NewMemGraph)) = 1"
  using AddFact_preserves [OF graph_ok_New, of "''a''" "''p''" "''b''"]
  by (simp add: FactsCount_New)

end
