(* ===== verification/Rules.thy ===== *)
theory Rules
  imports KG
begin

text \<open>
  Package \<open>rules\<close>, its data and its unifier: \<open>rules.go\<close> and \<open>unify.go\<close>. A rule variable is a string
  of two or more bytes that starts with a question mark and whose second byte is not zero; any
  other string is a literal. Bindings are a Go map that nothing ranges over (but \<open>clone\<close>, which
  copies it), so they are a partial function.
\<close>

named_theorems rule_simps \<open>matching and substitution\<close>

section \<open>Patterns and rules\<close>

record AtomPattern =
  pFrom :: string
  pPred :: string
  pTo :: string

record Rule =
  rName :: string
  rIf :: "AtomPattern list"
  rThen :: AtomPattern

abbreviation mk_pat :: "string \<Rightarrow> string \<Rightarrow> string \<Rightarrow> AtomPattern" where
  "mk_pat a p b \<equiv> \<lparr>pFrom = a, pPred = p, pTo = b\<rparr>"

definition pat_triple :: "AtomPattern \<Rightarrow> string \<times> string \<times> string" where
  "pat_triple p = (pFrom p, pPred p, pTo p)"

lemma inj_pat_triple: "inj pat_triple"
  by (rule injI) (simp add: pat_triple_def)

lemma pat_triple_mk [simp]: "pat_triple (mk_pat a p b) = (a, p, b)"
  by (simp add: pat_triple_def)

definition isVar :: "string \<Rightarrow> bool" where
  "isVar s \<longleftrightarrow> (case s of c # d # _ \<Rightarrow> c = CHR ''?'' \<and> d \<noteq> CHR 0x00 | _ \<Rightarrow> False)"

definition pat_vars :: "AtomPattern \<Rightarrow> string list" where
  "pat_vars p = filter isVar [pFrom p, pPred p, pTo p]"

section \<open>Bindings\<close>

type_synonym Bindings = "string \<rightharpoonup> string"

definition unifyField :: "string \<Rightarrow> string \<Rightarrow> Bindings \<Rightarrow> Bindings \<times> bool" where
  "unifyField pat val binds =
     (if isVar pat then
        (case binds pat of
           Some existing \<Rightarrow> (binds, existing = val)
         | None \<Rightarrow> (binds(pat \<mapsto> val), True))
      else (binds, pat = val))"

definition apply_field :: "Bindings \<Rightarrow> string \<Rightarrow> string option" where
  "apply_field b f = (if isVar f then b f else Some f)"

text \<open>\<open>Apply\<close> substitutes the three fields in order and fails at the first unbound variable.\<close>

definition Apply :: "Bindings \<Rightarrow> AtomPattern \<Rightarrow> AtomPattern option" where
  "Apply b p =
     (case apply_field b (pFrom p) of
        None \<Rightarrow> None
      | Some x \<Rightarrow>
          (case apply_field b (pPred p) of
             None \<Rightarrow> None
           | Some y \<Rightarrow>
               (case apply_field b (pTo p) of
                  None \<Rightarrow> None
                | Some z \<Rightarrow> Some (mk_pat x y z))))"


record EdgeView =
  vFrom :: string
  vPred :: string
  vTo :: string

definition matchAtom :: "AtomPattern \<Rightarrow> EdgeView \<Rightarrow> Bindings \<Rightarrow> Bindings option" where
  "matchAtom p e binds =
     (let (b1, ok1) = unifyField (pFrom p) (vFrom e) binds
      in if \<not> ok1 then None
         else let (b2, ok2) = unifyField (pPred p) (vPred e) b1
              in if \<not> ok2 then None
                 else let (b3, ok3) = unifyField (pTo p) (vTo e) b2
                      in if \<not> ok3 then None else Some b3)"

text \<open>The ground pattern that an edge is.\<close>

definition view_pat :: "EdgeView \<Rightarrow> AtomPattern" where
  "view_pat e = mk_pat (vFrom e) (vPred e) (vTo e)"

section \<open>Substitution lemmas\<close>

lemma apply_field_mono: "apply_field b f = Some v \<Longrightarrow> b \<subseteq>\<^sub>m b' \<Longrightarrow> apply_field b' f = Some v"
  by (auto simp: apply_field_def map_le_def dom_def split: if_splits)

lemma Apply_Some_iff [rule_simps]:
  "Apply b p = Some q \<longleftrightarrow>
     apply_field b (pFrom p) = Some (pFrom q) \<and> apply_field b (pPred p) = Some (pPred q) \<and>
     apply_field b (pTo p) = Some (pTo q)"
  by (auto simp: Apply_def split: option.splits)

lemma Apply_mono: "Apply b p = Some q \<Longrightarrow> b \<subseteq>\<^sub>m b' \<Longrightarrow> Apply b' p = Some q"
  by (auto simp: Apply_Some_iff intro: apply_field_mono)

lemma apply_field_None_iff: "apply_field b f = None \<longleftrightarrow> isVar f \<and> b f = None"
  by (simp add: apply_field_def)

lemma Apply_None_iff [rule_simps]: "Apply b p = None \<longleftrightarrow> (\<exists>v \<in> set (pat_vars p). b v = None)"
  by (auto simp: Apply_def pat_vars_def apply_field_None_iff split: option.splits)
    (auto simp: apply_field_def split: if_splits)

lemma Apply_ground: "pat_vars p = [] \<Longrightarrow> Apply b p = Some p"
  by (auto simp: Apply_Some_iff apply_field_def pat_vars_def split: if_splits)

text \<open>A successful unification extends the bindings, and only as far as it has to.\<close>

lemma unifyField_sound:
  assumes "unifyField f v b = (b', True)"
  shows "b \<subseteq>\<^sub>m b' \<and> apply_field b' f = Some v"
  using assms
  by (auto simp: unifyField_def apply_field_def map_le_def split: if_splits option.splits)

lemma unifyField_complete:
  assumes "b \<subseteq>\<^sub>m \<sigma>" and "apply_field \<sigma> f = Some v"
  shows "\<exists>b'. unifyField f v b = (b', True) \<and> b' \<subseteq>\<^sub>m \<sigma>"
proof (cases "isVar f")
  case False
  with assms show ?thesis by (simp add: unifyField_def apply_field_def)
next
  case True
  show ?thesis
  proof (cases "b f")
    case None
    with True assms show ?thesis
      by (auto simp: unifyField_def apply_field_def map_le_def)
  next
    case (Some w)
    then have "\<sigma> f = Some w"
      using assms(1) by (metis domI map_le_def)
    with True Some assms show ?thesis
      by (simp add: unifyField_def apply_field_def)
  qed
qed

lemma matchAtom_Some:
  "matchAtom p e b = Some b' \<longleftrightarrow>
     (\<exists>b1 b2. unifyField (pFrom p) (vFrom e) b = (b1, True) \<and>
       unifyField (pPred p) (vPred e) b1 = (b2, True) \<and>
       unifyField (pTo p) (vTo e) b2 = (b', True))"
  by (auto simp: matchAtom_def Let_def split: prod.splits)

lemma matchAtom_sound:
  assumes "matchAtom p e b = Some b'"
  shows "b \<subseteq>\<^sub>m b'" and "Apply b' p = Some (view_pat e)"
proof -
  obtain b1 b2 where u1: "unifyField (pFrom p) (vFrom e) b = (b1, True)"
    and u2: "unifyField (pPred p) (vPred e) b1 = (b2, True)"
    and u3: "unifyField (pTo p) (vTo e) b2 = (b', True)"
    using assms by (auto simp: matchAtom_Some)
  note s = unifyField_sound [OF u1] unifyField_sound [OF u2] unifyField_sound [OF u3]
  from s show "b \<subseteq>\<^sub>m b'" by (blast intro: map_le_trans)
  from s have "b1 \<subseteq>\<^sub>m b'" by (blast intro: map_le_trans)
  with s show "Apply b' p = Some (view_pat e)"
    by (auto simp: Apply_Some_iff view_pat_def intro: apply_field_mono)
qed

lemma matchAtom_complete:
  assumes "b \<subseteq>\<^sub>m \<sigma>" and "Apply \<sigma> p = Some (view_pat e)"
  shows "\<exists>b'. matchAtom p e b = Some b' \<and> b' \<subseteq>\<^sub>m \<sigma>"
proof -
  have fields: "apply_field \<sigma> (pFrom p) = Some (vFrom e)" "apply_field \<sigma> (pPred p) = Some (vPred e)"
      "apply_field \<sigma> (pTo p) = Some (vTo e)"
    using assms(2) by (simp_all add: Apply_Some_iff view_pat_def)
  obtain b1 where b1: "unifyField (pFrom p) (vFrom e) b = (b1, True)" "b1 \<subseteq>\<^sub>m \<sigma>"
    using unifyField_complete [OF assms(1) fields(1)] by blast
  obtain b2 where b2: "unifyField (pPred p) (vPred e) b1 = (b2, True)" "b2 \<subseteq>\<^sub>m \<sigma>"
    using unifyField_complete [OF b1(2) fields(2)] by blast
  obtain b3 where b3: "unifyField (pTo p) (vTo e) b2 = (b3, True)" "b3 \<subseteq>\<^sub>m \<sigma>"
    using unifyField_complete [OF b2(2) fields(3)] by blast
  show ?thesis
    using b1(1) b2(1) b3 by (auto simp: matchAtom_Some)
qed

text \<open>What a premise binds is what its instance fixes.\<close>

lemma Apply_agree:
  assumes "Apply b p = Some q" and "b \<subseteq>\<^sub>m \<sigma>" and "Apply \<sigma> p = Some q'"
  shows "q' = q"
  using Apply_mono [OF assms(1,2)] assms(3) by simp

end
