(* ===== verification/Rules_Eval.thy ===== *)
theory Rules_Eval
  imports Rules
begin

text \<open>
  The evaluators of package \<open>rules\<close>: \<open>eval.go\<close> and \<open>eval_indexed.go\<close>. The three closures \<open>dfs\<close> are
  one function here, over the edges a premise is tried against, the step at a leaf and the test that
  the limit is reached; its state is what the closure mutates. \<open>solutions\<close> is the declarative
  reading: the bindings at the leaves in the order of the search; \<open>dfs_scan\<close> says that the search
  with its early returns visits exactly those, up to the limit.
\<close>

section \<open>Edges as views\<close>

definition edge_view :: "Edge \<Rightarrow> EdgeView" where
  "edge_view e = \<lparr>vFrom = eFrom e, vPred = ePred e, vTo = eTo e\<rparr>"

definition view_triple :: "EdgeView \<Rightarrow> string \<times> string \<times> string" where
  "view_triple v = (vFrom v, vPred v, vTo v)"

definition view_less :: "EdgeView \<Rightarrow> EdgeView \<Rightarrow> bool" where
  "view_less x y =
     (if vFrom x \<noteq> vFrom y then vFrom x < vFrom y
      else if vPred x \<noteq> vPred y then vPred x < vPred y
      else vTo x < vTo y)"

interpretation view_sort: total_less view_less view_triple
  by unfold_locales (auto simp: view_less_def view_triple_def inj_on_def)

definition edgesToView :: "Edge list \<Rightarrow> EdgeView list" where
  "edgesToView edges = sort_slice view_less (map edge_view edges)"

section \<open>The search\<close>

fun dfs :: "(AtomPattern \<Rightarrow> Bindings \<Rightarrow> EdgeView list) \<Rightarrow> (Bindings \<Rightarrow> 's \<Rightarrow> 's) \<Rightarrow> ('s \<Rightarrow> bool) \<Rightarrow>
    AtomPattern list \<Rightarrow> Bindings \<Rightarrow> 's \<Rightarrow> 's"
  and dfs_range :: "(AtomPattern \<Rightarrow> Bindings \<Rightarrow> EdgeView list) \<Rightarrow> (Bindings \<Rightarrow> 's \<Rightarrow> 's) \<Rightarrow> ('s \<Rightarrow> bool) \<Rightarrow>
    AtomPattern \<Rightarrow> AtomPattern list \<Rightarrow> EdgeView list \<Rightarrow> Bindings \<Rightarrow> 's \<Rightarrow> 's"
where
  "dfs cands leaf full [] binds st = (if full st then st else leaf binds st)"
| "dfs cands leaf full (prem # rest) binds st =
     (if full st then st else dfs_range cands leaf full prem rest (cands prem binds) binds st)"
| "dfs_range cands leaf full prem rest [] binds st = st"
| "dfs_range cands leaf full prem rest (ev # evs) binds st =
     (case matchAtom prem ev binds of
        None \<Rightarrow> dfs_range cands leaf full prem rest evs binds st
      | Some b2 \<Rightarrow>
          (let st' = dfs cands leaf full rest b2 st
           in if full st' then st' else dfs_range cands leaf full prem rest evs binds st'))"


text \<open>\<open>EvaluateRule\<close>: the state is the slice \<open>results\<close>.\<close>

definition pattern_less :: "AtomPattern \<Rightarrow> AtomPattern \<Rightarrow> bool" where
  "pattern_less x y =
     (if pFrom x \<noteq> pFrom y then pFrom x < pFrom y
      else if pPred x \<noteq> pPred y then pPred x < pPred y
      else pTo x < pTo y)"

interpretation pattern_sort: total_less pattern_less pat_triple
  by unfold_locales (auto simp: pattern_less_def pat_triple_def inj_on_def)

definition rule_leaf :: "Rule \<Rightarrow> Bindings \<Rightarrow> AtomPattern list \<Rightarrow> AtomPattern list" where
  "rule_leaf rule binds results =
     (case Apply binds (rThen rule) of Some t \<Rightarrow> results @ [t] | None \<Rightarrow> results)"

definition EvaluateRule :: "Rule \<Rightarrow> Edge list \<Rightarrow> int \<Rightarrow> AtomPattern list" where
  "EvaluateRule rule edges mx =
     (if mx \<le> 0 then []
      else
        let views = edgesToView edges;
            results = dfs (\<lambda>_ _. views) (rule_leaf rule) (\<lambda>rs. int (length rs) \<ge> mx)
                        (rIf rule) Map.empty []
        in sort_slice pattern_less results)"

text \<open>
  \<open>EvaluateRuleDerivations\<close>: the state is the slice \<open>out\<close> and the set \<open>seen\<close> of the keys of its
  elements. A key joins the fields with bars and the premises with semicolons, without escaping.
\<close>

record Derivation =
  dThen :: AtomPattern
  dPremises :: "AtomPattern list"

definition derivation_key :: "Derivation \<Rightarrow> string" where
  "derivation_key d =
     bar_join (pFrom (dThen d)) (pPred (dThen d)) (pTo (dThen d)) @
     concat (map (\<lambda>p. CHR '';'' # bar_join (pFrom p) (pPred p) (pTo p)) (dPremises d))"

record deriv_state =
  ds_out :: "Derivation list"
  ds_seen :: "(string, unit) gomap"

fun apply_all :: "Bindings \<Rightarrow> AtomPattern list \<Rightarrow> AtomPattern list option" where
  "apply_all binds [] = Some []"
| "apply_all binds (p # ps) =
     (case Apply binds p of
        None \<Rightarrow> None
      | Some gp \<Rightarrow> (case apply_all binds ps of None \<Rightarrow> None | Some gps \<Rightarrow> Some (gp # gps)))"

definition ground_derivation :: "Rule \<Rightarrow> Bindings \<Rightarrow> Derivation option" where
  "ground_derivation rule binds =
     (case Apply binds (rThen rule) of
        None \<Rightarrow> None
      | Some t \<Rightarrow>
          (case apply_all binds (rIf rule) of
             None \<Rightarrow> None
           | Some prem \<Rightarrow> Some \<lparr>dThen = t, dPremises = prem\<rparr>))"

definition derivation_leaf :: "Rule \<Rightarrow> Bindings \<Rightarrow> deriv_state \<Rightarrow> deriv_state" where
  "derivation_leaf rule binds st =
     (case ground_derivation rule binds of
        None \<Rightarrow> st
      | Some d \<Rightarrow>
          (let k = derivation_key d
           in if go_get (ds_seen st) k \<noteq> None then st
              else \<lparr>ds_out = ds_out st @ [d], ds_seen = go_put k () (ds_seen st)\<rparr>))"

fun premises_less :: "AtomPattern list \<Rightarrow> AtomPattern list \<Rightarrow> bool" where
  "premises_less [] [] = False"
| "premises_less [] (q # qs) = True"
| "premises_less (p # ps) [] = False"
| "premises_less (p # ps) (q # qs) =
     (if pFrom p \<noteq> pFrom q then pFrom p < pFrom q
      else if pPred p \<noteq> pPred q then pPred p < pPred q
      else if pTo p \<noteq> pTo q then pTo p < pTo q
      else premises_less ps qs)"

definition derivation_less :: "Derivation \<Rightarrow> Derivation \<Rightarrow> bool" where
  "derivation_less x y =
     (if pFrom (dThen x) \<noteq> pFrom (dThen y) then pFrom (dThen x) < pFrom (dThen y)
      else if pPred (dThen x) \<noteq> pPred (dThen y) then pPred (dThen x) < pPred (dThen y)
      else if pTo (dThen x) \<noteq> pTo (dThen y) then pTo (dThen x) < pTo (dThen y)
      else premises_less (dPremises x) (dPremises y))"

definition EvaluateRuleDerivations :: "Rule \<Rightarrow> Edge list \<Rightarrow> int \<Rightarrow> Derivation list" where
  "EvaluateRuleDerivations rule edges mx =
     (if mx \<le> 0 then []
      else
        let views = edgesToView edges;
            st = dfs (\<lambda>_ _. views) (derivation_leaf rule) (\<lambda>st. int (length (ds_out st)) \<ge> mx)
                   (rIf rule) Map.empty \<lparr>ds_out = [], ds_seen = []\<rparr>
        in sort_slice derivation_less (ds_out st))"

section \<open>The indexed evaluator\<close>

text \<open>
  \<open>BuildPredicateIndex\<close> appends each edge to the bucket of its predicate and then sorts the buckets
  by subject and object. \<open>candidatesFor\<close> calls a predicate a variable when it starts with a question
  mark, which the literal ''?'' does too.
\<close>

type_synonym PredicateIndex = "(string, EdgeView list) gomap"

definition bucket_less :: "EdgeView \<Rightarrow> EdgeView \<Rightarrow> bool" where
  "bucket_less x y = (if vFrom x \<noteq> vFrom y then vFrom x < vFrom y else vTo x < vTo y)"

interpretation bucket_sort: keyed_less bucket_less "\<lambda>v. (vFrom v, vTo v)"
  by unfold_locales (auto simp: bucket_less_def)

definition BuildPredicateIndex :: "Edge list \<Rightarrow> PredicateIndex" where
  "BuildPredicateIndex edges =
     map (\<lambda>(p, bucket). (p, sort_slice bucket_less bucket))
       (fold (\<lambda>e idx. go_put (ePred e) (go_index idx (ePred e) @ [edge_view e]) idx) edges [])"

definition candidatesFor :: "EdgeView list \<Rightarrow> PredicateIndex \<Rightarrow> AtomPattern \<Rightarrow> Bindings \<Rightarrow> EdgeView list" where
  "candidatesFor allViews idx prem binds =
     (if take 1 (pPred prem) = ''?'' then
        (case binds (pPred prem) of
           Some bound \<Rightarrow> go_index idx bound
         | None \<Rightarrow> allViews)
      else go_index idx (pPred prem))"

definition EvaluateRuleDerivationsIndexed ::
    "Rule \<Rightarrow> Edge list \<Rightarrow> PredicateIndex \<Rightarrow> int \<Rightarrow> Derivation list" where
  "EvaluateRuleDerivationsIndexed rule edges idx mx =
     (if mx \<le> 0 then []
      else
        let allViews = edgesToView edges;
            st = dfs (candidatesFor allViews idx) (derivation_leaf rule)
                   (\<lambda>st. int (length (ds_out st)) \<ge> mx)
                   (rIf rule) Map.empty \<lparr>ds_out = [], ds_seen = []\<rparr>
        in sort_slice derivation_less (ds_out st))"

section \<open>The search visits the solutions in order\<close>

fun solutions :: "(AtomPattern \<Rightarrow> Bindings \<Rightarrow> EdgeView list) \<Rightarrow> AtomPattern list \<Rightarrow> Bindings \<Rightarrow> Bindings list" where
  "solutions cands [] binds = [binds]"
| "solutions cands (prem # rest) binds =
     concat (map (solutions cands rest) (List.map_filter (\<lambda>ev. matchAtom prem ev binds) (cands prem binds)))"

fun scan :: "('b \<Rightarrow> 's \<Rightarrow> 's) \<Rightarrow> ('s \<Rightarrow> bool) \<Rightarrow> 'b list \<Rightarrow> 's \<Rightarrow> 's" where
  "scan leaf full [] st = st"
| "scan leaf full (b # bs) st = (if full st then st else scan leaf full bs (leaf b st))"

lemma scan_full: "full st \<Longrightarrow> scan leaf full bs st = st"
  by (cases bs) auto

lemma scan_append: "scan leaf full (bs @ cs) st = scan leaf full cs (scan leaf full bs st)"
  by (induction bs arbitrary: st) (auto simp: scan_full)

lemma dfs_full: "full st \<Longrightarrow> dfs cands leaf full prems binds st = st"
  by (cases prems) auto

lemma dfs_scan:
  "dfs cands leaf full prems binds st = scan leaf full (solutions cands prems binds) st"
  "dfs_range cands leaf full prem rest evs binds st =
     scan leaf full (concat (map (solutions cands rest) (List.map_filter (\<lambda>ev. matchAtom prem ev binds) evs))) st"
proof (induction cands leaf full prems binds st and cands leaf full prem rest evs binds st
    rule: dfs_dfs_range.induct)
  case (2 cands leaf full prem rest binds st)
  then show ?case by (auto simp: scan_full)
next
  case (4 cands leaf full prem rest ev evs binds st)
  show ?case
  proof (cases "matchAtom prem ev binds")
    case None
    with "4.IH"(1) show ?thesis by (simp add: map_filter_simps)
  next
    case (Some b2)
    let ?st' = "dfs cands leaf full rest b2 st"
    have st': "?st' = scan leaf full (solutions cands rest b2) st"
      using "4.IH"(2) [OF Some] .
    show ?thesis
    proof (cases "full ?st'")
      case True
      with Some st' show ?thesis by (simp add: map_filter_simps scan_append scan_full)
    next
      case False
      with Some "4.IH"(3) [OF Some refl False] st' show ?thesis
        by (simp add: map_filter_simps scan_append)
    qed
  qed
qed (simp_all add: map_filter_simps)

text \<open>The search over \<open>results\<close> collects the instances of the conclusion, up to the limit.\<close>

definition conclusions :: "Rule \<Rightarrow> EdgeView list \<Rightarrow> AtomPattern list" where
  "conclusions rule views =
     List.map_filter (\<lambda>b. Apply b (rThen rule)) (solutions (\<lambda>_ _. views) (rIf rule) Map.empty)"

lemma scan_results:
  assumes "int (length rs) \<le> mx"
  shows "scan (rule_leaf rule) (\<lambda>rs. int (length rs) \<ge> mx) bs rs =
    rs @ take (nat mx - length rs) (List.map_filter (\<lambda>b. Apply b (rThen rule)) bs)"
  using assms
proof (induction bs arbitrary: rs)
  case (Cons b bs)
  show ?case
  proof (cases "int (length rs) = mx")
    case True
    then show ?thesis by simp
  next
    case False
    with Cons.prems have "nat mx - length rs = Suc (nat mx - Suc (length rs))"
      by linarith
    with Cons False show ?thesis
      by (cases "Apply b (rThen rule)") (simp_all add: rule_leaf_def map_filter_simps)
  qed
qed (simp add: map_filter_simps)

lemma EvaluateRule_conclusions:
  "0 < mx \<Longrightarrow> EvaluateRule rule edges mx =
     sort_slice pattern_less (take (nat mx) (conclusions rule (edgesToView edges)))"
  by (simp add: EvaluateRule_def Let_def dfs_scan scan_results conclusions_def)

text \<open>The search over \<open>out\<close> and \<open>seen\<close> keeps the first derivation of each key, up to the limit.\<close>

fun first_by_key :: "string set \<Rightarrow> Derivation list \<Rightarrow> Derivation list" where
  "first_by_key K [] = []"
| "first_by_key K (d # ds) =
     (if derivation_key d \<in> K then first_by_key K ds
      else d # first_by_key (insert (derivation_key d) K) ds)"

definition groundings :: "Rule \<Rightarrow> (AtomPattern \<Rightarrow> Bindings \<Rightarrow> EdgeView list) \<Rightarrow> Derivation list" where
  "groundings rule cands = List.map_filter (ground_derivation rule) (solutions cands (rIf rule) Map.empty)"

lemma scan_derivations:
  assumes "int (length (ds_out st)) \<le> mx"
  shows "ds_out (scan (derivation_leaf rule) (\<lambda>st. int (length (ds_out st)) \<ge> mx) bs st) =
    ds_out st @ take (nat mx - length (ds_out st))
      (first_by_key (fst ` set (ds_seen st)) (List.map_filter (ground_derivation rule) bs))"
  using assms
proof (induction bs arbitrary: st)
  case (Cons b bs)
  show ?case
  proof (cases "int (length (ds_out st)) = mx")
    case True
    then show ?thesis by simp
  next
    case False
    with Cons.prems have "nat mx - length (ds_out st) = Suc (nat mx - Suc (length (ds_out st)))"
      by linarith
    with Cons False show ?thesis
      by (cases "ground_derivation rule b")
        (auto simp: derivation_leaf_def map_filter_simps Let_def go_get_in_keys go_map_simps)
  qed
qed (simp add: map_filter_simps)

lemma derivation_search:
  "0 < mx \<Longrightarrow>
    ds_out (dfs cands (derivation_leaf rule) (\<lambda>st. int (length (ds_out st)) \<ge> mx)
      (rIf rule) Map.empty \<lparr>ds_out = [], ds_seen = []\<rparr>) =
    take (nat mx) (first_by_key {} (groundings rule cands))"
  by (simp add: dfs_scan scan_derivations groundings_def)

lemma EvaluateRuleDerivations_groundings:
  "0 < mx \<Longrightarrow> EvaluateRuleDerivations rule edges mx =
     sort_slice derivation_less
       (take (nat mx) (first_by_key {} (groundings rule (\<lambda>_ _. edgesToView edges))))"
  by (simp add: EvaluateRuleDerivations_def Let_def derivation_search)

lemma EvaluateRuleDerivationsIndexed_groundings:
  "0 < mx \<Longrightarrow> EvaluateRuleDerivationsIndexed rule edges idx mx =
     sort_slice derivation_less
       (take (nat mx) (first_by_key {} (groundings rule (candidatesFor (edgesToView edges) idx))))"
  by (simp add: EvaluateRuleDerivationsIndexed_def Let_def derivation_search)

end
