(* ===== verification/Rules_Correct.thy ===== *)
theory Rules_Correct
  imports Rules_Eval
begin

text \<open>
  What the evaluators compute. \<open>rule_instance\<close> is the meaning of a rule: a substitution under which
  the premises are edges. The evaluators derive instances only, and every instance of a rule whose
  conclusion has no variable of its own, unless the limit or a collision of keys cuts it off; the
  indexed evaluator returns what the plain one does.
\<close>

definition edge_pat :: "Edge \<Rightarrow> AtomPattern" where
  "edge_pat e = mk_pat (eFrom e) (ePred e) (eTo e)"

definition edge_pats :: "Edge list \<Rightarrow> AtomPattern set" where
  "edge_pats edges = edge_pat ` set edges"

definition rule_instance :: "Rule \<Rightarrow> AtomPattern set \<Rightarrow> AtomPattern list \<Rightarrow> AtomPattern \<Rightarrow> bool" where
  "rule_instance rule E prems t \<longleftrightarrow>
     (\<exists>\<sigma>. map (Apply \<sigma>) (rIf rule) = map Some prems \<and> set prems \<subseteq> E \<and> Apply \<sigma> (rThen rule) = Some t)"

text \<open>Every variable of the conclusion occurs in a premise.\<close>

definition safe_rule :: "Rule \<Rightarrow> bool" where
  "safe_rule rule \<longleftrightarrow> set (pat_vars (rThen rule)) \<subseteq> (\<Union>p \<in> set (rIf rule). set (pat_vars p))"

lemma set_edgesToView [simp]: "set (edgesToView edges) = edge_view ` set edges"
  by (simp add: edgesToView_def)

lemma view_pat_edge_view [simp]: "view_pat (edge_view e) = edge_pat e"
  by (simp add: view_pat_def edge_view_def edge_pat_def)

lemma view_pats: "view_pat ` set (edgesToView edges) = edge_pats edges"
  by (simp add: edge_pats_def image_image)

section \<open>The solutions\<close>

lemma set_map_filter: "set (List.map_filter f xs) = {y. \<exists>x \<in> set xs. f x = Some y}"
  by (induction xs) (auto simp: map_filter_simps split: option.splits)

lemma solutions_sound:
  assumes "b' \<in> set (solutions (\<lambda>_ _. views) prems b)"
  shows "b \<subseteq>\<^sub>m b' \<and> (\<forall>p \<in> set prems. \<exists>v \<in> set views. Apply b' p = Some (view_pat v))"
  using assms
proof (induction prems arbitrary: b)
  case (Cons p ps)
  then obtain v b2 where v: "v \<in> set views" and m: "matchAtom p v b = Some b2"
      and b': "b' \<in> set (solutions (\<lambda>_ _. views) ps b2)"
    by (auto simp: set_map_filter)
  note IH = Cons.IH [OF b']
  have "Apply b' p = Some (view_pat v)"
    using matchAtom_sound(2) [OF m] IH Apply_mono by blast
  moreover have "b \<subseteq>\<^sub>m b'"
    using matchAtom_sound(1) [OF m] IH map_le_trans by blast
  ultimately show ?case using IH v by auto
qed simp

lemma solutions_complete:
  assumes "b \<subseteq>\<^sub>m \<sigma>" and "\<forall>p \<in> set prems. \<exists>v \<in> set views. Apply \<sigma> p = Some (view_pat v)"
  shows "\<exists>b' \<in> set (solutions (\<lambda>_ _. views) prems b). b' \<subseteq>\<^sub>m \<sigma>"
  using assms
proof (induction prems arbitrary: b)
  case (Cons p ps)
  then obtain v where v: "v \<in> set views" "Apply \<sigma> p = Some (view_pat v)"
    by auto
  obtain b2 where b2: "matchAtom p v b = Some b2" "b2 \<subseteq>\<^sub>m \<sigma>"
    using matchAtom_complete [OF Cons.prems(1) v(2)] by blast
  obtain b' where "b' \<in> set (solutions (\<lambda>_ _. views) ps b2)" "b' \<subseteq>\<^sub>m \<sigma>"
    using Cons.IH [OF b2(2)] Cons.prems(2) by auto
  then show ?case
    using v(1) b2(1) by (auto simp: set_map_filter)
qed simp

lemma apply_all_Some: "apply_all b ps = Some gps \<longleftrightarrow> map (Apply b) ps = map Some gps"
proof (induction ps arbitrary: gps)
  case Nil
  then show ?case by (cases gps) auto
next
  case (Cons p ps)
  show ?case
    using Cons.IH [of "tl gps"] by (cases gps) (auto split: option.splits)
qed

lemma ground_derivation_Some:
  "ground_derivation rule b = Some d \<longleftrightarrow>
     Apply b (rThen rule) = Some (dThen d) \<and> map (Apply b) (rIf rule) = map Some (dPremises d)"
  by (auto simp: ground_derivation_def apply_all_Some split: option.splits) 
    (auto simp flip: apply_all_Some)

lemma map_Some_all:
  assumes "\<forall>p \<in> set ps. \<exists>v \<in> V. f p = Some (g v)"
  shows "\<exists>vs. map f ps = map Some vs \<and> set vs \<subseteq> g ` V"
  using assms
proof (induction ps)
  case (Cons p ps)
  then obtain v vs where "v \<in> V" "f p = Some (g v)" "map f ps = map Some vs" "set vs \<subseteq> g ` V"
    by auto
  then show ?case by (intro exI [of _ "g v # vs"]) auto
qed simp

section \<open>The groundings are the instances\<close>

lemma groundings_sound:
  assumes "d \<in> set (groundings rule (\<lambda>_ _. views))"
  shows "rule_instance rule (view_pat ` set views) (dPremises d) (dThen d)"
proof -
  obtain b where b: "b \<in> set (solutions (\<lambda>_ _. views) (rIf rule) Map.empty)"
      and d: "ground_derivation rule b = Some d"
    using assms by (auto simp: groundings_def set_map_filter)
  obtain gps where "map (Apply b) (rIf rule) = map Some gps" "set gps \<subseteq> view_pat ` set views"
    using solutions_sound [OF b] map_Some_all by metis
  then show ?thesis
    using d by (auto simp: rule_instance_def ground_derivation_Some) 
qed

lemma map_Apply_cong:
  assumes "map (Apply \<sigma>) ps = map Some gps" and "b \<subseteq>\<^sub>m \<sigma>" and "\<forall>p \<in> set ps. Apply b p \<noteq> None"
  shows "map (Apply b) ps = map Some gps"
proof -
  have "Apply b p = Apply \<sigma> p" if "p \<in> set ps" for p
  proof -
    obtain q where q: "Apply b p = Some q"
      using assms(3) \<open>p \<in> set ps\<close> by blast
    with Apply_mono [OF q assms(2)] show ?thesis by simp
  qed
  then show ?thesis using assms(1) by (metis map_eq_conv)
qed

lemma groundings_complete:
  assumes "rule_instance rule (view_pat ` set views) prems t" and "safe_rule rule"
  shows "\<lparr>dThen = t, dPremises = prems\<rparr> \<in> set (groundings rule (\<lambda>_ _. views))"
proof -
  obtain \<sigma> where \<sigma>: "map (Apply \<sigma>) (rIf rule) = map Some prems" "set prems \<subseteq> view_pat ` set views"
      "Apply \<sigma> (rThen rule) = Some t"
    using assms(1) by (auto simp: rule_instance_def)
  have inst: "\<forall>p \<in> set (rIf rule). \<exists>v \<in> set views. Apply \<sigma> p = Some (view_pat v)"
  proof
    fix p
    assume "p \<in> set (rIf rule)"
    then have "Apply \<sigma> p \<in> Some ` set prems"
      using arg_cong [OF \<sigma>(1), of set] by auto
    with \<sigma>(2) show "\<exists>v \<in> set views. Apply \<sigma> p = Some (view_pat v)" by auto
  qed
  obtain b where b: "b \<in> set (solutions (\<lambda>_ _. views) (rIf rule) Map.empty)" and le: "b \<subseteq>\<^sub>m \<sigma>"
    using solutions_complete [OF _ inst, of Map.empty] by auto
  have bound: "\<forall>p \<in> set (rIf rule). Apply b p \<noteq> None"
    using solutions_sound [OF b] by auto
  then have "Apply b (rThen rule) \<noteq> None"
    using assms(2) by (auto simp: Apply_None_iff safe_rule_def)
  then have "Apply b (rThen rule) = Some t"
    using Apply_agree [OF _ le \<sigma>(3)] by auto
  then have "ground_derivation rule b = Some \<lparr>dThen = t, dPremises = prems\<rparr>"
    using map_Apply_cong [OF \<sigma>(1) le bound] by (simp add: ground_derivation_Some)
  with b show ?thesis by (auto simp: groundings_def set_map_filter)
qed


section \<open>The limit and the keys\<close>

lemma set_first_by_key: "set (first_by_key K ds) \<subseteq> set ds"
  by (induction ds arbitrary: K) auto

lemma first_by_key_keys:
  "distinct (map derivation_key (first_by_key K ds)) \<and>
    derivation_key ` set (first_by_key K ds) = derivation_key ` set ds - K"
  by (induction ds arbitrary: K) auto

lemma premises_less_iff: "premises_less ps qs \<longleftrightarrow> map pat_triple ps < map pat_triple qs"
  by (induction ps qs rule: premises_less.induct) (auto simp: pat_triple_def)

interpretation derivation_sort: total_less derivation_less "\<lambda>d. (pat_triple (dThen d), map pat_triple (dPremises d))"
proof
  show "inj (\<lambda>d :: Derivation. (pat_triple (dThen d), map pat_triple (dPremises d)))"
  proof (rule injI)
    fix x y :: Derivation
    assume "(pat_triple (dThen x), map pat_triple (dPremises x)) =
      (pat_triple (dThen y), map pat_triple (dPremises y))"
    then show "x = y"
      by (cases x, cases y) (simp add: inj_eq [OF inj_pat_triple] inj_map_eq_map [OF inj_pat_triple])
  qed
qed (auto simp: derivation_less_def premises_less_iff pat_triple_def)

lemma EvaluateRuleDerivations_subset:
  "set (EvaluateRuleDerivations rule edges mx) \<subseteq> set (groundings rule (\<lambda>_ _. edgesToView edges))"
proof (cases "0 < mx")
  case True
  then show ?thesis
    using order_trans [OF set_take_subset set_first_by_key]
    by (simp add: EvaluateRuleDerivations_groundings)
qed (simp add: EvaluateRuleDerivations_def)

lemma EvaluateRuleDerivations_keys:
  "distinct (map derivation_key (EvaluateRuleDerivations rule edges mx))"
proof (cases "0 < mx")
  case True
  let ?ds = "take (nat mx) (first_by_key {} (groundings rule (\<lambda>_ _. edgesToView edges)))"
  have "distinct (map derivation_key ?ds)"
    by (simp add: first_by_key_keys flip: take_map)
  then show ?thesis
    using True
    by (subst mset_eq_imp_distinct_iff [where ys = "map derivation_key ?ds"])
      (simp_all add: EvaluateRuleDerivations_groundings mset_map)
qed (simp add: EvaluateRuleDerivations_def)

lemma EvaluateRuleDerivations_length:
  "length (EvaluateRuleDerivations rule edges mx) \<le> nat mx"
  by (cases "0 < mx") (simp_all add: EvaluateRuleDerivations_groundings, simp add: EvaluateRuleDerivations_def)

text \<open>Below the limit no key is missing.\<close>

lemma EvaluateRuleDerivations_all:
  assumes "int (length (EvaluateRuleDerivations rule edges mx)) < mx"
  shows "derivation_key ` set (EvaluateRuleDerivations rule edges mx) =
    derivation_key ` set (groundings rule (\<lambda>_ _. edgesToView edges))"
proof -
  let ?ds = "first_by_key {} (groundings rule (\<lambda>_ _. edgesToView edges))"
  have mx: "0 < mx"
    using assms by linarith
  have "int (length (take (nat mx) ?ds)) < mx"
    using assms unfolding EvaluateRuleDerivations_groundings [OF mx] length_sort_slice .
  then have "take (nat mx) ?ds = ?ds" by auto
  with mx have "set (EvaluateRuleDerivations rule edges mx) = set ?ds"
    by (simp add: EvaluateRuleDerivations_groundings)
  then show ?thesis by (simp add: first_by_key_keys)
qed

definition plain_pat :: "AtomPattern \<Rightarrow> bool" where
  "plain_pat p \<longleftrightarrow> plain (pFrom p) \<and> plain (pPred p) \<and> plain (pTo p)"

lemma derivation_key_inject:
  assumes "plain_pat (dThen d)" and "plain_pat (dThen d')"
    and "\<forall>p \<in> set (dPremises d) \<union> set (dPremises d'). plain_pat p"
    and "derivation_key d = derivation_key d'"
  shows "d = d'"
proof -
  let ?f = "\<lambda>p. bar_join (pFrom p) (pPred p) (pTo p)"
  let ?cat = "\<lambda>ps. concat (map (\<lambda>p. CHR '';'' # ?f p) ps)"
  have semi: "?cat ps = [] \<or> (\<exists>r. ?cat ps = CHR '';'' # r)" for ps
    by (cases ps) simp_all
  have no_semi: "CHR '';'' \<notin> set (?f p)" if "plain_pat p" for p
    using that by (simp add: plain_pat_def semicolon_bar_join)
  have inj: "p = q" if "plain_pat p" "plain_pat q" "?f p = ?f q" for p q
    using that by (simp add: plain_pat_def bar_join_inject)
  have "?f (dThen d) @ ?cat (dPremises d) = ?f (dThen d') @ ?cat (dPremises d')"
    using assms(4) by (simp add: derivation_key_def)
  then have eq: "?f (dThen d) = ?f (dThen d')" "?cat (dPremises d) = ?cat (dPremises d')"
    using split_tail_eq [OF no_semi [OF assms(1)] no_semi [OF assms(2)] semi semi] by blast+
  have "dPremises d = dPremises d'"
    by (rule semicolon_list_inject [OF _ _ eq(2)])
      (use assms(3) no_semi inj in \<open>auto intro!: inj_onI\<close>)
  moreover have "dThen d = dThen d'"
    using inj [OF assms(1,2) eq(1)] .
  ultimately show ?thesis by simp
qed

section \<open>The index\<close>

lemma set_dom_matchAtom:
  assumes "matchAtom p v b = Some b'" and "\<forall>x \<in> dom b. isVar x"
  shows "\<forall>x \<in> dom b'. isVar x"
  using assms
  by (auto simp: matchAtom_Some unifyField_def split: if_splits option.splits)

lemma index_fold:
  "go_index (fold (\<lambda>e idx. go_put (ePred e) (go_index idx (ePred e) @ [edge_view e]) idx) edges idx) p =
     go_index idx p @ filter (\<lambda>v. vPred v = p) (map edge_view edges)"
  by (induction edges arbitrary: idx) (auto simp: go_map_simps edge_view_def)

lemma go_index_BuildPredicateIndex:
  "go_index (BuildPredicateIndex edges) p =
     sort_slice bucket_less (filter (\<lambda>v. vPred v = p) (map edge_view edges))"
  unfolding BuildPredicateIndex_def
  by (subst go_index_map_values) (simp_all add: index_fold, simp add: go_index_def)

lemma bucket_filter:
  "go_index (BuildPredicateIndex edges) p = filter (\<lambda>v. vPred v = p) (edgesToView edges)"
  unfolding go_index_BuildPredicateIndex
proof (rule bucket_sort.sort_slice_unique)
  let ?vs = "filter (\<lambda>v. vPred v = p) (edgesToView edges)"
  show "mset ?vs = mset (filter (\<lambda>v. vPred v = p) (map edge_view edges))"
    by (simp add: edgesToView_def mset_filter)
  have "sorted_wrt (\<lambda>x y. view_triple x \<le> view_triple y) ?vs"
    using sorted_wrt_filter view_sort.sorted_sort_slice [of "map edge_view edges"]
    by (fastforce simp: edgesToView_def sorted_wrt_map)
  then have "sorted_wrt (\<lambda>x y. (vFrom x, vTo x) \<le> (vFrom y, vTo y)) ?vs"
    by (rule sorted_wrt_mono_rel [rotated]) (auto simp: view_triple_def)
  then show "sorted (map (\<lambda>v. (vFrom v, vTo v)) ?vs)"
    by (simp add: sorted_wrt_map)
qed (auto simp: inj_on_def)

lemma map_filter_filter:
  "(\<And>x y. f x = Some y \<Longrightarrow> P x) \<Longrightarrow> List.map_filter f (filter P xs) = List.map_filter f xs"
  by (induction xs) (auto simp: map_filter_simps split: option.splits)

lemma matchAtom_pred:
  assumes "matchAtom p v b = Some b'"
  shows "\<not> isVar (pPred p) \<Longrightarrow> vPred v = pPred p"
    and "isVar (pPred p) \<Longrightarrow> b (pPred p) = Some bound \<Longrightarrow> vPred v = bound"
  using matchAtom_sound [OF assms]
  by (auto simp: Apply_Some_iff apply_field_def view_pat_def map_le_def dom_def) 

lemma isVar_prefix: "isVar s \<Longrightarrow> take 1 s = ''?''"
  by (auto simp: isVar_def split: list.splits)

lemma candidates_equiv:
  assumes "\<forall>x \<in> dom b. isVar x"
  shows "List.map_filter (\<lambda>v. matchAtom p v b)
      (candidatesFor (edgesToView edges) (BuildPredicateIndex edges) p b) =
    List.map_filter (\<lambda>v. matchAtom p v b) (edgesToView edges)"
proof (cases "isVar (pPred p)")
  case True
  then show ?thesis
    using isVar_prefix [OF True] matchAtom_pred(2)
    by (cases "b (pPred p)") (auto simp: candidatesFor_def bucket_filter intro!: map_filter_filter)
next
  case False
  then have "b (pPred p) = None"
    using assms by auto
  then show ?thesis
    using matchAtom_pred(1) False
    by (auto simp: candidatesFor_def bucket_filter intro!: map_filter_filter)
qed

lemma solutions_indexed:
  "\<forall>x \<in> dom b. isVar x \<Longrightarrow>
    solutions (candidatesFor (edgesToView edges) (BuildPredicateIndex edges)) prems b =
    solutions (\<lambda>_ _. edgesToView edges) prems b"
proof (induction prems arbitrary: b)
  case (Cons p ps)
  have "map (solutions (candidatesFor (edgesToView edges) (BuildPredicateIndex edges)) ps)
      (List.map_filter (\<lambda>v. matchAtom p v b) (edgesToView edges)) =
    map (solutions (\<lambda>_ _. edgesToView edges) ps) (List.map_filter (\<lambda>v. matchAtom p v b) (edgesToView edges))"
    by (rule map_cong [OF refl], rule Cons.IH)
      (use Cons.prems set_dom_matchAtom in \<open>force simp: set_map_filter\<close>)
  then show ?case
    unfolding solutions.simps candidates_equiv [OF Cons.prems] by (rule arg_cong)
qed simp


lemma EvaluateRuleDerivationsIndexed_eq:
  "EvaluateRuleDerivationsIndexed rule edges (BuildPredicateIndex edges) mx =
     EvaluateRuleDerivations rule edges mx"
proof (cases "0 < mx")
  case True
  then show ?thesis
    by (simp add: EvaluateRuleDerivations_groundings EvaluateRuleDerivationsIndexed_groundings
        groundings_def solutions_indexed)
qed (simp add: EvaluateRuleDerivations_def EvaluateRuleDerivationsIndexed_def)

lemmas groundings_edges_sound = groundings_sound [where views = "edgesToView edges" for edges, unfolded view_pats]

lemmas groundings_edges_complete =
  groundings_complete [where views = "edgesToView edges" for edges, unfolded view_pats]

lemma EvaluateRuleDerivations_sound:
  "d \<in> set (EvaluateRuleDerivations rule edges mx) \<Longrightarrow>
    rule_instance rule (edge_pats edges) (dPremises d) (dThen d)"
  by (rule groundings_edges_sound, rule subsetD [OF EvaluateRuleDerivations_subset])

section \<open>Plain edges\<close>

text \<open>Where the edges and the conclusion hold no separator, neither does an instance.\<close>

lemma bound_plain:
  assumes "Apply \<sigma> p = Some q" and "plain_pat q" and "x \<in> set (pat_vars p)" and "\<sigma> x = Some w"
  shows "plain w"
  using assms by (auto simp: pat_vars_def Apply_Some_iff apply_field_def plain_pat_def split: if_splits)

lemma instance_plain:
  assumes "rule_instance rule E prems t" and "safe_rule rule" and "\<forall>q \<in> E. plain_pat q"
    and "plain_pat (rThen rule)"
  shows "plain_pat t"
proof -
  obtain \<sigma> where \<sigma>: "map (Apply \<sigma>) (rIf rule) = map Some prems" "set prems \<subseteq> E"
      "Apply \<sigma> (rThen rule) = Some t"
    using assms(1) by (auto simp: rule_instance_def)
  have vals: "plain w" if val: "\<sigma> x = Some w" and x: "x \<in> set (pat_vars (rThen rule))" for x w
  proof -
    obtain p where p: "p \<in> set (rIf rule)" "x \<in> set (pat_vars p)"
      using assms(2) x by (auto simp: safe_rule_def)
    then have "Apply \<sigma> p \<in> Some ` set prems"
      using arg_cong [OF \<sigma>(1), of set] by auto
    then obtain q where "Apply \<sigma> p = Some q" "plain_pat q"
      using \<sigma>(2) assms(3) by auto
    then show "plain w" using bound_plain p(2) val by blast
  qed
  show ?thesis
    using \<sigma>(3) assms(4) vals
    by (auto simp: Apply_Some_iff plain_pat_def apply_field_def pat_vars_def split: if_splits)
qed

lemma derivations_complete:
  assumes "safe_rule rule" and "plain_pat (rThen rule)" and "\<forall>q \<in> edge_pats edges. plain_pat q"
    and "int (length (EvaluateRuleDerivations rule edges mx)) < mx"
    and inst: "rule_instance rule (edge_pats edges) (dPremises d) (dThen d)"
  shows "d \<in> set (EvaluateRuleDerivations rule edges mx)"
proof -
  have "\<lparr>dThen = dThen d, dPremises = dPremises d\<rparr> \<in> set (groundings rule (\<lambda>_ _. edgesToView edges))"
    using inst by (intro groundings_edges_complete assms(1))
  then have "d \<in> set (groundings rule (\<lambda>_ _. edgesToView edges))"
    by (cases d) simp
  then have "derivation_key d \<in> derivation_key ` set (EvaluateRuleDerivations rule edges mx)"
    unfolding EvaluateRuleDerivations_all [OF assms(4)] by (rule imageI)
  then obtain d' where d': "d' \<in> set (EvaluateRuleDerivations rule edges mx)"
      and key: "derivation_key d' = derivation_key d"
    by (metis imageE)
  note inst' = EvaluateRuleDerivations_sound [OF d']
  have prems: "\<forall>p \<in> set (dPremises d') \<union> set (dPremises d). plain_pat p"
    using inst inst' assms(3) by (auto simp: rule_instance_def)
  have "d' = d"
    by (rule derivation_key_inject [OF instance_plain [OF inst' assms(1,3,2)]
          instance_plain [OF inst assms(1,3,2)] prems key])
  with d' show ?thesis by simp
qed

section \<open>The properties of the evaluators\<close>

definition ex_edges :: "Edge list" where
  "ex_edges = [mk_edge ''b'' ''isa'' ''c'', mk_edge ''a'' ''isa'' ''b'']"

definition ex_rule :: Rule where
  "ex_rule = \<lparr>rName = ''isa-transitive'',
     rIf = [mk_pat ''?x'' ''isa'' ''?y'', mk_pat ''?y'' ''isa'' ''?z''],
     rThen = mk_pat ''?x'' ''isa'' ''?z''\<rparr>"

lemma ex_derivations:
  "EvaluateRuleDerivations ex_rule ex_edges 1000 =
     [\<lparr>dThen = mk_pat ''a'' ''isa'' ''c'',
       dPremises = [mk_pat ''a'' ''isa'' ''b'', mk_pat ''b'' ''isa'' ''c'']\<rparr>]"
  by code_simp

lemma ex_rule_safe: "safe_rule ex_rule"
  by code_simp

lemma ex_plain: "\<forall>q \<in> edge_pats ex_edges. plain_pat q" "plain_pat (rThen ex_rule)"
  by code_simp+

text \<open>
  the evaluator never invents a fact. Every derivation it returns is a ground instance of the
  rule: one substitution turns the premises of the rule into the premises of the derivation, each of
  which is an edge of the graph, and the conclusion of the rule into the derived atom.
\<close>

theorem derivations_sound:
  "d \<in> set (EvaluateRuleDerivations rule edges mx) \<Longrightarrow>
    rule_instance rule (edge_pats edges) (dPremises d) (dThen d)"
  by (rule EvaluateRuleDerivations_sound)

theorem derivations_sound_witness:
  "rule_instance ex_rule (edge_pats ex_edges)
     [mk_pat ''a'' ''isa'' ''b'', mk_pat ''b'' ''isa'' ''c''] (mk_pat ''a'' ''isa'' ''c'')"
  using derivations_sound [of _ ex_rule ex_edges 1000] by (simp add: ex_derivations)

text \<open>
  C23: below the limit the evaluator is exact. For a rule whose conclusion has only variables of its
  premises, and where no string holds a separator of the keys, the derivations returned are all the
  ground instances of the rule over the edges, and nothing else.
\<close>

theorem derivations_exact:
  assumes "safe_rule rule" and "plain_pat (rThen rule)" and "\<forall>q \<in> edge_pats edges. plain_pat q"
    and "int (length (EvaluateRuleDerivations rule edges mx)) < mx"
  shows "set (EvaluateRuleDerivations rule edges mx) =
    {d. rule_instance rule (edge_pats edges) (dPremises d) (dThen d)}"
  using derivations_complete [OF assms] EvaluateRuleDerivations_sound by blast

theorem derivations_exact_witness:
  "{d. rule_instance ex_rule (edge_pats ex_edges) (dPremises d) (dThen d)} =
     {\<lparr>dThen = mk_pat ''a'' ''isa'' ''c'',
       dPremises = [mk_pat ''a'' ''isa'' ''b'', mk_pat ''b'' ''isa'' ''c'']\<rparr>}"
  using derivations_exact [OF ex_rule_safe ex_plain(2,1), of 1000] by (simp add: ex_derivations)

text \<open>
  C24: the indexed evaluator with the index built from the same edges returns what the plain one
  returns, derivation for derivation and at every limit, also for predicates that are variables and
  for the literal question mark.
\<close>

theorem indexed_equivalent:
  "EvaluateRuleDerivationsIndexed rule edges (BuildPredicateIndex edges) mx =
     EvaluateRuleDerivations rule edges mx"
  by (rule EvaluateRuleDerivationsIndexed_eq)

text \<open>
  \<open>EvaluateRule\<close>, which does not de-duplicate, returns below its limit exactly the conclusions of
  the instances of a safe rule, with no condition on the strings.
\<close>

theorem evaluate_rule_exact:
  assumes "safe_rule rule" and "int (length (EvaluateRule rule edges mx)) < mx"
  shows "set (EvaluateRule rule edges mx) = {t. \<exists>prems. rule_instance rule (edge_pats edges) prems t}"
proof -
  let ?views = "edgesToView edges"
  have mx: "0 < mx"
    using assms(2) by linarith
  have "int (length (take (nat mx) (conclusions rule ?views))) < mx"
    using assms(2) unfolding EvaluateRule_conclusions [OF mx] length_sort_slice .
  then have "take (nat mx) (conclusions rule ?views) = conclusions rule ?views" by auto
  with mx have "set (EvaluateRule rule edges mx) = set (conclusions rule ?views)"
    by (simp add: EvaluateRule_conclusions)
  also have "\<dots> = dThen ` set (groundings rule (\<lambda>_ _. ?views))"
  proof (intro set_eqI iffI)
    fix t
    assume "t \<in> set (conclusions rule ?views)"
    then obtain b where b: "b \<in> set (solutions (\<lambda>_ _. ?views) (rIf rule) Map.empty)"
        and t: "Apply b (rThen rule) = Some t"
      by (auto simp: conclusions_def set_map_filter)
    obtain gps where "map (Apply b) (rIf rule) = map Some gps"
      using solutions_sound [OF b] map_Some_all by metis
    with t have "ground_derivation rule b = Some \<lparr>dThen = t, dPremises = gps\<rparr>"
      by (simp add: ground_derivation_Some)
    with b show "t \<in> dThen ` set (groundings rule (\<lambda>_ _. ?views))"
      by (force simp: groundings_def set_map_filter)
  qed (auto simp: groundings_def conclusions_def set_map_filter ground_derivation_Some)
  also have "\<dots> = {t. \<exists>prems. rule_instance rule (edge_pats edges) prems t}"
  proof (intro set_eqI iffI)
    fix t
    assume "t \<in> dThen ` set (groundings rule (\<lambda>_ _. ?views))"
    then show "t \<in> {t. \<exists>prems. rule_instance rule (edge_pats edges) prems t}"
      using groundings_edges_sound by blast
  next
    fix t
    assume "t \<in> {t. \<exists>prems. rule_instance rule (edge_pats edges) prems t}"
    then obtain prems where "rule_instance rule (edge_pats edges) prems t" by blast
    then have "\<lparr>dThen = t, dPremises = prems\<rparr> \<in> set (groundings rule (\<lambda>_ _. ?views))"
      by (intro groundings_edges_complete assms(1))
    then show "t \<in> dThen ` set (groundings rule (\<lambda>_ _. ?views))"
      by (rule rev_image_eqI) simp
  qed
  finally show ?thesis .
qed

theorem evaluate_rule_exact_witness:
  "{t. \<exists>prems. rule_instance ex_rule (edge_pats ex_edges) prems t} = {mk_pat ''a'' ''isa'' ''c''}"
proof -
  have "EvaluateRule ex_rule ex_edges 100 = [mk_pat ''a'' ''isa'' ''c'']"
    by code_simp
  then show ?thesis
    using evaluate_rule_exact [OF ex_rule_safe, of ex_edges 100] by simp
qed

text \<open>
  the evaluators return at most as many derivations as the limit allows, in strictly ascending
  order (so none twice), and the result depends on the edges as a multiset only, not on the order
  in which they are listed.
\<close>

theorem derivations_bounded_sorted:
  "length (EvaluateRuleDerivations rule edges mx) \<le> nat mx \<and>
    sorted_wrt derivation_less (EvaluateRuleDerivations rule edges mx) \<and>
    (mset edges = mset edges' \<longrightarrow>
       EvaluateRuleDerivations rule edges mx = EvaluateRuleDerivations rule edges' mx)"
proof (intro conjI impI)
  have "distinct (EvaluateRuleDerivations rule edges mx)"
    using EvaluateRuleDerivations_keys [of rule edges mx] by (simp add: distinct_map)
  then show "sorted_wrt derivation_less (EvaluateRuleDerivations rule edges mx)"
    by (cases "0 < mx")
      (simp_all add: EvaluateRuleDerivations_groundings derivation_sort.sort_slice_strict,
        simp add: EvaluateRuleDerivations_def)
next
  assume "mset edges = mset edges'"
  then have "edgesToView edges = edgesToView edges'"
    unfolding edgesToView_def by (intro view_sort.sort_slice_det) simp
  then show "EvaluateRuleDerivations rule edges mx = EvaluateRuleDerivations rule edges' mx"
    by (simp add: EvaluateRuleDerivations_def)
qed (rule EvaluateRuleDerivations_length)

theorem derivations_bounded_sorted_witness:
  "EvaluateRuleDerivations ex_rule ex_edges 7 = EvaluateRuleDerivations ex_rule (rev ex_edges) 7"
  using derivations_bounded_sorted [of ex_rule ex_edges 7 "rev ex_edges"] by simp

definition ex_copy :: "string \<Rightarrow> Rule" where
  "ex_copy z = \<lparr>rName = ''copy'', rIf = [mk_pat ''?x'' ''?p'' ''?y''], rThen = mk_pat ''?x'' ''?p'' z\<rparr>"

lemma copy_instance:
  assumes "\<not> isVar z"
  shows "rule_instance (ex_copy z) E prems t \<longleftrightarrow> (\<exists>q \<in> E. prems = [q] \<and> t = mk_pat (pFrom q) (pPred q) z)"
proof
  assume "rule_instance (ex_copy z) E prems t"
  then obtain \<sigma> q where "Apply \<sigma> (mk_pat ''?x'' ''?p'' ''?y'') = Some q" "prems = [q]" "q \<in> E"
      "Apply \<sigma> (mk_pat ''?x'' ''?p'' z) = Some t"
    by (auto simp: rule_instance_def ex_copy_def)
  then show "\<exists>q \<in> E. prems = [q] \<and> t = mk_pat (pFrom q) (pPred q) z"
    using assms by (cases t) (auto simp: Apply_Some_iff apply_field_def isVar_def)
next
  assume "\<exists>q \<in> E. prems = [q] \<and> t = mk_pat (pFrom q) (pPred q) z"
  then obtain q where q: "q \<in> E" "prems = [q]" "t = mk_pat (pFrom q) (pPred q) z" by blast
  show "rule_instance (ex_copy z) E prems t"
    unfolding rule_instance_def
    by (rule exI [of _ "[''?x'' \<mapsto> pFrom q, ''?p'' \<mapsto> pPred q, ''?y'' \<mapsto> pTo q]"])
      (use q assms in \<open>auto simp: ex_copy_def Apply_Some_iff apply_field_def isVar_def\<close>)
qed

text \<open>
  C36: the keys of the de-duplication collide, and a collision loses a fact. Whatever the rule, the edges
  and the limit, no two derivations that are returned have the same key. Derivations whose strings hold
  no separator never share a key; those below always do: over the edges \<open>(x|y, p, w)\<close> and \<open>(x, y|p, w)\<close>
  the rule has two instances with different conclusions and one key, so that one of the two is never
  derived, at any limit.
\<close>

theorem key_collision_drops_fact:
  fixes x y p w z :: string
  assumes "\<not> isVar z" and "0 < mx"
  defines "edges \<equiv> [mk_edge (x @ ''|'' @ y) p w, mk_edge x (y @ ''|'' @ p) w]"
  defines "left \<equiv> \<lparr>dThen = mk_pat (x @ ''|'' @ y) p z, dPremises = [mk_pat (x @ ''|'' @ y) p w]\<rparr>"
  defines "right \<equiv> \<lparr>dThen = mk_pat x (y @ ''|'' @ p) z, dPremises = [mk_pat x (y @ ''|'' @ p) w]\<rparr>"
  shows "inj_on derivation_key (set (EvaluateRuleDerivations r es n)) \<and>
    (plain_pat (dThen d) \<and> plain_pat (dThen d') \<and> (\<forall>q \<in> set (dPremises d) \<union> set (dPremises d'). plain_pat q) \<and>
     derivation_key d = derivation_key d' \<longrightarrow> d = d') \<and>
    {d. rule_instance (ex_copy z) (edge_pats edges) (dPremises d) (dThen d)} = {left, right} \<and>
    dThen left \<noteq> dThen right \<and> derivation_key left = derivation_key right \<and>
    (EvaluateRuleDerivations (ex_copy z) edges mx = [left] \<or> EvaluateRuleDerivations (ex_copy z) edges mx = [right])"
proof -
  let ?ds = "EvaluateRuleDerivations (ex_copy z) edges mx"
  have one_key: "inj_on derivation_key (set (EvaluateRuleDerivations r es n))" for r es n
    using EvaluateRuleDerivations_keys by (simp add: distinct_map)
  have "edge_pats edges = {mk_pat (x @ ''|'' @ y) p w, mk_pat x (y @ ''|'' @ p) w}"
    by (simp add: edges_def edge_pats_def edge_pat_def)
  then have "rule_instance (ex_copy z) (edge_pats edges) (dPremises d) (dThen d) \<longleftrightarrow> d = left \<or> d = right" for d
    unfolding copy_instance [OF assms(1)] left_def right_def by (cases d) auto
  then have insts: "{d. rule_instance (ex_copy z) (edge_pats edges) (dPremises d) (dThen d)} = {left, right}" by blast
  have key: "derivation_key left = derivation_key right"
    by (simp add: left_def right_def derivation_key_def bar_join_def)
  have "safe_rule (ex_copy z)"
    using assms(1) by (simp add: safe_rule_def ex_copy_def pat_vars_def isVar_def)
  then have "d \<in> set (groundings (ex_copy z) (\<lambda>_ _. edgesToView edges)) \<longleftrightarrow> d \<in> {left, right}" for d
    using groundings_edges_sound [of d "ex_copy z" edges]
      groundings_edges_complete [of "ex_copy z" edges "dPremises d" "dThen d"]
    unfolding insts [symmetric] by (cases d) auto
  then have "set (groundings (ex_copy z) (\<lambda>_ _. edgesToView edges)) = {left, right}" by blast
  then have "length (first_by_key {} (groundings (ex_copy z) (\<lambda>_ _. edgesToView edges))) = 1"
    using first_by_key_keys [of "{}" "groundings (ex_copy z) (\<lambda>_ _. edgesToView edges)"] key
      distinct_card [of "map derivation_key (first_by_key {} (groundings (ex_copy z) (\<lambda>_ _. edgesToView edges)))"]
    by simp
  then have "length ?ds = 1"
    using assms(2) by (simp add: EvaluateRuleDerivations_groundings)
  then obtain d1 where "?ds = [d1]"
    by (auto simp: length_Suc_conv)
  moreover have "d1 \<in> {left, right}"
    using EvaluateRuleDerivations_sound [of d1 "ex_copy z" edges mx] insts \<open>?ds = [d1]\<close> by auto
  moreover have "dThen left \<noteq> dThen right"
    by (simp add: left_def right_def)
  ultimately show ?thesis
    using one_key insts key derivation_key_inject [of d d'] by blast
qed

theorem key_collision_drops_fact_witness:
  "derivation_key \<lparr>dThen = mk_pat ''a|b'' ''c'' ''z'', dPremises = [mk_pat ''a|b'' ''c'' ''y'']\<rparr> =
     derivation_key \<lparr>dThen = mk_pat ''a'' ''b|c'' ''z'', dPremises = [mk_pat ''a'' ''b|c'' ''y'']\<rparr> \<and>
   length (EvaluateRuleDerivations (ex_copy ''z'') [mk_edge ''a|b'' ''c'' ''y'', mk_edge ''a'' ''b|c'' ''y''] 1000) = 1"
proof -
  have "\<not> isVar ''z''" and "(0 :: int) < 1000" by (simp_all add: isVar_def)
  from key_collision_drops_fact [OF this, where r = ex_rule and es = "[]" and n = 0 
      and d = "\<lparr>dThen = rThen ex_rule, dPremises = []\<rparr>" and d' = "\<lparr>dThen = rThen ex_rule, dPremises = []\<rparr>"
      and x = "''a''" and y = "''b''" and p = "''c''" and w = "''y''"]
  show ?thesis by (elim conjE disjE) simp_all
qed

end
