(* ===== verification/Bytes.thy ===== *)
theory Bytes
  imports Prelude
begin

text \<open>
  The parts of Go's standard library that the encoders use: strings as byte slices, little-endian
  integers (\<open>encoding/binary\<close>), the IEEE checksum (\<open>hash/crc32\<close>), and the three ways of reading.
  \<open>io.ReadFull\<close> (which \<open>binary.Read\<close> uses) tells an empty reader from a truncated one and needs no
  input for an empty buffer; \<open>bytes.Reader.Read\<close> returns \<open>io.EOF\<close> at the end of its input, even for an
  empty buffer, and otherwise succeeds, with as many bytes as there are: the rest of the buffer
  keeps the zeros of \<open>make\<close>.
\<close>

named_theorems byte_simps \<open>reading back what was written\<close>

section \<open>Strings\<close>

definition byte_of_char :: "char \<Rightarrow> byte" where
  "byte_of_char c = word_of_nat (of_char c)"

definition char_of_byte :: "byte \<Rightarrow> char" where
  "char_of_byte b = char_of (unat b)"

definition to_bytes :: "string \<Rightarrow> bytes" where
  "to_bytes s = map byte_of_char s"

definition of_bytes :: "bytes \<Rightarrow> string" where
  "of_bytes b = map char_of_byte b"

lemma char_of_byte_of_char [simp]: "char_of_byte (byte_of_char c) = c"
proof -
  have "of_char c < (256 :: nat)" by simp
  then show ?thesis
    by (simp add: char_of_byte_def byte_of_char_def unsigned_of_nat take_bit_nat_def)
qed

lemma byte_of_char_of_byte [simp]: "byte_of_char (char_of_byte b) = b"
proof -
  have "unat b < 256"
    using unsigned_less [of b, where ?'a = nat] by simp
  then show ?thesis
    by (simp add: char_of_byte_def byte_of_char_def of_char_of)
qed

lemma of_to_bytes [byte_simps]: "of_bytes (to_bytes s) = s"
  by (simp add: of_bytes_def to_bytes_def comp_def)

lemma to_of_bytes [byte_simps]: "to_bytes (of_bytes b) = b"
  by (simp add: of_bytes_def to_bytes_def comp_def)

lemma length_to_bytes [simp]: "length (to_bytes s) = length s"
  by (simp add: to_bytes_def)

lemma length_of_bytes [simp]: "length (of_bytes b) = length b"
  by (simp add: of_bytes_def)

section \<open>Little-endian integers\<close>

fun put_le :: "nat \<Rightarrow> 'a::len word \<Rightarrow> bytes" where
  "put_le 0 w = []"
| "put_le (Suc n) w = ucast w # put_le n (drop_bit 8 w)"

fun get_le :: "bytes \<Rightarrow> 'a::len word" where
  "get_le [] = 0"
| "get_le (b # bs) = ucast b OR push_bit 8 (get_le bs)"

lemma length_put_le [simp]: "length (put_le n w) = n"
  by (induction n arbitrary: w) auto

lemma get_put_take: "get_le (put_le n w) = take_bit (8 * n) w"
proof (induction n arbitrary: w)
  case (Suc n)
  have "ucast (ucast w :: byte) OR push_bit 8 (take_bit (8 * n) (drop_bit 8 w)) = take_bit (8 * Suc n) w"
  proof (rule bit_word_eqI)
    fix i
    assume "i < LENGTH('a)"
    then show "bit (ucast (ucast w :: byte) OR push_bit 8 (take_bit (8 * n) (drop_bit 8 w))) i =
        bit (take_bit (8 * Suc n) w) i"
      by (cases "i < 8") (auto simp: bit_simps)
  qed
  then show ?case by (simp add: Suc.IH)
qed simp

lemma get_put_le [byte_simps]: "LENGTH('a) \<le> 8 * n \<Longrightarrow> get_le (put_le n w) = w" for w :: "'a::len word"
  by (simp add: get_put_take take_bit_word_eq_self)

lemma put_le_bits:
  "(\<And>i. i < 8 * n \<Longrightarrow> bit v i = bit w i) \<Longrightarrow> put_le n v = put_le n w" for v w :: "'a::len word"
proof (induction n arbitrary: v w)
  case (Suc n)
  have "ucast v = (ucast w :: byte)"
    by (rule bit_word_eqI) (simp add: bit_simps Suc.prems)
  moreover have "put_le n (drop_bit 8 v) = put_le n (drop_bit 8 w)"
    by (rule Suc.IH) (simp add: bit_simps Suc.prems)
  ultimately show ?case by simp
qed simp

lemma put_get_le:
  "8 * length bs \<le> LENGTH('a) \<Longrightarrow> put_le (length bs) (get_le bs :: 'a::len word) = bs"
proof (induction bs)
  case (Cons b bs)
  let ?w = "ucast b OR push_bit 8 (get_le bs) :: 'a word"
  have "ucast ?w = b"
    using Cons.prems by (intro bit_word_eqI) (auto simp: bit_simps)
  moreover have "put_le (length bs) (drop_bit 8 ?w) = put_le (length bs) (get_le bs :: 'a word)"
    using Cons.prems by (intro put_le_bits) (auto simp: bit_simps dest: bit_imp_le_length)
  ultimately show ?case
    using Cons by simp
qed simp

text \<open>A length field holds the length where the length fits its width.\<close>

lemma unat_length: "n < 2 ^ LENGTH('a) \<Longrightarrow> unat (word_of_nat n :: 'a::len word) = n"
  by (simp add: unsigned_of_nat take_bit_nat_def)

section \<open>The checksum\<close>

text \<open>\<open>crc32.ChecksumIEEE\<close>: the reflected polynomial 0xEDB88320, bit by bit.\<close>

definition crc32_bit :: "uint32 \<Rightarrow> uint32" where
  "crc32_bit c = (if bit c 0 then drop_bit 1 c XOR 0xEDB88320 else drop_bit 1 c)"

definition crc32_byte :: "byte \<Rightarrow> uint32 \<Rightarrow> uint32" where
  "crc32_byte b c = (crc32_bit ^^ 8) (c XOR ucast b)"

definition ChecksumIEEE :: "bytes \<Rightarrow> uint32" where
  "ChecksumIEEE p = NOT (fold crc32_byte p (NOT 0))"

section \<open>Readers\<close>

text \<open>A result that is an error or a value, and the rest of the input.\<close>

definition and_then :: "go_error + 'a \<Rightarrow> ('a \<Rightarrow> go_error + 'b) \<Rightarrow> go_error + 'b" where
  "and_then r f = (case r of Inl e \<Rightarrow> Inl e | Inr x \<Rightarrow> f x)"

lemma and_then_simps [simp]: "and_then (Inl e) f = Inl e" "and_then (Inr x) f = f x"
  by (simp_all add: and_then_def)

lemma and_then_Inr: "and_then r f = Inr y \<longleftrightarrow> (\<exists>x. r = Inr x \<and> f x = Inr y)"
  by (cases r) simp_all

definition ReadFull :: "nat \<Rightarrow> bytes \<Rightarrow> go_error + bytes \<times> bytes" where
  "ReadFull n r =
     (if n = 0 then Inr ([], r)
      else if r = [] then Inl ErrEOF
      else if length r < n then Inl ErrUnexpectedEOF
      else Inr (take n r, drop n r))"

definition reader_Read :: "nat \<Rightarrow> bytes \<Rightarrow> go_error + bytes \<times> bytes" where
  "reader_Read n r =
     (if r = [] then Inl ErrEOF
      else Inr (take n r @ replicate (n - length r) 0, drop n r))"

definition ReadByte :: "bytes \<Rightarrow> go_error + byte \<times> bytes" where
  "ReadByte r = (case r of [] \<Rightarrow> Inl ErrEOF | b # bs \<Rightarrow> Inr (b, bs))"

definition read_uint16 :: "bytes \<Rightarrow> go_error + uint16 \<times> bytes" where
  "read_uint16 r = and_then (ReadFull 2 r) (\<lambda>(b, r'). Inr (get_le b, r'))"

definition read_int64 :: "bytes \<Rightarrow> go_error + int64 \<times> bytes" where
  "read_int64 r = and_then (ReadFull 8 r) (\<lambda>(b, r'). Inr (get_le b, r'))"

lemma ReadFull_append [byte_simps]: "length b = n \<Longrightarrow> ReadFull n (b @ r) = Inr (b, r)"
  by (auto simp: ReadFull_def)

lemma reader_Read_append [byte_simps]:
  "length b = n \<Longrightarrow> reader_Read n (b @ r) = (if b = [] \<and> r = [] then Inl ErrEOF else Inr (b, r))"
  by (auto simp: reader_Read_def)

lemma read_uint16_append [byte_simps]: "read_uint16 (put_le 2 w @ r) = Inr (w, r)"
  by (simp add: read_uint16_def ReadFull_append get_put_le)

lemma read_int64_append [byte_simps]: "read_int64 (put_le 8 w @ r) = Inr (w, r)"
  by (simp add: read_int64_def ReadFull_append get_put_le)

lemma ReadFull_Inr: "ReadFull n r = Inr (b, r') \<longleftrightarrow> length b = n \<and> r = b @ r'"
  by (auto simp: ReadFull_def split: if_splits)

lemma read_uint16_Inr: "read_uint16 r = Inr (w, r') \<longleftrightarrow> r = put_le 2 w @ r'"
proof
  assume "read_uint16 r = Inr (w, r')"
  then obtain b where b: "length b = 2" "r = b @ r'" "w = get_le b"
    by (auto simp: read_uint16_def and_then_Inr ReadFull_Inr)
  then have "put_le 2 w = b"
    using put_get_le [of b, where ?'a = 16] by simp
  with b show "r = put_le 2 w @ r'" by simp
qed (simp add: read_uint16_append)

lemma read_int64_Inr: "read_int64 r = Inr (w, r') \<longleftrightarrow> r = put_le 8 w @ r'"
proof
  assume "read_int64 r = Inr (w, r')"
  then obtain b where b: "length b = 8" "r = b @ r'" "w = get_le b"
    by (auto simp: read_int64_def and_then_Inr ReadFull_Inr)
  then have "put_le 8 w = b"
    using put_get_le [of b, where ?'a = 64] by simp
  with b show "r = put_le 8 w @ r'" by simp
qed (simp add: read_int64_append)

lemma ReadByte_Inr: "ReadByte r = Inr (b, r') \<longleftrightarrow> r = b # r'"
  by (auto simp: ReadByte_def split: list.splits)

lemma ReadByte_Cons [byte_simps]: "ReadByte (b # r) = Inr (b, r)"
  by (simp add: ReadByte_def)

text \<open>A read that leaves input behind was not short.\<close>

lemma reader_Read_Inr:
  "reader_Read n r = Inr (b, r') \<Longrightarrow> r' \<noteq> [] \<Longrightarrow> length b = n \<and> r = b @ r'"
  by (auto simp: reader_Read_def split: if_splits)

end
