(* ===== verification/Belief_Store.thy ===== *)
theory Belief_Store
  imports KG
begin

text \<open>
  Package \<open>belief\<close>: the atoms and beliefs of \<open>types.go\<close> and the store of \<open>store.go\<close>. The store keeps,
  for each atom, one slice of beliefs per polarity, sorted by time and source, the resolutions, and
  a counter. A polarity is a byte: only 0 and 1 pass the checks of \<open>Add\<close> and \<open>SetResolution\<close>, but the
  log decoder hands over any byte. \<open>store_ok\<close> is the invariant of the store.
\<close>

named_theorems store_simps \<open>what the operations of the belief store return\<close>

section \<open>Types\<close>

type_synonym Polarity = byte

definition PolarityNegative :: Polarity where
  "PolarityNegative = 0"

definition PolarityPositive :: Polarity where
  "PolarityPositive = 1"

lemma polarity_distinct [simp]:
  "PolarityNegative \<noteq> PolarityPositive" "PolarityPositive \<noteq> PolarityNegative"
  by (simp_all add: PolarityNegative_def PolarityPositive_def)

record Atom =
  aFrom :: nodeID
  aPred :: string
  aTo :: nodeID

record Belief =
  bAtom :: Atom
  bPolarity :: Polarity
  bSource :: string
  bUnixNano :: int64

record Resolution =
  rAtom :: Atom
  rPolarity :: Polarity
  rSource :: string
  rUnixNano :: int64

record Contradiction =
  cAtom :: Atom
  cExisting :: Belief
  cIncoming :: Belief
  cReason :: string
  cUnixNano :: int64

abbreviation mk_atom :: "nodeID \<Rightarrow> string \<Rightarrow> nodeID \<Rightarrow> Atom" where
  "mk_atom a p b \<equiv> \<lparr>aFrom = a, aPred = p, aTo = b\<rparr>"

definition atom_triple :: "Atom \<Rightarrow> triple" where
  "atom_triple a = (aFrom a, aPred a, aTo a)"

lemma atom_triple_mk [simp]: "atom_triple (mk_atom a p b) = (a, p, b)"
  by (simp add: atom_triple_def)

lemma inj_atom_triple: "inj atom_triple"
  by (rule injI) (simp add: atom_triple_def)

instantiation Atom_ext :: (linorder) linorder
begin

definition less_eq_Atom_ext :: "'a Atom_scheme \<Rightarrow> 'a Atom_scheme \<Rightarrow> bool" where
  "less_eq_Atom_ext e f \<longleftrightarrow>
     (aFrom e, aPred e, aTo e, Atom.more e) \<le> (aFrom f, aPred f, aTo f, Atom.more f)"

definition less_Atom_ext :: "'a Atom_scheme \<Rightarrow> 'a Atom_scheme \<Rightarrow> bool" where
  "less_Atom_ext e f \<longleftrightarrow>
     (aFrom e, aPred e, aTo e, Atom.more e) < (aFrom f, aPred f, aTo f, Atom.more f)"

instance
  by standard (auto simp: less_eq_Atom_ext_def less_Atom_ext_def)

end

lemma less_Atom_iff: "a < b \<longleftrightarrow> atom_triple a < atom_triple b" for a b :: Atom
  by (auto simp: less_Atom_ext_def atom_triple_def)

lemma belief_eqI:
  "bAtom x = bAtom y \<Longrightarrow> bPolarity x = bPolarity y \<Longrightarrow> bSource x = bSource y \<Longrightarrow>
    bUnixNano x = bUnixNano y \<Longrightarrow> x = y" for x y :: Belief
  by simp

section \<open>The comparators\<close>

definition belief_less :: "Belief \<Rightarrow> Belief \<Rightarrow> bool" where
  "belief_less x y =
     (if bUnixNano x \<noteq> bUnixNano y then sint (bUnixNano x) < sint (bUnixNano y)
      else bSource x < bSource y)"

definition atom_less :: "Atom \<Rightarrow> Atom \<Rightarrow> bool" where
  "atom_less x y =
     (if aFrom x \<noteq> aFrom y then aFrom x < aFrom y
      else if aPred x \<noteq> aPred y then aPred x < aPred y
      else aTo x < aTo y)"

definition belief_stamp :: "Belief \<Rightarrow> int \<times> string" where
  "belief_stamp b = (sint (bUnixNano b), bSource b)"

interpretation belief_sort: keyed_less belief_less belief_stamp
  by unfold_locales
    (auto simp: belief_less_def belief_stamp_def order.strict_iff_order dest: signed_word_eqI)

interpretation atom_sort: total_less atom_less atom_triple
  by unfold_locales (auto simp: atom_less_def atom_triple_def inj_on_def)

interpretation resolution_sort: keyed_less "\<lambda>x y. atom_less (rAtom x) (rAtom y)" "\<lambda>r. atom_triple (rAtom r)"
  by unfold_locales (simp add: atom_sort.less_key)

section \<open>The store\<close>

record Store =
  beliefsByAtom :: "(Atom, (Polarity, Belief list) gomap) gomap"
  resolutionByAtom :: "(Atom, Resolution) gomap"
  s_count :: int

definition NewStore :: Store where
  "NewStore = \<lparr>beliefsByAtom = [], resolutionByAtom = [], s_count = 0\<rparr>"

definition Count :: "Store \<Rightarrow> int" where
  "Count s = s_count s"

text \<open>The checks that \<open>Add\<close> and \<open>SetResolution\<close> share, in their order.\<close>

definition check_fields :: "Atom \<Rightarrow> string \<Rightarrow> Polarity \<Rightarrow> go_error option" where
  "check_fields a src pol =
     (if aFrom a = [] \<or> aTo a = [] then Some ErrNodeEmpty
      else if aPred a = [] then Some ErrPredicateEmpty
      else if src = [] then Some ErrSourceEmpty
      else if pol \<noteq> PolarityNegative \<and> pol \<noteq> PolarityPositive then Some ErrInvalidPolarity
      else None)"

definition sortLocked :: "Atom \<Rightarrow> Store \<Rightarrow> Store" where
  "sortLocked a s =
     s\<lparr>beliefsByAtom :=
         go_put a (map (\<lambda>(pol, bs). (pol, sort_slice belief_less bs)) (go_index (beliefsByAtom s) a))
           (beliefsByAtom s)\<rparr>"

definition resolution_belief :: "Resolution \<Rightarrow> Belief" where
  "resolution_belief r =
     \<lparr>bAtom = rAtom r, bPolarity = rPolarity r, bSource = rSource r, bUnixNano = rUnixNano r\<rparr>"

text \<open>
  \<open>byPol\<close> is a reference into the store, so the store that \<open>Add\<close> leaves holds the created map even
  where nothing is appended; the append, the counter and the sort are the same three lines in each
  of the three branches.
\<close>

definition append_belief :: "Belief \<Rightarrow> Store \<Rightarrow> Store" where
  "append_belief b s =
     (let byPol = go_index (beliefsByAtom s) (bAtom b);
          byPol' = go_put (bPolarity b) (go_index byPol (bPolarity b) @ [b]) byPol
      in sortLocked (bAtom b)
           (s\<lparr>beliefsByAtom := go_put (bAtom b) byPol' (beliefsByAtom s), s_count := s_count s + 1\<rparr>))"

definition opposite :: "Polarity \<Rightarrow> Polarity" where
  "opposite pol = (if pol = PolarityPositive then PolarityNegative else PolarityPositive)"

definition Add :: "Belief \<Rightarrow> Store \<Rightarrow> (go_error + Contradiction option) \<times> Store" where
  "Add b s =
     (case check_fields (bAtom b) (bSource b) (bPolarity b) of
        Some e \<Rightarrow> (Inl e, s)
      | None \<Rightarrow>
          let s1 = (if go_get (beliefsByAtom s) (bAtom b) = None
                    then s\<lparr>beliefsByAtom := go_put (bAtom b) [] (beliefsByAtom s)\<rparr> else s);
              byPol = go_index (beliefsByAtom s1) (bAtom b)
          in if \<exists>x \<in> set (go_index byPol (bPolarity b)).
                  bSource x = bSource b \<and> bUnixNano x = bUnixNano b
             then (Inr None, s1)
             else
               case go_get (resolutionByAtom s1) (bAtom b) of
                 Some res \<Rightarrow>
                   (if bPolarity b \<noteq> rPolarity res
                    then (Inr (Some \<lparr>cAtom = bAtom b, cExisting = resolution_belief res,
                            cIncoming = b, cReason = ''conflicts with resolution'',
                            cUnixNano = bUnixNano b\<rparr>), append_belief b s1)
                    else (Inr None, append_belief b s1))
               | None \<Rightarrow>
                   (case go_index byPol (opposite (bPolarity b)) of
                      existing # _ \<Rightarrow>
                        (Inr (Some \<lparr>cAtom = bAtom b, cExisting = existing, cIncoming = b,
                           cReason = ''opposite polarity for same atom'',
                           cUnixNano = bUnixNano b\<rparr>), append_belief b s1)
                    | [] \<Rightarrow> (Inr None, append_belief b s1)))"

definition SetResolution :: "Resolution \<Rightarrow> Store \<Rightarrow> go_error option \<times> Store" where
  "SetResolution r s =
     (case check_fields (rAtom r) (rSource r) (rPolarity r) of
        Some e \<Rightarrow> (Some e, s)
      | None \<Rightarrow> (None, s\<lparr>resolutionByAtom := go_put (rAtom r) r (resolutionByAtom s)\<rparr>))"

definition Resolution_of :: "Atom \<Rightarrow> Store \<Rightarrow> Resolution option" where
  "Resolution_of a s = go_get (resolutionByAtom s) a"

definition Snapshot :: "Atom \<Rightarrow> Store \<Rightarrow> Belief list" where
  "Snapshot a s =
     (case go_get (beliefsByAtom s) a of
        None \<Rightarrow> []
      | Some byPol \<Rightarrow> go_index byPol PolarityNegative @ go_index byPol PolarityPositive)"

definition Atoms :: "Store \<Rightarrow> Atom list" where
  "Atoms s = sort_slice atom_less (map fst (beliefsByAtom s))"

definition Resolutions :: "Store \<Rightarrow> Resolution list" where
  "Resolutions s =
     sort_slice (\<lambda>x y. atom_less (rAtom x) (rAtom y)) (map snd (resolutionByAtom s))"


section \<open>The invariant and the abstraction\<close>

text \<open>
  \<open>slot s a pol\<close> is the slice \<open>s.beliefsByAtom[a][pol]\<close>. A store stands for the set of the beliefs in
  its slots: two beliefs that the de-duplication of \<open>Add\<close> identifies are equal, since atom, polarity,
  source and time are all a belief has.
\<close>

definition slot :: "Store \<Rightarrow> Atom \<Rightarrow> Polarity \<Rightarrow> Belief list" where
  "slot s a pol = go_index (go_index (beliefsByAtom s) a) pol"

definition store_beliefs :: "Store \<Rightarrow> Belief set" where
  "store_beliefs s = {b. b \<in> set (slot s (bAtom b) (bPolarity b))}"

definition valid_belief :: "Belief \<Rightarrow> bool" where
  "valid_belief b \<longleftrightarrow> check_fields (bAtom b) (bSource b) (bPolarity b) = None"

definition valid_resolution :: "Resolution \<Rightarrow> bool" where
  "valid_resolution r \<longleftrightarrow> check_fields (rAtom r) (rSource r) (rPolarity r) = None"

definition slots_ok :: "Store \<Rightarrow> bool" where
  "slots_ok s \<longleftrightarrow>
     (\<forall>a pol. sorted_wrt belief_less (slot s a pol)) \<and>
     (\<forall>a pol. \<forall>b \<in> set (slot s a pol). bAtom b = a \<and> bPolarity b = pol \<and> valid_belief b)"

definition resolutions_ok :: "Store \<Rightarrow> bool" where
  "resolutions_ok s \<longleftrightarrow>
     go_keys_distinct (resolutionByAtom s) \<and>
     (\<forall>(a, r) \<in> set (resolutionByAtom s). rAtom r = a \<and> valid_resolution r)"

definition store_ok :: "Store \<Rightarrow> bool" where
  "store_ok s \<longleftrightarrow>
     go_keys_distinct (beliefsByAtom s) \<and>
     (\<forall>(a, byPol) \<in> set (beliefsByAtom s). go_keys_distinct byPol) \<and>
     (\<forall>a \<in> fst ` set (beliefsByAtom s). \<exists>pol. slot s a pol \<noteq> []) \<and>
     slots_ok s \<and> resolutions_ok s \<and>
     s_count s = int (card (store_beliefs s))"

lemma slot_New [simp]: "slot NewStore a pol = []"
  by (simp add: slot_def NewStore_def go_index_def)

lemma store_beliefs_New [simp]: "store_beliefs NewStore = {}"
  by (simp add: store_beliefs_def)

lemma store_ok_New [simp]: "store_ok NewStore"
  by (simp add: store_ok_def slots_ok_def resolutions_ok_def) (simp add: NewStore_def)

lemma slot_mem: "slots_ok s \<Longrightarrow> b \<in> set (slot s a pol) \<longleftrightarrow> b \<in> store_beliefs s \<and> bAtom b = a \<and> bPolarity b = pol"
  by (auto simp: slots_ok_def store_beliefs_def)

lemma store_beliefs_valid: "slots_ok s \<Longrightarrow> b \<in> store_beliefs s \<Longrightarrow> valid_belief b"
  by (auto simp: slots_ok_def store_beliefs_def)

lemma valid_polarity: "valid_belief b \<Longrightarrow> bPolarity b = PolarityNegative \<or> bPolarity b = PolarityPositive"
  by (auto simp: valid_belief_def check_fields_def split: if_splits)

text \<open>A slot is the one sorted listing of its beliefs.\<close>

lemma inj_on_stamp:
  assumes "\<forall>b \<in> B. bAtom b = a \<and> bPolarity b = pol"
  shows "inj_on belief_stamp B"
proof (rule inj_onI)
  fix x y
  assume "x \<in> B" and "y \<in> B" and "belief_stamp x = belief_stamp y"
  then show "x = y"
    using assms by (intro belief_eqI) (auto simp: belief_stamp_def intro: signed_word_eqI)
qed

lemma slot_unique:
  assumes "slots_ok s" and "distinct bs" and "set bs = set (slot s a pol)"
  shows "sort_slice belief_less bs = slot s a pol"
proof (rule belief_sort.sort_slice_unique_set)
  show "sorted_wrt belief_less (slot s a pol)"
    using assms(1) by (simp add: slots_ok_def)
  show "inj_on belief_stamp (set bs)"
    using assms(1,3) by (intro inj_on_stamp [where a = a and pol = pol]) (auto simp: slots_ok_def)
qed (use assms in simp_all)

lemma distinct_slot: "slots_ok s \<Longrightarrow> distinct (slot s a pol)"
proof -
  assume "slots_ok s"
  then have "sorted_wrt belief_less (slot s a pol)"
    by (simp add: slots_ok_def)
  then have "sorted_wrt (\<noteq>) (slot s a pol)"
    by (rule sorted_wrt_mono_rel [rotated]) (auto simp: belief_less_def)
  then show ?thesis by (simp add: distinct_conv_nth sorted_wrt_iff_nth_less) (metis linorder_neqE_nat)
qed

lemma slot_det:
  assumes "slots_ok s" and "slots_ok s'" and "store_beliefs s = store_beliefs s'"
  shows "slot s a pol = slot s' a pol"
proof -
  have "set (slot s' a pol) = set (slot s a pol)"
    using assms by (auto simp: slot_mem)
  then have "sort_slice belief_less (slot s' a pol) = slot s a pol"
    by (rule slot_unique [OF assms(1) distinct_slot [OF assms(2)]])
  moreover have "sort_slice belief_less (slot s' a pol) = slot s' a pol"
    by (rule slot_unique [OF assms(2) distinct_slot [OF assms(2)] refl])
  ultimately show ?thesis by simp
qed


section \<open>Adding a belief\<close>

definition ensure_atom :: "Atom \<Rightarrow> Store \<Rightarrow> Store" where
  "ensure_atom a s =
     (if go_get (beliefsByAtom s) a = None
      then s\<lparr>beliefsByAtom := go_put a [] (beliefsByAtom s)\<rparr> else s)"

lemma slot_ensure [simp]: "slot (ensure_atom a s) a' pol = slot s a' pol"
  by (auto simp: slot_def ensure_atom_def go_map_simps go_index_def)

lemma ensure_atom_fields [simp]:
  "resolutionByAtom (ensure_atom a s) = resolutionByAtom s" "s_count (ensure_atom a s) = s_count s"
  by (simp_all add: ensure_atom_def)

lemma slots_ok_ensure [simp]: "slots_ok (ensure_atom a s) = slots_ok s"
  by (simp add: slots_ok_def)

lemma append_belief_fields [simp]:
  "resolutionByAtom (append_belief b s) = resolutionByAtom s"
  "s_count (append_belief b s) = s_count s + 1"
  by (simp_all add: append_belief_def sortLocked_def Let_def)

lemma go_index_sorted_slices:
  "go_index (map (\<lambda>(pol, bs). (pol, sort_slice belief_less bs)) m) pol = sort_slice belief_less (go_index m pol)"
  by (rule go_index_map_values) simp

lemma slot_append_belief:
  assumes "slots_ok s"
  shows "slot (append_belief b s) a pol =
    (if a = bAtom b \<and> pol = bPolarity b then sort_slice belief_less (slot s a pol @ [b]) else slot s a pol)"
  using slot_unique [OF assms distinct_slot [OF assms] refl, of a pol]
  by (auto simp: slot_def append_belief_def sortLocked_def Let_def go_map_simps go_index_sorted_slices)

lemma store_beliefs_append:
  "slots_ok s \<Longrightarrow> store_beliefs (append_belief b s) = insert b (store_beliefs s)"
  by (auto simp: store_beliefs_def slot_append_belief)

lemma store_beliefs_ensure [simp]: "store_beliefs (ensure_atom a s) = store_beliefs s"
  by (simp add: store_beliefs_def)

lemma slots_ok_append:
  assumes "slots_ok s" and "valid_belief b" and "b \<notin> store_beliefs s"
  shows "slots_ok (append_belief b s)"
proof -
  let ?new = "slot s (bAtom b) (bPolarity b) @ [b]"
  have "sorted_wrt belief_less (sort_slice belief_less ?new)"
  proof (rule belief_sort.sorted_wrt_sort_slice)
    show "distinct ?new"
      using assms distinct_slot by (simp add: slot_mem)
    show "inj_on belief_stamp (set ?new)"
      using assms by (intro inj_on_stamp [where a = "bAtom b" and pol = "bPolarity b"])
        (auto simp: slots_ok_def)
  qed
  then show ?thesis
    using assms by (auto simp: slots_ok_def slot_append_belief)
qed

lemma finite_store_beliefs [simp]: "finite (store_beliefs s)"
proof (rule finite_subset [OF _ finite_set])
  show "store_beliefs s \<subseteq> set (concat (map (\<lambda>e. concat (map snd (snd e))) (beliefsByAtom s)))"
    by (auto simp: store_beliefs_def slot_def dest!: go_index_mem)
      (metis go_index_mem snd_conv)
qed

text \<open>The report of \<open>Add\<close> on a belief it has not seen.\<close>

definition conflict_of :: "Belief \<Rightarrow> Store \<Rightarrow> Contradiction option" where
  "conflict_of b s =
     (case Resolution_of (bAtom b) s of
        Some r \<Rightarrow>
          (if bPolarity b = rPolarity r then None
           else Some \<lparr>cAtom = bAtom b, cExisting = resolution_belief r, cIncoming = b,
                  cReason = ''conflicts with resolution'', cUnixNano = bUnixNano b\<rparr>)
      | None \<Rightarrow>
          (case slot s (bAtom b) (opposite (bPolarity b)) of
             [] \<Rightarrow> None
           | x # _ \<Rightarrow> Some \<lparr>cAtom = bAtom b, cExisting = x, cIncoming = b,
                  cReason = ''opposite polarity for same atom'', cUnixNano = bUnixNano b\<rparr>))"

lemma dup_iff:
  assumes "slots_ok s" 
  shows "(\<exists>x \<in> set (slot s (bAtom b) (bPolarity b)). bSource x = bSource b \<and> bUnixNano x = bUnixNano b)
    \<longleftrightarrow> b \<in> store_beliefs s"
proof -
  have "x = b" if "x \<in> set (slot s (bAtom b) (bPolarity b))" "bSource x = bSource b" "bUnixNano x = bUnixNano b" for x
    using that assms by (intro belief_eqI) (auto simp: slots_ok_def)
  then show ?thesis by (auto simp: store_beliefs_def)
qed

lemma Add_invalid: "check_fields (bAtom b) (bSource b) (bPolarity b) = Some e \<Longrightarrow> Add b s = (Inl e, s)"
  by (simp add: Add_def)

lemma Add_known:
  assumes "slots_ok s" and "b \<in> store_beliefs s"
  shows "Add b s = (Inr None, s)"
proof -
  have "valid_belief b"
    using assms by (rule store_beliefs_valid)
  moreover have "go_get (beliefsByAtom s) (bAtom b) \<noteq> None"
    using assms(2) by (auto simp: store_beliefs_def slot_def go_index_def split: option.splits)
  ultimately show ?thesis
    using dup_iff [OF assms(1), of b] assms(2)
    by (simp add: Add_def valid_belief_def slot_def Let_def del: not_None_eq)
qed

lemma Add_new:
  assumes "slots_ok s" and "valid_belief b" and "b \<notin> store_beliefs s"
  shows "Add b s = (Inr (conflict_of b s), append_belief b (ensure_atom (bAtom b) s))"
proof -
  define s1 where "s1 = ensure_atom (bAtom b) s"
  have slots: "go_index (go_index (beliefsByAtom s1) (bAtom b)) pol = slot s (bAtom b) pol" for pol
    using slot_ensure [of "bAtom b" s "bAtom b" pol] by (simp add: slot_def s1_def)
  have fresh: "(\<exists>x \<in> set (slot s (bAtom b) (bPolarity b)). bSource x = bSource b \<and> bUnixNano x = bUnixNano b) = False"
    using assms(3) dup_iff [OF assms(1), of b] by blast
  have "Add b s = (case Resolution_of (bAtom b) s of
      Some res \<Rightarrow>
        (if bPolarity b \<noteq> rPolarity res
         then (Inr (Some \<lparr>cAtom = bAtom b, cExisting = resolution_belief res, cIncoming = b,
                 cReason = ''conflicts with resolution'', cUnixNano = bUnixNano b\<rparr>), append_belief b s1)
         else (Inr None, append_belief b s1))
    | None \<Rightarrow>
        (case slot s (bAtom b) (opposite (bPolarity b)) of
           x # _ \<Rightarrow> (Inr (Some \<lparr>cAtom = bAtom b, cExisting = x, cIncoming = b,
               cReason = ''opposite polarity for same atom'', cUnixNano = bUnixNano b\<rparr>), append_belief b s1)
         | [] \<Rightarrow> (Inr None, append_belief b s1)))"
    using assms(2) unfolding Add_def ensure_atom_def [symmetric] s1_def [symmetric] Let_def slots fresh
    by (simp add: valid_belief_def Resolution_of_def s1_def)
  then show ?thesis
    by (auto simp: conflict_of_def s1_def split: option.split list.split)
qed


section \<open>The operations over the abstraction\<close>

lemma Add_result [store_simps]:
  assumes "slots_ok s"
  shows "fst (Add b s) =
    (case check_fields (bAtom b) (bSource b) (bPolarity b) of
       Some e \<Rightarrow> Inl e
     | None \<Rightarrow> Inr (if b \<in> store_beliefs s then None else conflict_of b s))"
  using assms Add_known [OF assms, of b] Add_new [OF assms, of b]
  by (auto simp: Add_invalid valid_belief_def split: option.split)

lemma Add_unchanged:
  assumes "slots_ok s" and "\<not> (valid_belief b \<and> b \<notin> store_beliefs s)"
  shows "snd (Add b s) = s"
proof (cases "valid_belief b")
  case True
  with assms show ?thesis by (simp add: Add_known)
next
  case False
  then obtain e where "check_fields (bAtom b) (bSource b) (bPolarity b) = Some e"
    by (auto simp: valid_belief_def)
  then show ?thesis by (simp add: Add_invalid)
qed

lemma store_beliefs_Add [store_simps]:
  assumes "slots_ok s"
  shows "store_beliefs (snd (Add b s)) =
    (if valid_belief b then insert b (store_beliefs s) else store_beliefs s)"
proof (cases "valid_belief b \<and> b \<notin> store_beliefs s")
  case True
  with assms show ?thesis by (simp add: Add_new store_beliefs_append)
next
  case False
  with assms show ?thesis
    by (cases "valid_belief b") (auto simp: Add_known Add_invalid valid_belief_def insert_absorb)
qed

lemma Add_resolutions [store_simps]:
  "slots_ok s \<Longrightarrow> resolutionByAtom (snd (Add b s)) = resolutionByAtom s"
  by (cases "valid_belief b"; cases "b \<in> store_beliefs s")
    (auto simp: Add_new Add_known Add_invalid valid_belief_def)

lemma slots_ok_Add: "slots_ok s \<Longrightarrow> slots_ok (snd (Add b s))"
  by (cases "valid_belief b"; cases "b \<in> store_beliefs s")
    (auto simp: Add_new Add_known Add_invalid valid_belief_def slots_ok_append)

lemma go_keys_append_belief:
  "fst ` set (beliefsByAtom (append_belief b s)) = insert (bAtom b) (fst ` set (beliefsByAtom s))"
  by (simp add: append_belief_def sortLocked_def Let_def go_map_simps)

lemma go_keys_ensure:
  "fst ` set (beliefsByAtom (ensure_atom a s)) = insert a (fst ` set (beliefsByAtom s))"
  by (auto simp: ensure_atom_def go_map_simps go_get_in_keys)

lemma store_maps_distinct_append:
  assumes "go_keys_distinct (beliefsByAtom s)"
    and "\<forall>(a, byPol) \<in> set (beliefsByAtom s). go_keys_distinct byPol"
  shows "go_keys_distinct (beliefsByAtom (append_belief b s))"
    and "\<forall>(a, byPol) \<in> set (beliefsByAtom (append_belief b s)). go_keys_distinct byPol"
proof -
  have "go_keys_distinct (go_index (beliefsByAtom s) (bAtom b))"
    using assms(2) by (rule go_index_all) simp
  then show "\<forall>(a, byPol) \<in> set (beliefsByAtom (append_belief b s)). go_keys_distinct byPol"
    unfolding append_belief_def sortLocked_def Let_def
    by (simp, intro go_put_all assms(2)) (simp_all add: distinct_update go_map_simps)
qed (simp add: append_belief_def sortLocked_def Let_def distinct_update assms(1))

lemma store_maps_distinct_ensure:
  assumes "go_keys_distinct (beliefsByAtom s)"
    and "\<forall>(a, byPol) \<in> set (beliefsByAtom s). go_keys_distinct byPol"
  shows "go_keys_distinct (beliefsByAtom (ensure_atom a s))"
    and "\<forall>(a, byPol) \<in> set (beliefsByAtom (ensure_atom a s)). go_keys_distinct byPol"
  using assms go_put_all [OF assms(2), of "[]" a] by (auto simp: ensure_atom_def distinct_update)

lemma store_ok_slots: "store_ok s \<Longrightarrow> slots_ok s"
  by (simp add: store_ok_def)

lemma store_ok_Add:
  assumes "store_ok s"
  shows "store_ok (snd (Add b s))"
proof (cases "valid_belief b \<and> b \<notin> store_beliefs s")
  case True
  let ?s1 = "ensure_atom (bAtom b) s"
  let ?s2 = "append_belief b ?s1"
  have ok: "slots_ok s"
    using assms by (rule store_ok_slots)
  have snd: "snd (Add b s) = ?s2"
    using True ok by (simp add: Add_new)
  have slots: "slot ?s2 a pol \<noteq> []" if "slot s a pol \<noteq> [] \<or> (a, pol) = (bAtom b, bPolarity b)" for a pol
  proof -
    have "slots_ok ?s1"
      using ok by simp
    then show ?thesis
      using that by (cases "a = bAtom b \<and> pol = bPolarity b") (simp_all add: slot_append_belief)
  qed
  have "\<exists>pol. slot ?s2 a pol \<noteq> []" if "a \<in> insert (bAtom b) (fst ` set (beliefsByAtom s))" for a
  proof (cases "a = bAtom b")
    case True
    then have "slot ?s2 a (bPolarity b) \<noteq> []" by (intro slots) simp
    then show ?thesis ..
  next
    case False
    then have "a \<in> fst ` set (beliefsByAtom s)"
      using that by blast
    then obtain pol where "slot s a pol \<noteq> []"
      using assms unfolding store_ok_def by blast
    then have "slot ?s2 a pol \<noteq> []" by (intro slots) simp
    then show ?thesis ..
  qed
  then have atoms: "\<forall>a \<in> fst ` set (beliefsByAtom ?s2). \<exists>pol. slot ?s2 a pol \<noteq> []"
    by (simp add: go_keys_append_belief go_keys_ensure)
  have res: "resolutions_ok ?s2"
    using assms by (simp add: store_ok_def resolutions_ok_def)
  have slots2: "slots_ok ?s2"
    using True ok by (simp add: slots_ok_append)
  have count: "s_count ?s2 = int (card (store_beliefs ?s2))"
    using assms True ok by (simp add: store_beliefs_append store_ok_def)
  have base: "go_keys_distinct (beliefsByAtom s)"
      "\<forall>(a, byPol) \<in> set (beliefsByAtom s). go_keys_distinct byPol"
    using assms by (simp_all add: store_ok_def)
  note maps = store_maps_distinct_append [OF store_maps_distinct_ensure [OF base], of b "bAtom b"]
  show ?thesis
    unfolding snd store_ok_def by (intro conjI maps atoms slots2 res count)
next
  case False
  then have "snd (Add b s) = s"
    by (rule Add_unchanged [OF store_ok_slots [OF assms]])
  with assms show ?thesis by simp
qed

lemma Count_card [store_simps]: "store_ok s \<Longrightarrow> Count s = int (card (store_beliefs s))"
  by (simp add: Count_def store_ok_def)

lemma SetResolution_result [store_simps]:
  "fst (SetResolution r s) = check_fields (rAtom r) (rSource r) (rPolarity r)"
  by (simp add: SetResolution_def split: option.split)

lemma SetResolution_slots [store_simps]: "slot (snd (SetResolution r s)) a pol = slot s a pol"
  by (simp add: SetResolution_def slot_def split: option.split)

lemma SetResolution_beliefs [store_simps]: "store_beliefs (snd (SetResolution r s)) = store_beliefs s"
  by (simp add: store_beliefs_def SetResolution_slots)

lemma SetResolution_lookup [store_simps]:
  "Resolution_of a (snd (SetResolution r s)) =
     (if valid_resolution r \<and> a = rAtom r then Some r else Resolution_of a s)"
  by (simp add: SetResolution_def Resolution_of_def valid_resolution_def go_map_simps split: option.split)

lemma slot_resolution_update [simp]: "slot (s\<lparr>resolutionByAtom := m\<rparr>) a pol = slot s a pol"
  by (simp add: slot_def)

lemma store_ok_resolution_update:
  assumes "store_ok s" and "resolutions_ok (s\<lparr>resolutionByAtom := m\<rparr>)"
  shows "store_ok (s\<lparr>resolutionByAtom := m\<rparr>)"
  using assms by (simp add: store_ok_def slots_ok_def store_beliefs_def)

lemma store_ok_SetResolution:
  assumes "store_ok s"
  shows "store_ok (snd (SetResolution r s))"
proof (cases "valid_resolution r")
  case True
  have "resolutions_ok s"
    using assms by (simp add: store_ok_def)
  then have "resolutions_ok (s\<lparr>resolutionByAtom := go_put (rAtom r) r (resolutionByAtom s)\<rparr>)"
    using True set_go_put_subset [of "rAtom r" r "resolutionByAtom s"]
    by (auto simp: resolutions_ok_def distinct_update)
  then show ?thesis
    using True store_ok_resolution_update [OF assms]
    by (simp add: SetResolution_def valid_resolution_def)
next
  case False
  with assms show ?thesis by (auto simp: SetResolution_def valid_resolution_def split: option.split)
qed

section \<open>The queries\<close>

lemma Snapshot_slots: "Snapshot a s = slot s a PolarityNegative @ slot s a PolarityPositive"
  by (simp add: Snapshot_def slot_def go_index_def split: option.split)

lemma mem_Snapshot [store_simps]:
  "slots_ok s \<Longrightarrow> b \<in> set (Snapshot a s) \<longleftrightarrow> b \<in> store_beliefs s \<and> bAtom b = a"
  using store_beliefs_valid [of s b] valid_polarity [of b] by (auto simp: Snapshot_slots slot_mem)

lemma Snapshot_det:
  "slots_ok s \<Longrightarrow> slots_ok s' \<Longrightarrow> store_beliefs s = store_beliefs s' \<Longrightarrow> Snapshot a s = Snapshot a s'"
  unfolding Snapshot_slots using slot_det by metis

lemma distinct_Snapshot: "slots_ok s \<Longrightarrow> distinct (Snapshot a s)"
  by (auto simp: Snapshot_slots distinct_slot slot_mem)

lemma atom_keys:
  assumes "store_ok s"
  shows "fst ` set (beliefsByAtom s) = bAtom ` store_beliefs s"
proof
  show "fst ` set (beliefsByAtom s) \<subseteq> bAtom ` store_beliefs s"
  proof
    fix a
    assume "a \<in> fst ` set (beliefsByAtom s)"
    then obtain pol where "slot s a pol \<noteq> []"
      using assms by (auto simp: store_ok_def)
    then obtain b where "b \<in> set (slot s a pol)"
      using hd_in_set by blast
    then have "b \<in> store_beliefs s" and "bAtom b = a"
      by (simp_all add: slot_mem [OF store_ok_slots [OF assms]])
    then show "a \<in> bAtom ` store_beliefs s" by blast
  qed
  show "bAtom ` store_beliefs s \<subseteq> fst ` set (beliefsByAtom s)"
    by (auto simp: store_beliefs_def slot_def dest!: go_index_mem)
      (metis empty_iff fst_conv go_index_absent image_eqI list.set(1) go_index_mem)
qed

lemma set_Atoms [store_simps]: "store_ok s \<Longrightarrow> set (Atoms s) = bAtom ` store_beliefs s"
  using atom_keys by (simp add: Atoms_def)

lemma sorted_Atoms: "store_ok s \<Longrightarrow> sorted_wrt atom_less (Atoms s)"
  unfolding Atoms_def by (rule atom_sort.sort_slice_strict) (simp add: store_ok_def)

lemma Atoms_det:
  "store_ok s \<Longrightarrow> store_ok s' \<Longrightarrow> store_beliefs s = store_beliefs s' \<Longrightarrow> Atoms s = Atoms s'"
  unfolding Atoms_def
  by (rule atom_sort.sort_slice_set_eq) (simp_all add: atom_keys, simp_all add: store_ok_def)

lemma mem_Resolutions [store_simps]:
  assumes "resolutions_ok s"
  shows "r \<in> set (Resolutions s) \<longleftrightarrow> Resolution_of (rAtom r) s = Some r"
  using assms by (force simp: Resolutions_def Resolution_of_def resolutions_ok_def)

lemma Resolution_of_valid:
  "resolutions_ok s \<Longrightarrow> Resolution_of a s = Some r \<Longrightarrow> rAtom r = a \<and> valid_resolution r"
  by (auto simp: Resolution_of_def resolutions_ok_def dest!: map_of_SomeD)

lemma inj_on_rAtom: "resolutions_ok s \<Longrightarrow> inj_on rAtom (snd ` set (resolutionByAtom s))"
  by (force simp: resolutions_ok_def inj_on_def intro: eq_key_imp_eq_value)

lemma distinct_Resolutions:
  assumes "resolutions_ok s"
  shows "distinct (map rAtom (Resolutions s))"
proof -
  have "map rAtom (map snd (resolutionByAtom s)) = map fst (resolutionByAtom s)"
    using assms by (auto simp: resolutions_ok_def)
  then have "distinct (map rAtom (map snd (resolutionByAtom s)))"
    using assms by (simp only: resolutions_ok_def)
  then show ?thesis
    by (subst mset_eq_imp_distinct_iff [where ys = "map rAtom (map snd (resolutionByAtom s))"])
      (simp_all add: Resolutions_def mset_map multiset.map_comp)
qed

lemma Resolutions_det:
  assumes "resolutions_ok s" and "resolutions_ok s'" and "\<And>a. Resolution_of a s = Resolution_of a s'"
  shows "Resolutions s = Resolutions s'"
  unfolding Resolutions_def
proof (rule resolution_sort.sort_slice_perm)
  have "map_of (resolutionByAtom s) = map_of (resolutionByAtom s')"
    using assms(3) by (simp add: Resolution_of_def fun_eq_iff)
  then have "mset (resolutionByAtom s) = mset (resolutionByAtom s')"
    using assms by (intro go_same_map_mset) (simp_all add: resolutions_ok_def)
  then show "mset (map snd (resolutionByAtom s)) = mset (map snd (resolutionByAtom s'))"
    by (simp add: mset_map)
  show "inj_on (\<lambda>r. atom_triple (rAtom r)) (set (map snd (resolutionByAtom s)))"
    using comp_inj_on [OF inj_on_rAtom [OF assms(1)] inj_on_subset [OF inj_atom_triple subset_UNIV]]
    by (simp add: comp_def)
qed

lemma sorted_Resolutions:
  assumes "resolutions_ok s"
  shows "sorted_wrt atom_less (map rAtom (Resolutions s))"
proof -
  let ?rs = "map snd (resolutionByAtom s)"
  have "distinct (map rAtom (Resolutions s))"
    using assms by (rule distinct_Resolutions)
  then have "distinct ?rs" and "inj_on rAtom (set ?rs)"
    by (simp_all add: distinct_map Resolutions_def)
  then have "sorted_wrt (\<lambda>x y. atom_less (rAtom x) (rAtom y)) (Resolutions s)"
    unfolding Resolutions_def
    by (intro resolution_sort.sorted_wrt_sort_slice)
      (use injD [OF inj_atom_triple] in \<open>auto simp: inj_on_def\<close>)
  then show ?thesis by (simp add: sorted_wrt_map)
qed

text \<open>The first belief of a slot is its earliest.\<close>

lemma slot_head_earliest:
  assumes ok: "slots_ok s" and slot: "slot s a pol = x # xs"
  shows "is_arg_min belief_stamp (\<lambda>y. y \<in> store_beliefs s \<and> bAtom y = a \<and> bPolarity y = pol) y \<longleftrightarrow> y = x"
proof -
  have mem: "y \<in> store_beliefs s \<and> bAtom y = a \<and> bPolarity y = pol \<longleftrightarrow> y \<in> insert x (set xs)" for y
    using slot_mem [OF ok, of y a pol] slot by auto
  have "sorted_wrt belief_less (x # xs)"
    using ok slot by (metis slots_ok_def)
  then have "belief_stamp x < belief_stamp y" if "y \<in> set xs" for y
    using that by (simp add: belief_sort.less_key)
  then show ?thesis
    unfolding is_arg_min_def mem by (auto dest: less_asym)
qed

section \<open>Properties of the store\<close>

datatype store_op = OpAdd Belief | OpSetResolution Resolution

fun store_step :: "store_op \<Rightarrow> Store \<Rightarrow> Store" where
  "store_step (OpAdd b) s = snd (Add b s)"
| "store_step (OpSetResolution r) s = snd (SetResolution r s)"

definition store_run :: "store_op list \<Rightarrow> Store" where
  "store_run ops = fold store_step ops NewStore"

text \<open>The abstract store: a set of beliefs and a map of resolutions, the last one for each atom.\<close>

fun spec_step :: "store_op \<Rightarrow> Belief set \<times> (Atom \<rightharpoonup> Resolution) \<Rightarrow> Belief set \<times> (Atom \<rightharpoonup> Resolution)" where
  "spec_step (OpAdd b) (B, R) = ((if valid_belief b then insert b B else B), R)"
| "spec_step (OpSetResolution r) (B, R) = (B, (if valid_resolution r then R(rAtom r \<mapsto> r) else R))"

definition store_abs :: "Store \<Rightarrow> Belief set \<times> (Atom \<rightharpoonup> Resolution)" where
  "store_abs s = (store_beliefs s, \<lambda>a. Resolution_of a s)"

lemma store_step_ok: "store_ok s \<Longrightarrow> store_ok (store_step ops s)"
  by (cases ops) (simp_all add: store_ok_Add store_ok_SetResolution)

lemma store_step_abs: "store_ok s \<Longrightarrow> store_abs (store_step ops s) = spec_step ops (store_abs s)"
  by (cases ops)
    (auto simp: store_abs_def store_simps store_ok_slots Resolution_of_def [of _ s]
      Resolution_of_def [of _ "snd (Add _ s)"] fun_eq_iff)

lemma store_run_ok: "store_ok s \<Longrightarrow> store_ok (fold store_step ops s)"
  by (induction ops arbitrary: s) (simp_all add: store_step_ok)

lemma store_run_abs: "store_ok s \<Longrightarrow> store_abs (fold store_step ops s) = fold spec_step ops (store_abs s)"
  by (induction ops arbitrary: s) (simp_all add: store_step_ok store_step_abs)

lemma store_abs_New: "store_abs NewStore = ({}, Map.empty)"
  by (simp add: store_abs_def fun_eq_iff) (simp add: Resolution_of_def NewStore_def)

lemma sorted_Snapshot:
  assumes "slots_ok s"
  shows "sorted_wrt (\<lambda>x y. (bPolarity x, belief_stamp x) < (bPolarity y, belief_stamp y)) (Snapshot a s)"
proof -
  have "sorted_wrt (\<lambda>x y. (bPolarity x, belief_stamp x) < (bPolarity y, belief_stamp y)) (slot s a pol)" for pol
  proof (rule sorted_wrt_mono_rel)
    show "sorted_wrt belief_less (slot s a pol)"
      using assms by (simp add: slots_ok_def)
    show "(bPolarity x, belief_stamp x) < (bPolarity y, belief_stamp y)"
      if "x \<in> set (slot s a pol)" and "y \<in> set (slot s a pol)" and "belief_less x y" for x y
      using that by (simp add: slot_mem [OF assms] belief_sort.less_key)
  qed
  moreover have "PolarityNegative < PolarityPositive"
    by (simp add: PolarityNegative_def PolarityPositive_def)
  ultimately show ?thesis
    by (simp add: Snapshot_slots sorted_wrt_append slot_mem [OF assms])
qed

text \<open>
  C25: A store built by any sequence of \<open>Add\<close> and \<open>SetResolution\<close> calls implements the abstract
  store (the set of valid beliefs added, the last valid resolution of each atom), and the queries
  are functions of the abstract store: \<open>Snapshot\<close> lists the beliefs of the atom once each, the
  negative ones first, by time and source; \<open>Atoms\<close> and \<open>Resolutions\<close> list what there is in the order
  of the atoms; \<open>Count\<close> counts the distinct beliefs. The order of the calls does not matter to what
  the queries over beliefs return.
\<close>

theorem store_implements_spec:
  "store_abs (store_run ops) = fold spec_step ops ({}, Map.empty) \<and>
   (case fold spec_step ops ({}, Map.empty) of (B, R) \<Rightarrow>
      set (Snapshot a (store_run ops)) = {b \<in> B. bAtom b = a} \<and>
      sorted_wrt (\<lambda>x y. (bPolarity x, belief_stamp x) < (bPolarity y, belief_stamp y))
        (Snapshot a (store_run ops)) \<and>
      Atoms (store_run ops) = sorted_list_of_set (bAtom ` B) \<and>
      set (Resolutions (store_run ops)) = ran R \<and>
      sorted_wrt atom_less (map rAtom (Resolutions (store_run ops))) \<and>
      Count (store_run ops) = int (card B))"
proof -
  let ?s = "store_run ops"
  have ok: "store_ok ?s"
    unfolding store_run_def by (rule store_run_ok) simp
  have abs: "store_abs ?s = fold spec_step ops ({}, Map.empty)"
    unfolding store_run_def store_abs_New [symmetric] by (rule store_run_abs) simp
  have res: "resolutions_ok ?s"
    using ok by (simp add: store_ok_def)
  have "sorted_wrt (<) (Atoms ?s)"
    by (rule sorted_wrt_mono_rel [OF _ sorted_Atoms [OF ok]]) (simp add: less_Atom_iff atom_sort.less_key)
  then have atoms: "Atoms ?s = sorted_list_of_set (bAtom ` store_beliefs ?s)"
    using set_Atoms [OF ok] sorted_list_of_set.idem_if_sorted_distinct [of "Atoms ?s"]
    by (simp add: strict_sorted_iff)
  have "set (Resolutions ?s) = ran (\<lambda>a. Resolution_of a ?s)"
    using mem_Resolutions [OF res] Resolution_of_valid [OF res] by (force simp: ran_def)
  moreover have "sorted_wrt atom_less (map rAtom (Resolutions ?s))"
    by (rule sorted_Resolutions [OF res])
  ultimately show ?thesis
    unfolding abs [symmetric]
    using ok sorted_Snapshot [OF store_ok_slots [OF ok], of a]
    by (simp add: abs store_abs_def store_ok_slots mem_Snapshot set_eq_iff atoms Count_card)
qed

text \<open>
  C35: What \<open>Add\<close> reports. An invalid belief is refused with the first failing check and changes
  nothing; a belief that is there already is accepted silently; a new one is stored in every case,
  and the contradiction names the resolution of the atom where there is one and its polarity is the
  other (then never an earlier belief), or else the earliest belief of the opposite polarity.
\<close>

theorem Add_reports:
  assumes "store_ok s"
  shows "(fst (Add b s) = Inl e \<longleftrightarrow> check_fields (bAtom b) (bSource b) (bPolarity b) = Some e) \<and>
    (fst (Add b s) = Inr (Some c) \<longleftrightarrow>
       valid_belief b \<and> b \<notin> store_beliefs s \<and> cAtom c = bAtom b \<and> cIncoming c = b \<and>
       cUnixNano c = bUnixNano b \<and>
       (case Resolution_of (bAtom b) s of
          Some r \<Rightarrow> rPolarity r \<noteq> bPolarity b \<and> cExisting c = resolution_belief r \<and>
            cReason c = ''conflicts with resolution''
        | None \<Rightarrow> cReason c = ''opposite polarity for same atom'' \<and>
            is_arg_min belief_stamp
              (\<lambda>x. x \<in> store_beliefs s \<and> bAtom x = bAtom b \<and> bPolarity x = opposite (bPolarity b))
              (cExisting c))) \<and>
    store_ok (snd (Add b s)) \<and>
    store_beliefs (snd (Add b s)) = store_beliefs s \<union> (if valid_belief b then {b} else {})"
proof -
  have ok: "slots_ok s"
    using assms by (rule store_ok_slots)
  have earliest: "is_arg_min belief_stamp
      (\<lambda>y. y \<in> store_beliefs s \<and> bAtom y = bAtom b \<and> bPolarity y = opposite (bPolarity b)) y
      \<longleftrightarrow> y = x" if slot: "slot s (bAtom b) (opposite (bPolarity b)) = x # xs" for x y xs
    using slot_head_earliest [OF ok slot] .
  have none: "\<not> is_arg_min belief_stamp
      (\<lambda>y. y \<in> store_beliefs s \<and> bAtom y = bAtom b \<and> bPolarity y = opposite (bPolarity b)) y"
    if "slot s (bAtom b) (opposite (bPolarity b)) = []" for y
    using that slot_mem [OF ok, of y "bAtom b" "opposite (bPolarity b)"] by (auto simp: is_arg_min_def)
  have report: "conflict_of b s = Some c \<longleftrightarrow>
      cAtom c = bAtom b \<and> cIncoming c = b \<and> cUnixNano c = bUnixNano b \<and>
      (case Resolution_of (bAtom b) s of
         Some r \<Rightarrow> rPolarity r \<noteq> bPolarity b \<and> cExisting c = resolution_belief r \<and>
           cReason c = ''conflicts with resolution''
       | None \<Rightarrow> cReason c = ''opposite polarity for same atom'' \<and>
           is_arg_min belief_stamp
             (\<lambda>x. x \<in> store_beliefs s \<and> bAtom x = bAtom b \<and> bPolarity x = opposite (bPolarity b))
             (cExisting c))"
    by (cases c) (auto simp: conflict_of_def earliest none split: option.split list.split)
  have "fst (Add b s) = Inr (Some c) \<longleftrightarrow>
      valid_belief b \<and> b \<notin> store_beliefs s \<and> conflict_of b s = Some c"
    by (simp add: Add_result [OF ok] valid_belief_def split: option.split)
  moreover have "fst (Add b s) = Inl e \<longleftrightarrow> check_fields (bAtom b) (bSource b) (bPolarity b) = Some e"
    by (simp add: Add_result [OF ok] split: option.split)
  ultimately show ?thesis
    unfolding report using store_ok_Add [OF assms] store_beliefs_Add [OF ok] by simp
qed

theorem Add_reports_witness:
  "fst (Add \<lparr>bAtom = mk_atom ''a'' ''p'' ''b'', bPolarity = 1, bSource = ''s'', bUnixNano = 7\<rparr> NewStore) \<noteq> Inl ErrNodeEmpty"
  using Add_reports [OF store_ok_New, where e = ErrNodeEmpty and
      b = "\<lparr>bAtom = mk_atom ''a'' ''p'' ''b'', bPolarity = 1, bSource = ''s'', bUnixNano = 7\<rparr>"]
  by (simp add: check_fields_def)

end
