(* ===== verification/Codec.thy ===== *)
theory Codec
  imports Bytes Belief_Store Rules
begin

text \<open>
  The payloads of the log: \<open>codec.go\<close> (beliefs and resolutions) and \<open>codec_rules.go\<close> (rules). A field
  is its length in two bytes and its bytes. Reading a field is \<open>binary.Read\<close> of the length and then
  one \<open>Read\<close>, which may come back short and fails at the end of the input even where nothing is asked
  for; so a field can be read back exactly where something follows it.
\<close>

named_theorems codec_simps \<open>decoding what was encoded\<close>

section \<open>Fields\<close>

definition write_field :: "string \<Rightarrow> bytes" where
  "write_field s = put_le 2 (word_of_nat (length s) :: uint16) @ to_bytes s"

lemma put_le_not_Nil [simp]: "put_le n w = [] \<longleftrightarrow> n = 0"
  using length_put_le [of n w] by (cases n) auto

lemma write_field_not_Nil [simp]: "write_field s \<noteq> []"
  by (simp add: write_field_def)

definition readBytes :: "bytes \<Rightarrow> go_error + bytes \<times> bytes" where
  "readBytes r = and_then (read_uint16 r) (\<lambda>(ln, r1). reader_Read (unat ln) r1)"

definition too_large :: "string \<Rightarrow> bool" where
  "too_large s \<longleftrightarrow> length s > 0xffff"

lemma unat_field: "\<not> too_large s \<Longrightarrow> unat (word_of_nat (length s) :: uint16) = length s"
  unfolding too_large_def by (rule unat_length) simp

lemma readBytes_field [codec_simps]:
  "\<not> too_large s \<Longrightarrow> readBytes (write_field s @ r) =
    (if s = [] \<and> r = [] then Inl ErrEOF else Inr (to_bytes s, r))"
  by (auto simp: readBytes_def write_field_def read_uint16_append reader_Read_append unat_field to_bytes_def)

lemma readBytes_last [codec_simps]: "readBytes (write_field []) = Inl ErrEOF"
  using readBytes_field [of "[]" "[]"] by (simp add: too_large_def)

text \<open>A field with something behind it was read in full.\<close>

lemma readBytes_Inr:
  assumes "readBytes r = Inr (b, r')" and "r' \<noteq> []"
  shows "r = write_field (of_bytes b) @ r' \<and> \<not> too_large (of_bytes b)"
proof -
  obtain ln :: uint16 and r1 where ln: "r = put_le 2 ln @ r1" and rd: "reader_Read (unat ln) r1 = Inr (b, r')"
    using assms(1) by (auto simp: readBytes_def and_then_Inr read_uint16_Inr)
  have "length b = unat ln" and "r1 = b @ r'"
    using reader_Read_Inr [OF rd assms(2)] by simp_all
  moreover from this have "word_of_nat (length b) = ln" by simp
  moreover have "unat ln \<le> 0xffff"
    using unsigned_less [of ln, where ?'a = nat] by simp
  ultimately show ?thesis
    using ln by (simp add: write_field_def to_of_bytes too_large_def)
qed

section \<open>Beliefs and resolutions\<close>

definition encodeBelief :: "Belief \<Rightarrow> go_error + bytes" where
  "encodeBelief b =
     (if too_large (aFrom (bAtom b)) \<or> too_large (aPred (bAtom b)) \<or> too_large (aTo (bAtom b)) \<or>
         too_large (bSource b)
      then Inl ErrFieldTooLarge
      else Inr (write_field (aFrom (bAtom b)) @ write_field (aPred (bAtom b)) @
                write_field (aTo (bAtom b)) @ bPolarity b #
                write_field (bSource b) @ put_le 8 (bUnixNano b)))"

definition decodeBelief :: "bytes \<Rightarrow> go_error + Belief" where
  "decodeBelief p =
     and_then (readBytes p) (\<lambda>(from, r1).
     and_then (readBytes r1) (\<lambda>(pred, r2).
     and_then (readBytes r2) (\<lambda>(to, r3).
     and_then (ReadByte r3) (\<lambda>(pol, r4).
     and_then (readBytes r4) (\<lambda>(src, r5).
     and_then (read_int64 r5) (\<lambda>(unixNano, r6).
       if r6 \<noteq> [] then Inl ErrTrailingBytes
       else Inr \<lparr>bAtom = mk_atom (of_bytes from) (of_bytes pred) (of_bytes to),
                 bPolarity = pol, bSource = of_bytes src, bUnixNano = unixNano\<rparr>))))))"

definition encodeResolution :: "Resolution \<Rightarrow> go_error + bytes" where
  "encodeResolution r =
     encodeBelief \<lparr>bAtom = rAtom r, bPolarity = rPolarity r, bSource = rSource r, bUnixNano = rUnixNano r\<rparr>"

definition decodeResolution :: "bytes \<Rightarrow> go_error + Resolution" where
  "decodeResolution p =
     and_then (decodeBelief p) (\<lambda>b.
       Inr \<lparr>rAtom = bAtom b, rPolarity = bPolarity b, rSource = bSource b, rUnixNano = bUnixNano b\<rparr>)"

lemma decode_encodeBelief [codec_simps]: "encodeBelief b = Inr p \<Longrightarrow> decodeBelief p = Inr b"
  by (auto simp: encodeBelief_def decodeBelief_def codec_simps byte_simps
      read_int64_append [where r = "[]", simplified] split: if_splits)

lemma encodeBelief_ok:
  "encodeBelief b = Inl e \<longleftrightarrow> e = ErrFieldTooLarge \<and>
     (too_large (aFrom (bAtom b)) \<or> too_large (aPred (bAtom b)) \<or> too_large (aTo (bAtom b)) \<or>
      too_large (bSource b))"
  by (auto simp: encodeBelief_def)

text \<open>Conversely: a payload that decodes is the encoding of what it decodes to.\<close>

lemma encode_decodeBelief:
  assumes "decodeBelief p = Inr b"
  shows "encodeBelief b = Inr p"
proof -
  obtain fr pred to pol src r1 r2 r3 r4 r5 w where
    rd: "readBytes p = Inr (fr, r1)" "readBytes r1 = Inr (pred, r2)" "readBytes r2 = Inr (to, r3)"
      "ReadByte r3 = Inr (pol, r4)" "readBytes r4 = Inr (src, r5)" "read_int64 r5 = Inr (w, [])"
    and b: "b = \<lparr>bAtom = mk_atom (of_bytes fr) (of_bytes pred) (of_bytes to),
                 bPolarity = pol, bSource = of_bytes src, bUnixNano = w\<rparr>"
    using assms by (auto simp: decodeBelief_def and_then_Inr split: if_splits)
  have r5: "r5 = put_le 8 w"
    using rd(6) by (simp add: read_int64_Inr)
  then have r4: "r4 = write_field (of_bytes src) @ r5" "\<not> too_large (of_bytes src)"
    using readBytes_Inr [OF rd(5)] by auto
  have r3: "r3 = pol # r4"
    using rd(4) by (simp add: ReadByte_Inr)
  then have r2: "r2 = write_field (of_bytes to) @ r3" "\<not> too_large (of_bytes to)"
    using readBytes_Inr [OF rd(3)] by auto
  have r1: "r1 = write_field (of_bytes pred) @ r2" "\<not> too_large (of_bytes pred)"
    using readBytes_Inr [OF rd(2)] r2 by auto
  have "p = write_field (of_bytes fr) @ r1" "\<not> too_large (of_bytes fr)"
    using readBytes_Inr [OF rd(1)] r1 by auto
  with r1 r2 r3 r4 r5 b show ?thesis
    by (simp add: encodeBelief_def)
qed

lemma decodeResolution_iff: "decodeResolution p = Inr r \<longleftrightarrow> encodeResolution r = Inr p"
proof -
  let ?b = "\<lparr>bAtom = rAtom r, bPolarity = rPolarity r, bSource = rSource r, bUnixNano = rUnixNano r\<rparr>"
  have "decodeResolution p = Inr r \<longleftrightarrow> decodeBelief p = Inr ?b"
    by (auto simp: decodeResolution_def and_then_Inr)
  then show ?thesis
    using decode_encodeBelief [of ?b p] encode_decodeBelief [of p ?b] by (auto simp: encodeResolution_def)
qed

section \<open>Rules\<close>

definition writePattern :: "AtomPattern \<Rightarrow> go_error + bytes" where
  "writePattern p =
     (if too_large (pFrom p) \<or> too_large (pPred p) \<or> too_large (pTo p) then Inl ErrFieldTooLarge
      else Inr (write_field (pFrom p) @ write_field (pPred p) @ write_field (pTo p)))"

fun writePatterns :: "AtomPattern list \<Rightarrow> go_error + bytes" where
  "writePatterns [] = Inr []"
| "writePatterns (p # ps) =
     and_then (writePattern p) (\<lambda>b. and_then (writePatterns ps) (\<lambda>bs. Inr (b @ bs)))"

definition encodeRule :: "Rule \<Rightarrow> go_error + bytes" where
  "encodeRule r =
     (if too_large (rName r) then Inl ErrNameTooLarge
      else if length (rIf r) > 0xffff then Inl ErrTooManyPremises
      else
        and_then (writePatterns (rIf r)) (\<lambda>ps.
        and_then (writePattern (rThen r)) (\<lambda>t.
          Inr (write_field (rName r) @ put_le 2 (word_of_nat (length (rIf r)) :: uint16) @ ps @ t))))"

definition readPattern :: "bytes \<Rightarrow> go_error + AtomPattern \<times> bytes" where
  "readPattern r =
     and_then (readBytes r) (\<lambda>(from, r1).
     and_then (readBytes r1) (\<lambda>(pred, r2).
     and_then (readBytes r2) (\<lambda>(to, r3).
       Inr (mk_pat (of_bytes from) (of_bytes pred) (of_bytes to), r3))))"

fun readPatterns :: "nat \<Rightarrow> bytes \<Rightarrow> go_error + AtomPattern list \<times> bytes" where
  "readPatterns 0 r = Inr ([], r)"
| "readPatterns (Suc n) r =
     and_then (readPattern r) (\<lambda>(p, r1). and_then (readPatterns n r1) (\<lambda>(ps, r2). Inr (p # ps, r2)))"

definition decodeRule :: "bytes \<Rightarrow> go_error + Rule" where
  "decodeRule p =
     and_then (readBytes p) (\<lambda>(name, r1).
     and_then (read_uint16 r1) (\<lambda>(premCount, r2).
     and_then (readPatterns (unat premCount) r2) (\<lambda>(prem, r3).
     and_then (readPattern r3) (\<lambda>(t, r4).
       if r4 \<noteq> [] then Inl ErrTrailingBytes
       else Inr \<lparr>rName = of_bytes name, rIf = prem, rThen = t\<rparr>))))"

lemma read_writePattern [codec_simps]:
  "writePattern p = Inr b \<Longrightarrow>
    readPattern (b @ r) = (if pTo p = [] \<and> r = [] then Inl ErrEOF else Inr (p, r))"
  by (auto simp: writePattern_def readPattern_def codec_simps byte_simps split: if_splits)

lemma read_writePatterns [codec_simps]:
  "writePatterns ps = Inr b \<Longrightarrow> r \<noteq> [] \<Longrightarrow> readPatterns (length ps) (b @ r) = Inr (ps, r)"
  by (induction ps arbitrary: b) (auto simp: and_then_Inr codec_simps)

lemma writePattern_not_Nil: "writePattern p = Inr b \<Longrightarrow> b \<noteq> []"
  by (auto simp: writePattern_def split: if_splits)

lemma decode_encodeRule:
  assumes "encodeRule r = Inr p"
  shows "decodeRule p = (if pTo (rThen r) = [] then Inl ErrEOF else Inr r)"
proof -
  obtain ps t where enc: "\<not> too_large (rName r)" "\<not> length (rIf r) > 0xffff"
      "writePatterns (rIf r) = Inr ps" "writePattern (rThen r) = Inr t"
    and p: "p = write_field (rName r) @ put_le 2 (word_of_nat (length (rIf r)) :: uint16) @ ps @ t"
    using assms by (auto simp: encodeRule_def and_then_Inr split: if_splits)
  have count: "unat (word_of_nat (length (rIf r)) :: uint16) = length (rIf r)"
    using enc(2) by (intro unat_length) simp
  have "t \<noteq> []"
    using enc(4) by (rule writePattern_not_Nil)
  then show ?thesis
    using enc(1) read_writePattern [OF enc(4), of "[]"]
    by (simp add: p decodeRule_def codec_simps byte_simps count read_writePatterns [OF enc(3)])
qed

text \<open>A truncated last field.\<close>

lemma readBytes_truncated:
  assumes "\<not> too_large s" and "k < length s"
  shows "readBytes (take (length (write_field s) - k) (write_field s)) =
    Inr (to_bytes (take (length s - k) s) @ replicate k 0, [])"
  using assms
  by (auto simp: readBytes_def write_field_def read_uint16_append reader_Read_def unat_field
      to_bytes_def take_map)

lemma of_bytes_zeros: "of_bytes (to_bytes s @ replicate k 0) = s @ replicate k (CHR 0x00)"
proof -
  have "char_of_byte 0 = CHR 0x00" by code_simp
  then show ?thesis
    by (simp add: of_bytes_def to_bytes_def comp_def)
qed

lemma read_truncatedPattern:
  assumes "writePattern p = Inr t" and "k < length (pTo p)"
  shows "readPattern (take (length t - k) t) =
    Inr (p\<lparr>pTo := take (length (pTo p) - k) (pTo p) @ replicate k (CHR 0x00)\<rparr>, [])"
proof -
  have ok: "\<not> too_large (pFrom p)" "\<not> too_large (pPred p)" "\<not> too_large (pTo p)"
    and t: "t = write_field (pFrom p) @ write_field (pPred p) @ write_field (pTo p)"
    using assms(1) by (auto simp: writePattern_def split: if_splits)
  have k: "k < length (write_field (pTo p))"
    using assms(2) by (simp add: write_field_def)
  then have "take (length t - k) t = write_field (pFrom p) @ write_field (pPred p) @
      take (length (write_field (pTo p)) - k) (write_field (pTo p))"
    by (simp add: t)
  moreover have "take (length (write_field (pTo p)) - k) (write_field (pTo p)) \<noteq> []"
    using k by auto
  ultimately show ?thesis
    by (simp add: readPattern_def readBytes_field ok readBytes_truncated [OF ok(3) assms(2)]
        of_to_bytes of_bytes_zeros)
qed

section \<open>Properties of the payload formats\<close>

text \<open>
  C32: The belief format and the resolution format are exact: a payload decodes to a belief if and
  only if it is that belief's encoding, so nothing is lost on the way out and no other bytes
  (truncated, padded or extended) are accepted on the way in; the encoder refuses exactly the beliefs
  with a field over 65535 bytes.
\<close>

theorem belief_codec_exact:
  "(decodeBelief p = Inr b \<longleftrightarrow> encodeBelief b = Inr p) \<and>
   (decodeResolution p = Inr r \<longleftrightarrow> encodeResolution r = Inr p) \<and>
   (encodeBelief b = Inl e \<longleftrightarrow> e = ErrFieldTooLarge \<and>
      (\<exists>f \<in> {aFrom (bAtom b), aPred (bAtom b), aTo (bAtom b), bSource b}. length f > 65535))"
proof (intro conjI)
  show "decodeBelief p = Inr b \<longleftrightarrow> encodeBelief b = Inr p"
    using decode_encodeBelief encode_decodeBelief by blast
  show "decodeResolution p = Inr r \<longleftrightarrow> encodeResolution r = Inr p"
    by (rule decodeResolution_iff)
qed (auto simp: encodeBelief_ok too_large_def)

text \<open>
  C33: A rule that was encoded decodes to itself exactly where the object of its conclusion is not
  empty; where it is empty, the encoder succeeds and the decoder reports the end of the input.
\<close>

theorem rule_codec_roundtrip:
  assumes "encodeRule r = Inr p"
  shows "decodeRule p = (if pTo (rThen r) = [] then Inl ErrEOF else Inr r)"
  using assms by (rule decode_encodeRule)

theorem rule_codec_roundtrip_witness:
  "(\<exists>p. encodeRule \<lparr>rName = ''t'', rIf = [mk_pat ''?x'' ''isa'' ''?y''], rThen = mk_pat ''?x'' ''is'' ''?y''\<rparr> = Inr p \<and>
     decodeRule p = Inr \<lparr>rName = ''t'', rIf = [mk_pat ''?x'' ''isa'' ''?y''], rThen = mk_pat ''?x'' ''is'' ''?y''\<rparr>) \<and>
   (\<exists>p. encodeRule \<lparr>rName = ''t'', rIf = [mk_pat ''?x'' ''isa'' ''?y''], rThen = mk_pat ''?x'' ''is'' []\<rparr> = Inr p \<and>
     decodeRule p = Inl ErrEOF)"
proof -
  have enc: "\<exists>p. encodeRule \<lparr>rName = ''t'', rIf = [mk_pat ''?x'' ''isa'' ''?y''], rThen = mk_pat ''?x'' ''is'' z\<rparr> = Inr p"
    if "length z \<le> 2" for z
    using that by (simp add: encodeRule_def writePattern_def too_large_def)
  obtain p q where "encodeRule \<lparr>rName = ''t'', rIf = [mk_pat ''?x'' ''isa'' ''?y''], rThen = mk_pat ''?x'' ''is'' ''?y''\<rparr> = Inr p"
      and "encodeRule \<lparr>rName = ''t'', rIf = [mk_pat ''?x'' ''isa'' ''?y''], rThen = mk_pat ''?x'' ''is'' []\<rparr> = Inr q"
    using enc [of "''?y''"] enc [of "[]"] by auto
  with this [THEN rule_codec_roundtrip] show ?thesis by auto
qed

text \<open>
  C34: The rule format is not exact: where the encoding of a rule loses fewer bytes at its end than
  the object of the conclusion has, the decoder accepts the rest and fills the object up with zero
  bytes.
\<close>

theorem rule_truncation_undetected:
  assumes "encodeRule r = Inr p" and "k < length (pTo (rThen r))"
  shows "decodeRule (take (length p - k) p) =
    Inr (r\<lparr>rThen := (rThen r)\<lparr>pTo := take (length (pTo (rThen r)) - k) (pTo (rThen r)) @ replicate k (CHR 0x00)\<rparr>\<rparr>)"
proof -
  obtain ps t where enc: "\<not> too_large (rName r)" "\<not> length (rIf r) > 0xffff"
      "writePatterns (rIf r) = Inr ps" "writePattern (rThen r) = Inr t"
    and p: "p = write_field (rName r) @ put_le 2 (word_of_nat (length (rIf r)) :: uint16) @ ps @ t"
    using assms(1) by (auto simp: encodeRule_def and_then_Inr split: if_splits)
  have count: "unat (word_of_nat (length (rIf r)) :: uint16) = length (rIf r)"
    using enc(2) by (intro unat_length) simp
  have kt: "k < length t"
    using assms(2) enc(4) by (auto simp: writePattern_def write_field_def split: if_splits)
  then have "take (length p - k) p =
      write_field (rName r) @ put_le 2 (word_of_nat (length (rIf r)) :: uint16) @ ps @ take (length t - k) t"
    by (simp add: p)
  moreover have "take (length t - k) t \<noteq> []"
    using kt by auto
  ultimately show ?thesis
    using enc(1) read_truncatedPattern [OF enc(4) assms(2)]
    by (simp add: decodeRule_def codec_simps byte_simps count read_writePatterns [OF enc(3)])
qed

theorem rule_truncation_undetected_witness:
  "\<exists>p. encodeRule \<lparr>rName = ''t'', rIf = [mk_pat ''?x'' ''isa'' ''cat''], rThen = mk_pat ''?x'' ''isa'' ''pet''\<rparr> = Inr p \<and>
     decodeRule (take (length p - 1) p) =
       Inr \<lparr>rName = ''t'', rIf = [mk_pat ''?x'' ''isa'' ''cat''],
            rThen = mk_pat ''?x'' ''isa'' [CHR ''p'', CHR ''e'', CHR 0x00]\<rparr>"
proof -
  obtain p where "encodeRule \<lparr>rName = ''t'', rIf = [mk_pat ''?x'' ''isa'' ''cat''], rThen = mk_pat ''?x'' ''isa'' ''pet''\<rparr> = Inr p"
    by (simp add: encodeRule_def writePattern_def too_large_def)
  with rule_truncation_undetected [OF this, of 1] show ?thesis
    by auto
qed

end
