(* ===== verification/Log.thy ===== *)
theory Log
  imports Bytes
begin

text \<open>
  Package \<open>store\<close>, what its logs share: the record and its event types (\<open>wal.go\<close>), the encoding of a
  record (\<open>record_codec.go\<close>), and the interface \<open>Log\<close> of \<open>log.go\<close> as the locale \<open>record_log\<close>: a log
  stands for the records its \<open>Replay\<close> hands out, and \<open>Append\<close> adds one at the end.
\<close>

section \<open>Records\<close>

type_synonym EventType = byte

definition EventUnknown :: EventType where "EventUnknown = 0"
definition EventFactAdded :: EventType where "EventFactAdded = 1"
definition EventResolutionSet :: EventType where "EventResolutionSet = 2"
definition EventRuleAdded :: EventType where "EventRuleAdded = 3"

lemma event_types_distinct [simp]:
  "EventFactAdded \<noteq> EventUnknown" "EventResolutionSet \<noteq> EventUnknown" "EventRuleAdded \<noteq> EventUnknown"
  "EventFactAdded \<noteq> EventResolutionSet" "EventFactAdded \<noteq> EventRuleAdded" "EventResolutionSet \<noteq> EventRuleAdded"
  "EventResolutionSet \<noteq> EventFactAdded" "EventRuleAdded \<noteq> EventFactAdded" "EventRuleAdded \<noteq> EventResolutionSet"
  by (simp_all add: EventUnknown_def EventFactAdded_def EventResolutionSet_def EventRuleAdded_def)

record Record =
  recType :: EventType
  recPayload :: bytes

definition encodeRecord :: "Record \<Rightarrow> go_error + bytes" where
  "encodeRecord r =
     (if recType r = EventUnknown then Inl ErrInvalidEventType
      else Inr (recType r # put_le 4 (ChecksumIEEE (recPayload r)) @ recPayload r))"

definition decodeRecord :: "bytes \<Rightarrow> go_error + Record" where
  "decodeRecord b =
     (if length b < 5 then Inl ErrBufferTooSmall
      else
        let r = \<lparr>recType = b ! 0, recPayload = drop 5 b\<rparr>;
            want = get_le (take 4 (drop 1 b)) :: uint32
        in if ChecksumIEEE (recPayload r) \<noteq> want then Inl ErrCrcMismatch
           else if recType r = EventUnknown then Inl ErrInvalidEventType
           else Inr r)"

lemma decode_encodeRecord: "encodeRecord r = Inr b \<Longrightarrow> decodeRecord b = Inr r"
  by (auto simp: encodeRecord_def decodeRecord_def Let_def get_put_le split: if_splits)

lemma encode_decodeRecord:
  assumes "decodeRecord b = Inr r"
  shows "encodeRecord r = Inr b"
proof -
  have len: "5 \<le> length b" and r: "r = \<lparr>recType = b ! 0, recPayload = drop 5 b\<rparr>"
    and crc: "ChecksumIEEE (recPayload r) = get_le (take 4 (drop 1 b))" and ty: "recType r \<noteq> EventUnknown"
    using assms by (auto simp: decodeRecord_def Let_def split: if_splits)
  have "put_le (length (take 4 (drop 1 b))) (get_le (take 4 (drop 1 b)) :: uint32) = take 4 (drop 1 b)"
    by (rule put_get_le) simp
  then have "put_le 4 (ChecksumIEEE (recPayload r)) = take 4 (drop 1 b)"
    using len by (simp add: crc)
  moreover have "b = b ! 0 # take 4 (drop 1 b) @ drop 5 b"
    using len append_take_drop_id [of 4 "drop 1 b"] by (cases b) simp_all
  ultimately show ?thesis
    using ty by (simp add: encodeRecord_def) (simp add: r)
qed

section \<open>Replaying\<close>

text \<open>
  \<open>Replay\<close> calls a \<open>ReplayFunc\<close> on each record; the callback works on a state of its own and may stop
  the loop with an error. \<open>replay_records\<close> is what remains of any \<open>Replay\<close> once the records it hands
  out and the error it ends with are known.
\<close>

type_synonym 's ReplayFunc = "Record \<Rightarrow> 's \<Rightarrow> go_error option \<times> 's"

fun replay_records :: "'s ReplayFunc \<Rightarrow> Record list \<Rightarrow> go_error option \<Rightarrow> 's \<Rightarrow> go_error option \<times> 's" where
  "replay_records f [] e s = (e, s)"
| "replay_records f (r # rs) e s =
     (case f r s of (Some err, s') \<Rightarrow> (Some err, s') | (None, s') \<Rightarrow> replay_records f rs e s')"

lemma replay_records_append:
  "replay_records f (rs @ rs') e s =
     (case replay_records f rs None s of
        (Some err, s') \<Rightarrow> (Some err, s') | (None, s') \<Rightarrow> replay_records f rs' e s')"
  by (induction rs arbitrary: s) (auto split: prod.split option.split)

text \<open>The callback that collects the records.\<close>

definition collect :: "Record list ReplayFunc" where
  "collect r rs = (None, rs @ [r])"

lemma replay_collect: "replay_records collect rs e acc = (e, acc @ rs)"
  by (induction rs arbitrary: acc) (simp_all add: collect_def)

section \<open>The Log interface\<close>

locale record_log =
  fixes append :: "Record \<Rightarrow> 'l \<Rightarrow> go_error option \<times> 'l"
    and records :: "'l \<Rightarrow> Record list \<times> go_error option"
    and inv :: "'l \<Rightarrow> bool"
    and storable :: "Record \<Rightarrow> bool"
  assumes append_inv: "inv l \<Longrightarrow> inv (snd (append r l))"
    and append_stores: "inv l \<Longrightarrow> storable r \<Longrightarrow>
      fst (append r l) = None \<and> records (snd (append r l)) = (fst (records l) @ [r], None)"
    and append_refuses: "inv l \<Longrightarrow> \<not> storable r \<Longrightarrow> fst (append r l) \<noteq> None \<and> snd (append r l) = l"
    and records_sound: "inv l \<Longrightarrow> snd (records l) = None"
begin

text \<open>What a log holds after a sequence of appends: the storable records, in order.\<close>

lemma appends_inv: "inv l \<Longrightarrow> inv (fold (\<lambda>r l. snd (append r l)) rs l)"
  by (induction rs arbitrary: l) (auto simp: append_inv)

lemma records_append:
  "inv l \<Longrightarrow> records (snd (append r l)) =
    (fst (records l) @ (if storable r then [r] else []), None)"
  using append_stores [of l r] append_refuses [of l r] records_sound [of l]
  by (cases "records l") auto

lemma appends_records:
  "inv l \<Longrightarrow> records (fold (\<lambda>r l. snd (append r l)) rs l) = (fst (records l) @ filter storable rs, None)"
proof (induction rs arbitrary: l)
  case Nil
  then show ?case
    using records_sound [of l] by (cases "records l") simp
next
  case (Cons r rs)
  then show ?case by (simp add: append_inv records_append)
qed

end

section \<open>Property of the record format\<close>

text \<open>
  The encoding of a record in a key-value log is exact: bytes decode to a record if and only if
  they are its encoding, and every other input is refused: too short, a checksum that is not that
  of the payload, or the unknown event type, in this order.
\<close>

theorem record_codec_exact:
  "(decodeRecord b = Inr r \<longleftrightarrow> encodeRecord r = Inr b) \<and>
   (encodeRecord r = Inl e \<longleftrightarrow> recType r = EventUnknown \<and> e = ErrInvalidEventType) \<and>
   (decodeRecord b = Inl e \<longleftrightarrow>
      e = (if length b < 5 then ErrBufferTooSmall
           else if ChecksumIEEE (drop 5 b) \<noteq> get_le (take 4 (drop 1 b)) then ErrCrcMismatch
           else ErrInvalidEventType) \<and>
      \<not> (5 \<le> length b \<and> ChecksumIEEE (drop 5 b) = get_le (take 4 (drop 1 b)) \<and> b ! 0 \<noteq> EventUnknown))"
proof (intro conjI)
  show "decodeRecord b = Inr r \<longleftrightarrow> encodeRecord r = Inr b"
    using decode_encodeRecord encode_decodeRecord by blast
qed (auto simp: encodeRecord_def decodeRecord_def Let_def)

end
