(* ===== verification/Float64.thy ===== *)
theory Float64
  imports Prelude "HOL-Library.Log_Nat"
begin

text \<open>
  The \<open>float64\<close> arithmetic of the similarity scores: a finite double is a rational, and an operation
  rounds its exact result to 53 bits, to nearest with ties to even. The scores are quotients of
  counts that fit 64 bits and their complements, so that the exponent never leaves the range of the
  type, and infinities, NaN and subnormal numbers do not occur.
\<close>

definition round_even :: "rat \<Rightarrow> int" where
  "round_even x =
     (let n = \<lfloor>x\<rfloor>; d = x - of_int n
      in if d < 1/2 then n else if d > 1/2 then n + 1 else if even n then n else n + 1)"

text \<open>The exponent of the leading bit of a positive quotient.\<close>

definition exponent_of :: "rat \<Rightarrow> int" where
  "exponent_of x =
     (let (n, d) = quotient_of x; k = bitlen n - bitlen d
      in if (if k \<ge> 0 then d * 2 ^ nat k \<le> n else d \<le> n * 2 ^ nat (- k)) then k else k - 1)"

definition f64 :: "rat \<Rightarrow> rat" where
  "f64 x =
     (if x = 0 then 0
      else
        let s = 52 - exponent_of \<bar>x\<bar>
        in if s \<ge> 0 then of_int (round_even (x * 2 ^ nat s)) / 2 ^ nat s
           else of_int (round_even (x / 2 ^ nat (- s))) * 2 ^ nat (- s))"

lemma round_even_le: "x \<le> of_int n \<Longrightarrow> round_even x \<le> n"
proof -
  assume x: "x \<le> of_int n"
  have "\<lfloor>x\<rfloor> \<le> n"
    using floor_mono [OF x] by simp
  moreover have "x - of_int \<lfloor>x\<rfloor> = 0" if "\<lfloor>x\<rfloor> = n"
    using x that of_int_floor_le [of x] by simp
  ultimately show ?thesis
    by (cases "\<lfloor>x\<rfloor> = n") (auto simp: round_even_def Let_def)
qed

lemma round_even_ge: "of_int n \<le> x \<Longrightarrow> n \<le> round_even x"
  using floor_mono [of "of_int n" x] by (auto simp: round_even_def Let_def)

lemma round_even_int [simp]: "round_even (of_int n) = n"
  by (rule antisym) (auto intro: round_even_le round_even_ge)

text \<open>Rounding stays within the unit interval, and keeps what is a double already.\<close>

lemma f64_0 [simp]: "f64 0 = 0"
  by (simp add: f64_def)

lemma f64_nonneg: "0 \<le> x \<Longrightarrow> 0 \<le> f64 x"
proof -
  assume "0 \<le> x"
  then have "0 \<le> round_even (x * 2 ^ n)" and "0 \<le> round_even (x / 2 ^ n)" for n
    by (auto intro!: round_even_ge)
  then show ?thesis
    by (auto simp: f64_def Let_def)
qed

lemma quotient_of_bounds:
  assumes "0 < x"
  shows "quotient_of x = (n, d) \<Longrightarrow> 0 < n \<and> 0 < d \<and> x = of_int n / of_int d"
  using assms quotient_of_div [of x n d] quotient_of_denom_pos [of x n d]
  by (auto simp: zero_less_divide_iff)

lemma exponent_of_le_1:
  assumes "0 < x" and "x \<le> 1"
  shows "exponent_of x \<le> 0"
proof -
  obtain n d where nd: "quotient_of x = (n, d)" by force
  then have pos: "0 < n" "0 < d" and x: "x = of_int n / of_int d"
    using quotient_of_bounds [OF assms(1)] by simp_all
  then have "n \<le> d"
    using assms(2) by (simp add: divide_le_eq)
  then have "bitlen n \<le> bitlen d"
    using pos by (simp add: bitlen_def floorlog_mono nat_mono)
  then show ?thesis
    by (simp add: exponent_of_def nd Let_def)
qed

lemma f64_le_1: "0 \<le> x \<Longrightarrow> x \<le> 1 \<Longrightarrow> f64 x \<le> 1"
proof (cases "x = 0")
  case False
  assume "0 \<le> x" and le: "x \<le> 1"
  with False have "0 < x" by simp
  then have "0 \<le> 52 - exponent_of x"
    using exponent_of_le_1 [OF _ le] by simp
  moreover have "round_even (x * 2 ^ k) \<le> 2 ^ k" for k
    using le by (intro round_even_le) (simp add: mult_left_le_one_le)
  then have "of_int (round_even (x * 2 ^ k)) / 2 ^ k \<le> (1 :: rat)" for k
    using of_int_le_iff [of "round_even (x * 2 ^ k)" "2 ^ k", where ?'a = rat]
    by (simp add: divide_le_eq del: of_int_le_iff)
  ultimately show ?thesis
    using \<open>0 < x\<close> by (simp add: f64_def Let_def)
qed simp

text \<open>On the unit interval the result is a multiple of a power of two below \<open>2 ^ -52\<close>.\<close>

lemma f64_unit:
  assumes "0 < x" and "x \<le> 1"
  obtains s where "52 \<le> s" and "f64 x = of_int (round_even (x * 2 ^ s)) / 2 ^ s"
proof
  have "exponent_of x \<le> 0"
    using exponent_of_le_1 [OF assms] .
  then show "52 \<le> nat (52 - exponent_of x)"
      and "f64 x = of_int (round_even (x * 2 ^ nat (52 - exponent_of x))) / 2 ^ nat (52 - exponent_of x)"
    using assms by (auto simp: f64_def Let_def)
qed

lemma f64_1 [simp]: "f64 1 = 1"
proof -
  obtain s where "f64 1 = of_int (round_even (1 * 2 ^ s)) / 2 ^ s"
    by (rule f64_unit [of 1]) simp_all
  moreover have "round_even (2 ^ s) = 2 ^ s"
    using round_even_int [of "2 ^ s"] by simp
  ultimately show ?thesis by simp
qed

lemma f64_ge_pow:
  assumes "1 / 2 ^ k \<le> x" and "x \<le> 1" and "k \<le> 52"
  shows "1 / 2 ^ k \<le> f64 x"
proof -
  have "0 < x"
    using assms(1) by (rule less_le_trans [rotated]) simp
  then obtain s where s: "52 \<le> s" "f64 x = of_int (round_even (x * 2 ^ s)) / 2 ^ s"
    using assms(2) by (rule f64_unit)
  then have pow: "(2 :: rat) ^ s = 2 ^ (s - k) * 2 ^ k"
    using assms(3) by (simp flip: power_add)
  have "of_int (2 ^ (s - k)) \<le> x * 2 ^ s"
    using assms(1) by (simp add: pow divide_le_eq mult.assoc [symmetric] mult.commute [of x])
  then have "2 ^ (s - k) \<le> round_even (x * 2 ^ s)"
    by (rule round_even_ge)
  then have "(2 :: rat) ^ (s - k) \<le> of_int (round_even (x * 2 ^ s))"
    using of_int_le_iff [of "2 ^ (s - k)" "round_even (x * 2 ^ s)", where ?'a = rat] by simp
  then show ?thesis
    by (simp add: s(2) pow divide_le_eq le_divide_eq)
qed

lemma f64_le_pow:
  assumes "0 \<le> x" and "x \<le> 1 - 1 / 2 ^ k" and "k \<le> 52"
  shows "f64 x \<le> 1 - 1 / 2 ^ k"
proof (cases "x = 0")
  case False
  then have "0 < x" using assms(1) by simp
  moreover have "x \<le> 1"
    using assms(2) by (rule order_trans) simp
  ultimately obtain s where s: "52 \<le> s" "f64 x = of_int (round_even (x * 2 ^ s)) / 2 ^ s"
    by (rule f64_unit)
  then have pow: "(2 :: rat) ^ s = 2 ^ (s - k) * 2 ^ k"
    using assms(3) by (simp flip: power_add)
  have "x * 2 ^ s \<le> (1 - 1 / 2 ^ k) * 2 ^ s"
    using assms(2) by (rule mult_right_mono) simp
  also have "\<dots> = of_int (2 ^ s - 2 ^ (s - k))"
    by (simp add: pow field_simps)
  finally have "round_even (x * 2 ^ s) \<le> 2 ^ s - 2 ^ (s - k)"
    by (rule round_even_le)
  then have "of_int (round_even (x * 2 ^ s)) \<le> (2 :: rat) ^ s - 2 ^ (s - k)"
    using of_int_le_iff [of "round_even (x * 2 ^ s)" "2 ^ s - 2 ^ (s - k)", where ?'a = rat] by simp
  then show ?thesis
    by (simp add: s(2) pow field_simps)
qed (use assms in simp)

text \<open>Integers below the precision are doubles.\<close>

lemma bitlen_1: "bitlen 1 = 1"
  by code_simp

lemma f64_of_int:
  assumes "0 < n" and "n \<le> 2 ^ 52"
  shows "f64 (of_int n) = of_int n"
proof -
  have q: "quotient_of (of_int n) = (n, 1)" by simp
  have "bitlen n \<le> bitlen (2 ^ 52)"
    using assms by (simp add: bitlen_def floorlog_mono nat_mono)
  also have "bitlen (2 ^ 52 :: int) = 53" by code_simp
  finally have "exponent_of (of_int n) \<le> 52"
    using bitlen_1 by (simp add: exponent_of_def q Let_def)
  then have "0 \<le> 52 - exponent_of (of_int n)" by simp
  moreover have "round_even (of_int n * 2 ^ k) = n * 2 ^ k" for k
    using round_even_int [of "n * 2 ^ k"] by simp
  ultimately show ?thesis
    using assms(1) by (simp add: f64_def Let_def)
qed

end
