(* ===== verification/Vsa.thy ===== *)
theory Vsa
  imports Bytes Float64
begin

text \<open>
  Package \<open>vsa\<close>, the vectors: \<open>vector.go\<close> and \<open>ops.go\<close>. A vector is a slice of 64-bit words and a number
  of bits. \<open>vec_ok\<close> is the invariant of the constructors: as many words as the bits need, and no bit
  set beyond them; \<open>UnmarshalBinary\<close> does not check it.
\<close>

named_theorems vsa_simps \<open>what the vector operations return\<close>

section \<open>Vectors\<close>

record Vector =
  v_words :: "uint64 list"
  v_bits :: int

definition NewZero :: "int \<Rightarrow> go_error + Vector" where
  "NewZero bits =
     (if bits \<le> 0 then Inl ErrBitsNotPositive
      else Inr \<lparr>v_words = replicate (nat ((bits + 63) div 64)) 0, v_bits = bits\<rparr>)"

definition maskUnusedBits :: "Vector \<Rightarrow> Vector" where
  "maskUnusedBits v =
     (let n = length (v_words v); unused = int n * 64 - v_bits v
      in if unused \<le> 0 then v
         else v\<lparr>v_words := (v_words v)[n - 1 := (v_words v ! (n - 1)) AND drop_bit (nat unused) (NOT 0)]\<rparr>)"

definition xorshift64star :: "uint64 \<Rightarrow> uint64" where
  "xorshift64star x =
     (let x1 = x XOR drop_bit 12 x;
          x2 = x1 XOR push_bit 25 x1;
          x3 = x2 XOR drop_bit 27 x2
      in x3 * 2685821657736338717)"

fun xorshift_words :: "nat \<Rightarrow> uint64 \<Rightarrow> uint64 list" where
  "xorshift_words 0 x = []"
| "xorshift_words (Suc n) x = (let x' = xorshift64star x in x' # xorshift_words n x')"

definition NewRandom :: "int \<Rightarrow> uint64 \<Rightarrow> go_error + Vector" where
  "NewRandom bits seed =
     and_then (NewZero bits) (\<lambda>v.
       Inr (maskUnusedBits (v\<lparr>v_words := xorshift_words (length (v_words v)) seed\<rparr>)))"

definition MarshalBinary :: "Vector \<Rightarrow> bytes" where
  "MarshalBinary v =
     put_le 8 (word_of_int (v_bits v) :: uint64) @ put_le 8 (word_of_nat (length (v_words v)) :: uint64) @
     concat (map (put_le 8) (v_words v))"

fun read_words :: "nat \<Rightarrow> bytes \<Rightarrow> uint64 list" where
  "read_words 0 b = []"
| "read_words (Suc n) b = get_le (take 8 b) # read_words n (drop 8 b)"

text \<open>
  The two header fields are 64-bit and read as signed; \<open>16 + 8*words\<close> wraps around. \<open>make\<close> panics where
  a wrapped length got past the test: then the slice would not fit the address space.
\<close>

definition UnmarshalBinary :: "bytes \<Rightarrow> go_error + Vector" where
  "UnmarshalBinary b =
     (if length b < 16 then Inl ErrBufferTooSmall
      else
        let bits = sint (get_le (take 8 b) :: uint64);
            words = sint (get_le (take 8 (drop 8 b)) :: uint64)
        in if bits \<le> 0 \<or> words \<le> 0 then Inl ErrInvalidHeader
           else if (word_of_nat (length b) :: uint64) \<noteq> 16 + 8 * word_of_int words then Inl ErrInvalidLength
           else if words > 2 ^ 45 then Inl (GoPanic ''makeslice: len out of range'')
           else Inr (maskUnusedBits \<lparr>v_words = read_words (nat words) (drop 16 b), v_bits = bits\<rparr>))"

section \<open>Operations\<close>

definition BindXOR :: "Vector \<Rightarrow> Vector \<Rightarrow> go_error + Vector" where
  "BindXOR a b =
     (if v_bits a \<noteq> v_bits b \<or> length (v_words a) \<noteq> length (v_words b) then Inl ErrDimensionMismatch
      else Inr (maskUnusedBits (a\<lparr>v_words := map2 (XOR) (v_words a) (v_words b)\<rparr>)))"

definition majority_word :: "Vector list \<Rightarrow> nat \<Rightarrow> nat \<Rightarrow> uint64" where
  "majority_word vs threshold wi =
     fold (\<lambda>bi w.
       let bitMask = push_bit bi 1;
           cnt = length (filter (\<lambda>v. (v_words v ! wi) AND bitMask \<noteq> 0) vs)
       in if cnt \<ge> threshold then w OR bitMask else w) [0..<64] 0"

text \<open>The loop panics at the first word that the zero vector for these bits does not have.\<close>

definition BundleMajority :: "Vector list \<Rightarrow> go_error + Vector" where
  "BundleMajority vs =
     (if vs = [] then Inl ErrEmptyInput
      else if length vs mod 2 = 0 then Inl ErrRequiresOdd
      else
        let bitsCount = v_bits (vs ! 0);
            wordsCount = length (v_words (vs ! 0))
        in if \<exists>v \<in> set vs. v_bits v \<noteq> bitsCount \<or> length (v_words v) \<noteq> wordsCount
           then Inl ErrDimensionMismatch
           else
             let out = (case NewZero bitsCount of Inl _ \<Rightarrow> \<lparr>v_words = [], v_bits = 0\<rparr> | Inr z \<Rightarrow> z);
                 threshold = length vs div 2 + 1
             in if wordsCount > length (v_words out) then Inl (GoPanic ''index out of range'')
                else Inr (maskUnusedBits
                  (out\<lparr>v_words := map (majority_word vs threshold) [0..<wordsCount] @
                                 drop wordsCount (v_words out)\<rparr>)))"

definition OnesCount64 :: "uint64 \<Rightarrow> nat" where
  "OnesCount64 w = length (filter (bit w) [0..<64])"

definition Similarity :: "Vector \<Rightarrow> Vector \<Rightarrow> go_error + rat" where
  "Similarity a b =
     (if v_bits a \<noteq> v_bits b \<or> length (v_words a) \<noteq> length (v_words b) then Inl ErrDimensionMismatch
      else if v_bits a = 0 then Inl ErrInvalidDimension
      else
        let diff = sum_list (map2 (\<lambda>x y. OnesCount64 (x XOR y)) (v_words a) (v_words b))
        in Inr (f64 (1 - f64 (f64 (rat_of_nat diff) / f64 (rat_of_int (v_bits a))))))"

section \<open>The invariant\<close>

definition vec_bit :: "Vector \<Rightarrow> nat \<Rightarrow> bool" where
  "vec_bit v i \<longleftrightarrow> bit (v_words v ! (i div 64)) (i mod 64)"

definition vec_ok :: "Vector \<Rightarrow> bool" where
  "vec_ok v \<longleftrightarrow>
     0 < v_bits v \<and> length (v_words v) = nat ((v_bits v + 63) div 64) \<and>
     (\<forall>i < 64 * length (v_words v). vec_bit v i \<longrightarrow> int i < v_bits v)"

lemma vec_wordsE:
  assumes "vec_ok v"
  obtains n where "length (v_words v) = Suc n" "64 * int n < v_bits v" "v_bits v \<le> 64 * int (Suc n)"
proof -
  have "0 < nat ((v_bits v + 63) div 64)" and bits: "0 < v_bits v"
    using assms by (auto simp: vec_ok_def)
  then obtain n where n: "nat ((v_bits v + 63) div 64) = Suc n"
    by (cases "nat ((v_bits v + 63) div 64)") auto
  then have "(v_bits v + 63) div 64 = int n + 1" by simp
  then have "64 * int n < v_bits v" and "v_bits v \<le> 64 * int (Suc n)" by auto
  with n show thesis
    using assms by (intro that [of n]) (auto simp: vec_ok_def)
qed

text \<open>Masking clears what is beyond the bits, and nothing else.\<close>

lemma mask_words [simp]:
  "length (v_words (maskUnusedBits v)) = length (v_words v)" "v_bits (maskUnusedBits v) = v_bits v"
  by (simp_all add: maskUnusedBits_def Let_def)

lemma mask_bits:
  assumes "length (v_words v) = nat ((v_bits v + 63) div 64)" and "0 < v_bits v"
    and "i < 64 * length (v_words v)"
  shows "vec_bit (maskUnusedBits v) i \<longleftrightarrow> vec_bit v i \<and> int i < v_bits v"
proof -
  obtain n where n: "length (v_words v) = Suc n" and lo: "64 * int n < v_bits v" and hi: "v_bits v \<le> 64 * int (Suc n)"
  proof -
    have "0 < nat ((v_bits v + 63) div 64)" using assms(2) by simp
    then obtain n where n: "nat ((v_bits v + 63) div 64) = Suc n"
      by (cases "nat ((v_bits v + 63) div 64)") auto
    then have "(v_bits v + 63) div 64 = int n + 1" by simp
    then have "64 * int n < v_bits v" and "v_bits v \<le> 64 * int (Suc n)" by auto
    with n assms(1) that show thesis by simp
  qed
  define u where "u = nat (int (Suc n) * 64 - v_bits v)"
  have u: "int u = 64 * int (Suc n) - v_bits v" "u < 64"
    using lo hi by (auto simp: u_def)
  have i: "i = 64 * (i div 64) + i mod 64" "i mod 64 < 64" by simp_all
  have last: "i div 64 = n \<Longrightarrow> i mod 64 + u < 64 \<longleftrightarrow> int i < v_bits v"
    using u i by presburger
  have before: "i div 64 < n \<Longrightarrow> int i < v_bits v"
    using lo by linarith
  show ?thesis
  proof (cases "u = 0")
    case True
    then have "maskUnusedBits v = v"
      using u by (simp add: maskUnusedBits_def Let_def n)
    moreover have "int i < v_bits v"
      using assms(3) u(1) True n by simp
    ultimately show ?thesis by simp
  next
    case False
    then have "maskUnusedBits v = v\<lparr>v_words := (v_words v)[n := (v_words v ! n) AND drop_bit u (NOT 0)]\<rparr>"
      using u by (simp add: maskUnusedBits_def Let_def n u_def)
    moreover have "i div 64 \<le> n"
      using assms(3) n by linarith
    ultimately show ?thesis
      using last before n i(2)
      by (cases "i div 64 = n") (auto simp: vec_bit_def bit_and_iff bit_mask_iff nth_list_update)
  qed
qed

lemma mask_ok:
  assumes "0 < v_bits v" and "length (v_words v) = nat ((v_bits v + 63) div 64)"
  shows "vec_ok (maskUnusedBits v)"
  using assms mask_bits [OF assms(2,1)] by (simp add: vec_ok_def)

lemma vec_eqI:
  assumes "vec_ok a" and "vec_ok b" and "v_bits a = v_bits b"
    and "\<And>i. int i < v_bits a \<Longrightarrow> vec_bit a i = vec_bit b i"
  shows "a = b"
proof -
  have len: "length (v_words a) = length (v_words b)"
    using assms by (simp add: vec_ok_def)
  have bits: "vec_bit a i = vec_bit b i" if "i < 64 * length (v_words a)" for i
    using assms that len unfolding vec_ok_def by metis
  have "v_words a = v_words b"
  proof (rule nth_equalityI [OF len], rule bit_word_eqI)
    fix k j
    assume "k < length (v_words a)" and "j < LENGTH(64)"
    then show "bit (v_words a ! k) j = bit (v_words b ! k) j"
      using bits [of "64 * k + j"] by (simp add: vec_bit_def)
  qed
  with assms(3) show ?thesis by simp
qed

section \<open>Constructors\<close>

lemma NewZero_ok: "NewZero bits = Inr v \<Longrightarrow> vec_ok v \<and> v_bits v = bits"
  by (auto simp: NewZero_def vec_ok_def vec_bit_def split: if_splits)

lemma length_xorshift_words [simp]: "length (xorshift_words n x) = n"
  by (induction n arbitrary: x) (simp_all add: Let_def)

lemma NewRandom_ok: "NewRandom bits seed = Inr v \<Longrightarrow> vec_ok v \<and> v_bits v = bits"
  by (auto simp: NewRandom_def NewZero_def split: if_splits intro!: mask_ok)

text \<open>Each of the three shifts and the multiplication by an odd number can be undone.\<close>

lemma xor_drop_inj:
  fixes x y :: uint64
  assumes "0 < k" and "x XOR drop_bit k x = y XOR drop_bit k y"
  shows "x = y"
proof -
  have step: "bit x n = bit y n" if "bit x (n + k) = bit y (n + k)" for n
  proof (cases "n < 64")
    case True
    have "bit (x XOR drop_bit k x) n = bit (y XOR drop_bit k y) n"
      using assms(2) by simp
    with that show ?thesis by (auto simp: bit_simps add.commute)
  next
    case False
    then show ?thesis by (auto dest: bit_imp_le_length)
  qed
  have "bit x n = bit y n" for n
  proof (induction "64 - n" arbitrary: n rule: less_induct)
    case less
    show ?case
    proof (cases "n < 64")
      case True
      then have "64 - (n + k) < 64 - n"
        using assms(1) by linarith
      then show ?thesis
        using less step by blast
    next
      case False
      then show ?thesis by (auto dest: bit_imp_le_length)
    qed
  qed
  then show ?thesis by (intro bit_word_eqI) simp
qed

lemma xor_push_inj:
  fixes x y :: uint64
  assumes "0 < k" and "x XOR push_bit k x = y XOR push_bit k y"
  shows "x = y"
proof (rule bit_word_eqI)
  fix n
  assume n: "n < LENGTH(64)"
  then show "bit x n = bit y n"
  proof (induction n rule: less_induct)
    case (less n)
    have "bit (x XOR push_bit k x) n = bit (y XOR push_bit k y) n"
      using assms(2) by simp
    moreover have "k \<le> n \<Longrightarrow> bit x (n - k) = bit y (n - k)"
      using less assms(1) by simp
    ultimately show ?case
      using less.prems by (auto simp: bit_simps)
  qed
qed

lemma xorshift64star_inj: "xorshift64star x = xorshift64star y \<longleftrightarrow> x = y"
proof
  have mult: "a = b" if "a * 2685821657736338717 = b * 2685821657736338717" for a b :: uint64
  proof -
    have inv: "(2685821657736338717 :: uint64) * 0x59071d96d81ecd35 = 1"
      by (rule word_uint_eqI) (simp add: uint_numeral del: uint_bintrunc)
    have "c = c * 2685821657736338717 * 0x59071d96d81ecd35" for c :: uint64
      unfolding mult.assoc inv by (rule mult_1_right [symmetric])
    with that show ?thesis by metis
  qed
  define f1 f2 :: "uint64 \<Rightarrow> uint64"
    where "f1 z = z XOR drop_bit 12 z" and "f2 z = z XOR push_bit 25 z" for z
  assume "xorshift64star x = xorshift64star y"
  then have "f2 (f1 x) XOR drop_bit 27 (f2 (f1 x)) = f2 (f1 y) XOR drop_bit 27 (f2 (f1 y))"
    unfolding xorshift64star_def Let_def f1_def f2_def by (rule mult)
  then have "f2 (f1 x) = f2 (f1 y)"
    by (rule xor_drop_inj [rotated]) simp
  then have "f1 x = f1 y"
    unfolding f2_def by (rule xor_push_inj [rotated]) simp
  then show "x = y"
    unfolding f1_def by (rule xor_drop_inj [rotated]) simp
qed simp

lemma xorshift64star_zero: "xorshift64star x = 0 \<longleftrightarrow> x = 0"
  using xorshift64star_inj [of x 0] by (simp add: xorshift64star_def)

section \<open>What the operations compute\<close>

lemma BindXOR_ok:
  assumes "vec_ok a" and "vec_ok b" and "v_bits a = v_bits b"
  obtains c where "BindXOR a b = Inr c" "vec_ok c" "v_bits c = v_bits a"
    "\<And>i. int i < v_bits a \<Longrightarrow> vec_bit c i \<longleftrightarrow> vec_bit a i \<noteq> vec_bit b i"
proof -
  have len: "length (v_words a) = length (v_words b)" "length (v_words a) = nat ((v_bits a + 63) div 64)"
    and pos: "0 < v_bits a"
    using assms by (simp_all add: vec_ok_def)
  let ?r = "a\<lparr>v_words := map2 (XOR) (v_words a) (v_words b)\<rparr>"
  have lenr: "length (v_words ?r) = nat ((v_bits ?r + 63) div 64)" and posr: "0 < v_bits ?r"
    using len pos by simp_all
  have "vec_bit (maskUnusedBits ?r) i \<longleftrightarrow> vec_bit a i \<noteq> vec_bit b i" if "int i < v_bits a" for i
  proof -
    have "i < 64 * length (v_words ?r)"
      using that lenr by simp
    moreover from this have "i div 64 < length (v_words a)" and "i div 64 < length (v_words b)"
      using len by simp_all
    ultimately show ?thesis
      using that mask_bits [OF lenr posr] by (simp add: vec_bit_def bit_xor_iff)
  qed
  moreover have "BindXOR a b = Inr (maskUnusedBits ?r)"
    using assms(3) len by (simp add: BindXOR_def)
  moreover have "vec_ok (maskUnusedBits ?r)"
    using mask_ok [OF posr lenr] .
  ultimately show thesis
    by (intro that [of "maskUnusedBits ?r"]) simp_all
qed

text \<open>The vote over one word, bit by bit.\<close>

definition votes :: "Vector list \<Rightarrow> nat \<Rightarrow> nat" where
  "votes vs i = length (filter (\<lambda>v. vec_bit v i) vs)"

lemma and_push_1: "w AND push_bit j 1 \<noteq> 0 \<longleftrightarrow> bit w j" for w :: uint64
proof -
  have "bit (w AND push_bit j 1) i \<longleftrightarrow> bit w j \<and> i = j" for i
    by (auto simp: bit_and_iff bit_exp_iff dest: bit_imp_le_length)
  then show ?thesis
    using bit_eq_iff [of "w AND push_bit j 1" 0] bit_imp_le_length [of w j] by auto
qed

lemma fold_or_bits:
  "bit (fold (\<lambda>bi w. if P bi then w OR push_bit bi 1 else w) is (w :: uint64)) j \<longleftrightarrow>
     bit w j \<or> (j < 64 \<and> j \<in> set is \<and> P j)"
  by (induction "is" arbitrary: w) (auto simp: bit_simps)

lemma majority_bit:
  assumes "j < 64"
  shows "bit (majority_word vs t wi) j \<longleftrightarrow> t \<le> votes vs (64 * wi + j)"
proof -
  have "votes vs (64 * wi + j) = length (filter (\<lambda>v. (v_words v ! wi) AND push_bit j 1 \<noteq> 0) vs)"
    using assms by (simp only: votes_def vec_bit_def and_push_1) simp
  then show ?thesis
    using assms unfolding majority_word_def Let_def fold_or_bits by simp
qed

lemma BundleMajority_ok:
  assumes "odd (length vs)" and "\<forall>v \<in> set vs. vec_ok v \<and> v_bits v = n"
  obtains c where "BundleMajority vs = Inr c" "vec_ok c" "v_bits c = n"
    "\<And>i. int i < n \<Longrightarrow> vec_bit c i \<longleftrightarrow> length vs < 2 * votes vs i"
proof -
  have ne: "vs \<noteq> []" and "vs ! 0 \<in> set vs"
    using assms(1) by (cases vs; auto)+
  then have v0: "vec_ok (vs ! 0)" "v_bits (vs ! 0) = n"
    using assms(2) by simp_all
  let ?k = "nat ((n + 63) div 64)" and ?t = "length vs div 2 + 1"
  let ?r = "\<lparr>v_words = map (majority_word vs ?t) [0..<?k], v_bits = n\<rparr>"
  have len: "length (v_words v) = ?k" if "v \<in> set vs" for v
    using that assms(2) by (auto simp: vec_ok_def)
  have pos: "0 < n"
    using v0 by (simp add: vec_ok_def)
  have "BundleMajority vs = Inr (maskUnusedBits ?r)"
    using ne assms len v0 pos \<open>vs ! 0 \<in> set vs\<close>
    by (simp add: BundleMajority_def Let_def NewZero_def) (auto simp: even_iff_mod_2_eq_zero)
  moreover have lenr: "length (v_words ?r) = nat ((v_bits ?r + 63) div 64)" and posr: "0 < v_bits ?r"
    using pos by simp_all
  have "vec_bit (maskUnusedBits ?r) i \<longleftrightarrow> length vs < 2 * votes vs i" if "int i < n" for i
  proof -
    have i: "i < 64 * length (v_words ?r)"
      using that by simp
    then have "i div 64 < ?k" by simp
    then have "vec_bit ?r i \<longleftrightarrow> ?t \<le> votes vs i"
      by (simp add: vec_bit_def majority_bit)
    then show ?thesis
      using that mask_bits [OF lenr posr i] assms(1) by (auto elim!: oddE)
  qed
  ultimately show thesis
    using mask_ok [OF posr lenr] mask_words(2) [of ?r]
    by (intro that [of "maskUnusedBits ?r"]) (simp_all del: mask_words)
qed

section \<open>The binary form\<close>

lemma read_words_concat [byte_simps]:
  "read_words (length ws) (concat (map (put_le 8) ws)) = ws"
  by (induction ws) (simp_all add: get_put_le)

lemma length_concat_words: "length (concat (map (put_le 8) ws)) = 8 * length (ws :: uint64 list)"
  by (induction ws) simp_all

lemma mask_id:
  assumes "vec_ok v"
  shows "maskUnusedBits v = v"
proof (rule vec_eqI [OF _ assms])
  have v: "0 < v_bits v" "length (v_words v) = nat ((v_bits v + 63) div 64)"
    using assms by (simp_all add: vec_ok_def)
  then show "vec_ok (maskUnusedBits v)" by (rule mask_ok)
  fix i
  assume "int i < v_bits (maskUnusedBits v)"
  moreover from this have "i < 64 * length (v_words v)"
    using v(2) by simp
  ultimately show "vec_bit (maskUnusedBits v) i = vec_bit v i"
    using mask_bits [OF v(2,1)] by simp
qed simp

lemma sint_word_of_int: "- (2 ^ 63) \<le> n \<Longrightarrow> n < 2 ^ 63 \<Longrightarrow> sint (word_of_int n :: uint64) = n"
  by (simp add: signed_of_int signed_take_bit_int_eq_self)

text \<open>Reading back what was written masks it, and checks nothing more.\<close>

lemma unmarshal_marshal:
  assumes "0 < v_bits v" and "v_bits v < 2 ^ 63" and "v_words v \<noteq> []" and "length (v_words v) \<le> 2 ^ 45"
  shows "UnmarshalBinary (MarshalBinary v) = Inr (maskUnusedBits v)"
proof -
  let ?n = "length (v_words v)"
  have bits: "sint (word_of_int (v_bits v) :: uint64) = v_bits v"
    using assms by (intro sint_word_of_int) auto
  have words: "sint (word_of_int (int ?n) :: uint64) = int ?n"
    using assms(4) by (intro sint_word_of_int) auto
  have hdr: "take 8 (MarshalBinary v) = put_le 8 (word_of_int (v_bits v) :: uint64)"
      "take 8 (drop 8 (MarshalBinary v)) = put_le 8 (word_of_int (int ?n) :: uint64)"
      "drop 16 (MarshalBinary v) = concat (map (put_le 8) (v_words v))"
    by (simp_all add: MarshalBinary_def)
  have len: "length (MarshalBinary v) = 16 + 8 * ?n"
    unfolding MarshalBinary_def by (simp add: length_concat_words)
  have "(word_of_nat (length (MarshalBinary v)) :: uint64) = 16 + 8 * word_of_int (int ?n)"
    unfolding len by simp
  moreover have "maskUnusedBits \<lparr>v_words = v_words v, v_bits = v_bits v\<rparr> = maskUnusedBits v"
    by (cases v) simp
  ultimately show ?thesis
    using assms bits words len
    by (simp add: UnmarshalBinary_def Let_def hdr get_put_le read_words_concat del: of_nat_add of_nat_mult)
qed

section \<open>Similarity\<close>

definition hamming :: "Vector \<Rightarrow> Vector \<Rightarrow> nat" where
  "hamming a b = card {i. int i < v_bits a \<and> vec_bit a i \<noteq> vec_bit b i}"

lemma upt_64_Suc: "[0..<64 + 64 * n] = [0..<64] @ map ((+) 64) [0..<64 * n]"
proof -
  have "[0..<64 + 64 * n] = [0..<64] @ [64..<64 + 64 * n]"
    using upt_add_eq_append [of 0 64 "64 * n"] by simp
  moreover have "[64..<64 + 64 * n] = map ((+) 64) [0..<64 * n]"
    by (rule nth_equalityI) (simp_all del: upt_Suc)
  ultimately show ?thesis by (simp only:)
qed

lemma ones_xor_bits:
  "length as = length bs \<Longrightarrow>
    sum_list (map2 (\<lambda>x y. OnesCount64 (x XOR y)) as bs) =
    length (filter (\<lambda>i. bit (as ! (i div 64)) (i mod 64) \<noteq> bit (bs ! (i div 64)) (i mod 64))
      [0..<64 * length as])"
proof (induction as bs rule: list_induct2)
  case (Cons a as b bs)
  have shift: "(64 + i) div 64 = Suc (i div 64)" "(64 + i) mod 64 = i mod 64" for i :: nat
    by simp_all
  have "filter (bit (a XOR b)) [0..<64] = filter (\<lambda>i. bit a i \<noteq> bit b i) [0..<64]"
    by (rule filter_cong) (simp_all add: bit_xor_iff)
  then show ?case
    using Cons.IH
    by (simp add: upt_64_Suc OnesCount64_def filter_map comp_def shift cong: filter_cong del: upt_Suc)
      (rule arg_cong [of _ _ length], rule filter_cong; simp)
qed simp

lemma diff_hamming:
  assumes "vec_ok a" and "vec_ok b" and "v_bits a = v_bits b"
  shows "sum_list (map2 (\<lambda>x y. OnesCount64 (x XOR y)) (v_words a) (v_words b)) = hamming a b"
proof -
  let ?P = "\<lambda>i. vec_bit a i \<noteq> vec_bit b i"
  have len: "length (v_words a) = length (v_words b)"
    using assms by (simp add: vec_ok_def)
  have "{i. int i < v_bits a \<and> ?P i} = set (filter ?P [0..<64 * length (v_words a)])"
  proof -
    have "int i < v_bits a" if "i < 64 * length (v_words a)" and "?P i" for i
      using assms that len unfolding vec_ok_def by metis
    moreover have "i < 64 * length (v_words a)" if "int i < v_bits a" for i
    proof -
      have "length (v_words a) = nat ((v_bits a + 63) div 64)"
        using assms(1) by (simp add: vec_ok_def)
      with that show ?thesis by linarith
    qed
    ultimately show ?thesis by auto
  qed
  then have "hamming a b = length (filter ?P [0..<64 * length (v_words a)])"
    unfolding hamming_def by (simp only: distinct_card distinct_filter distinct_upt)
  then show ?thesis
    by (simp add: ones_xor_bits [OF len] vec_bit_def)
qed

lemma hamming_le: "0 < v_bits a \<Longrightarrow> int (hamming a b) \<le> v_bits a"
proof -
  assume "0 < v_bits a"
  have "card {i. int i < v_bits a \<and> vec_bit a i \<noteq> vec_bit b i} \<le> card {..<nat (v_bits a)}"
    by (rule card_mono) auto
  with \<open>0 < v_bits a\<close> show ?thesis by (simp add: hamming_def)
qed

lemma hamming_0_iff:
  assumes "vec_ok a" and "vec_ok b" and "v_bits a = v_bits b"
  shows "hamming a b = 0 \<longleftrightarrow> a = b"
proof
  have "finite {i. int i < v_bits a \<and> vec_bit a i \<noteq> vec_bit b i}"
    by (rule finite_subset [of _ "{..<nat (v_bits a)}"]) auto
  moreover assume "hamming a b = 0"
  ultimately have "{i. int i < v_bits a \<and> vec_bit a i \<noteq> vec_bit b i} = {}"
    by (simp add: hamming_def)
  then show "a = b"
    by (intro vec_eqI assms) blast
qed (simp add: hamming_def)

lemma Similarity_hamming:
  assumes "vec_ok a" and "vec_ok b" and "v_bits a = v_bits b"
  shows "Similarity a b =
    Inr (f64 (1 - f64 (f64 (rat_of_nat (hamming a b)) / f64 (rat_of_int (v_bits a)))))"
proof -
  have "length (v_words a) = length (v_words b)" and "v_bits a \<noteq> 0"
    using assms by (simp_all add: vec_ok_def)
  then show ?thesis
    using assms(3) by (simp add: Similarity_def Let_def diff_hamming [OF assms])
qed

section \<open>Properties of the vectors\<close>

lemma vec_bits_pos: "vec_ok v \<Longrightarrow> 0 < v_bits v"
  by (simp add: vec_ok_def)

lemma BindXOR_eq:
  assumes "vec_ok a" and "vec_ok b" and "v_bits a = v_bits b" and "vec_ok c" and "v_bits c = v_bits a"
    and "\<And>i. int i < v_bits a \<Longrightarrow> vec_bit c i \<longleftrightarrow> vec_bit a i \<noteq> vec_bit b i"
  shows "BindXOR a b = Inr c"
proof -
  obtain d where d: "BindXOR a b = Inr d" "vec_ok d" "v_bits d = v_bits a"
    "\<And>i. int i < v_bits a \<Longrightarrow> vec_bit d i \<longleftrightarrow> vec_bit a i \<noteq> vec_bit b i"
    using assms by (auto elim: BindXOR_ok)
  have "d = c"
    using d(2-4) assms by (intro vec_eqI) auto
  with d show ?thesis by simp
qed

text \<open>
  On well-formed vectors of equal dimension, \<open>BindXOR\<close> succeeds with a well-formed vector, does
  not depend on the order of its arguments, and is undone by binding with the same vector again.
\<close>

theorem BindXOR_involution:
  assumes "vec_ok a" and "vec_ok b" and "v_bits a = v_bits b"
  shows "\<exists>c. BindXOR a b = Inr c \<and> BindXOR b a = Inr c \<and> vec_ok c \<and> v_bits c = v_bits a \<and>
    BindXOR c b = Inr a \<and> BindXOR c a = Inr b"
proof -
  obtain c where c: "BindXOR a b = Inr c" "vec_ok c" "v_bits c = v_bits a"
    "\<And>i. int i < v_bits a \<Longrightarrow> vec_bit c i \<longleftrightarrow> vec_bit a i \<noteq> vec_bit b i"
    using assms by (auto elim: BindXOR_ok)
  have "BindXOR b a = Inr c" and "BindXOR c b = Inr a" and "BindXOR c a = Inr b"
    using assms c by (intro BindXOR_eq; auto)+
  with c show ?thesis by blast
qed

theorem BindXOR_involution_witness:
  "\<exists>c. BindXOR \<lparr>v_words = [5], v_bits = 3\<rparr> \<lparr>v_words = [6], v_bits = 3\<rparr> = Inr c \<and>
    BindXOR c \<lparr>v_words = [6], v_bits = 3\<rparr> = Inr \<lparr>v_words = [5], v_bits = 3\<rparr>"
proof -
  have ok: "vec_ok \<lparr>v_words = [w], v_bits = 3\<rparr>" if "w AND mask 3 = w" for w :: uint64
  proof -
    have "bit w i \<Longrightarrow> i < 3" for i
      using arg_cong [OF that, of "\<lambda>w. bit w i"] by (auto simp: bit_and_iff bit_mask_iff)
    then show ?thesis by (auto simp: vec_ok_def vec_bit_def)
  qed
  have "vec_ok \<lparr>v_words = [5], v_bits = 3\<rparr>" and "vec_ok \<lparr>v_words = [6], v_bits = 3\<rparr>"
    by (rule ok, simp add: mask_eq_exp_minus_1)+
  from BindXOR_involution [OF this] show ?thesis by auto
qed

text \<open>
  C37: On an odd number of well-formed vectors of equal dimension, \<open>BundleMajority\<close> returns the
  well-formed vector in which a bit is set exactly where it is set in more than half of them.
\<close>

theorem BundleMajority_votes:
  assumes "odd (length vs)" and "\<forall>v \<in> set vs. vec_ok v \<and> v_bits v = n"
  shows "\<exists>c. BundleMajority vs = Inr c \<and> vec_ok c \<and> v_bits c = n \<and>
    (\<forall>i. int i < n \<longrightarrow> vec_bit c i = (length vs < 2 * length (filter (\<lambda>v. vec_bit v i) vs)))"
proof -
  show ?thesis
    by (rule BundleMajority_ok [OF assms]) (auto simp: votes_def)
qed

theorem BundleMajority_votes_witness:
  "\<exists>c. BundleMajority [\<lparr>v_words = [0], v_bits = 1\<rparr>] = Inr c \<and> \<not> vec_bit c 0"
proof -
  have "\<forall>v \<in> set [\<lparr>v_words = [0], v_bits = 1\<rparr>]. vec_ok v \<and> v_bits v = 1"
    by (simp add: vec_ok_def vec_bit_def)
  from BundleMajority_votes [OF _ this] show ?thesis
    by (auto simp: vec_bit_def)
qed

text \<open>
  The similarity of two well-formed vectors of equal dimension is a number between 0 and 1,
  whatever the rounding does; up to \<open>2 ^ 52\<close> bits it is 1 only for equal vectors.
\<close>

theorem Similarity_bounds:
  assumes "vec_ok a" and "vec_ok b" and "v_bits a = v_bits b" and "v_bits a \<le> 2 ^ 52"
  shows "\<exists>s. Similarity a b = Inr s \<and> 0 \<le> s \<and> s \<le> 1 \<and> (s = 1 \<longleftrightarrow> a = b)"
proof -
  let ?n = "v_bits a" and ?h = "hamming a b"
  let ?q = "rat_of_nat ?h / rat_of_int ?n"
  have n: "0 < ?n"
    using assms(1) by (rule vec_bits_pos)
  have h: "int ?h \<le> ?n"
    using n by (rule hamming_le)
  have hn: "rat_of_nat ?h \<le> rat_of_int ?n"
    using h of_int_le_iff [of "int ?h" ?n, where ?'a = rat] by simp
  have fn: "f64 (rat_of_int ?n) = rat_of_int ?n"
    using n assms(4) by (rule f64_of_int)
  have fh: "f64 (rat_of_nat ?h) = rat_of_nat ?h"
    using f64_of_int [of "int ?h"] h assms(4) by (cases "?h = 0") simp_all
  have q: "0 \<le> ?q" "?q \<le> 1"
    using n hn by (simp_all add: divide_le_eq)
  have sim: "Similarity a b = Inr (f64 (1 - f64 ?q))"
    using Similarity_hamming [OF assms(1-3)] by (simp add: fh fn)
  have range: "0 \<le> f64 (1 - f64 ?q)" "f64 (1 - f64 ?q) \<le> 1"
    using f64_nonneg [OF q(1)] f64_le_1 [OF q] by (auto intro: f64_nonneg f64_le_1)
  have "f64 (1 - f64 ?q) < 1" if "a \<noteq> b"
  proof -
    have "0 < ?h"
      using that hamming_0_iff [OF assms(1-3)] by auto
    have "rat_of_int ?n \<le> 2 ^ 52"
      using assms(4) of_int_le_iff [of ?n "2 ^ 52", where ?'a = rat] by simp
    then have "1 / 2 ^ 52 \<le> ?q"
      using \<open>0 < ?h\<close> n by (simp add: frac_le)
    then have "1 / 2 ^ 52 \<le> f64 ?q"
      by (rule f64_ge_pow) (use q in simp_all)
    then have "f64 (1 - f64 ?q) \<le> 1 - 1 / 2 ^ 52"
      using f64_le_1 [OF q] by (intro f64_le_pow) simp_all
    then show ?thesis by (rule le_less_trans) simp
  qed
  moreover have "f64 (1 - f64 ?q) = 1" if "a = b"
    using that hamming_0_iff [OF assms(1-3)] by simp
  ultimately have "f64 (1 - f64 ?q) = 1 \<longleftrightarrow> a = b" by fastforce
  then show ?thesis
    using sim range by blast
qed

theorem Similarity_bounds_witness:
  "\<exists>s. Similarity \<lparr>v_words = [1], v_bits = 1\<rparr> \<lparr>v_words = [0], v_bits = 1\<rparr> = Inr s \<and> 0 \<le> s \<and> s < 1"
proof -
  have "vec_ok \<lparr>v_words = [1], v_bits = 1\<rparr>" and "vec_ok \<lparr>v_words = [0], v_bits = 1\<rparr>"
    by (auto simp: vec_ok_def vec_bit_def bit_1_iff)
  from Similarity_bounds [OF this] show ?thesis by auto
qed

text \<open>
  \<open>UnmarshalBinary\<close> reads back what \<open>MarshalBinary\<close> wrote, for every well-formed vector of up to
  \<open>2 ^ 50\<close> bits.
\<close>

theorem vector_binary_roundtrip:
  assumes v: "vec_ok v \<and> v_bits v \<le> 2 ^ 50"
  shows "UnmarshalBinary (MarshalBinary v) = Inr v"
proof -
  obtain m where m: "length (v_words v) = Suc m" "64 * int m < v_bits v"
    using v vec_wordsE by blast
  then have "length (v_words v) \<le> 2 ^ 45" and "v_words v \<noteq> []"
    using v by auto
  then show "UnmarshalBinary (MarshalBinary v) = Inr v"
    using v by (simp add: unmarshal_marshal mask_id vec_bits_pos)
qed

theorem vector_binary_roundtrip_witness:
  "UnmarshalBinary (MarshalBinary \<lparr>v_words = [1], v_bits = 1\<rparr>) = Inr \<lparr>v_words = [1], v_bits = 1\<rparr>"
  by (rule vector_binary_roundtrip) (auto simp: vec_ok_def vec_bit_def bit_1_iff)

text \<open>
  \<open>UnmarshalBinary\<close> accepts more: a header whose number of words does not fit its number of bits
  makes a vector on which \<open>Similarity\<close> leaves the interval from 0 to 1 and \<open>BundleMajority\<close> panics.
\<close>

theorem unmarshal_unchecked:
  "\<exists>b z x y. UnmarshalBinary b = Inr x \<and> UnmarshalBinary z = Inr y \<and> \<not> vec_ok x \<and>
      Similarity x y = Inr (- 63) \<and> BundleMajority [x] = Inl (GoPanic ''index out of range'')"
proof -
  let ?x = "\<lparr>v_words = [- 1, 0], v_bits = 1\<rparr>" and ?y = "\<lparr>v_words = [0, 0], v_bits = 1\<rparr>"
  have "maskUnusedBits ?x = ?x" and "maskUnusedBits ?y = ?y"
    by (simp_all add: maskUnusedBits_def Let_def)
  then have un: "UnmarshalBinary (MarshalBinary ?x) = Inr ?x" "UnmarshalBinary (MarshalBinary ?y) = Inr ?y"
    by (simp_all add: unmarshal_marshal)
  have ones: "OnesCount64 (- 1) = 64" "OnesCount64 0 = 0"
    by (simp_all add: OnesCount64_def)
  have "f64 64 = 64"
    using f64_of_int [of 64] by simp
  moreover have "f64 (- 63) = - 63" by code_simp
  ultimately have "Similarity ?x ?y = Inr (- 63)"
    by (simp add: Similarity_def ones)
  moreover have "BundleMajority [?x] = Inl (GoPanic ''index out of range'')"
    by (simp add: BundleMajority_def NewZero_def)
  moreover have "\<not> vec_ok ?x"
    by (simp add: vec_ok_def)
  ultimately show ?thesis
    using un by blast
qed

end
