(* ===== verification/Space.thy ===== *)
theory Space
  imports Vsa
begin

text \<open>
  Package \<open>vsa\<close>, the concept space of \<open>space.go\<close>: a cache of the vectors of the symbols met so far,
  each generated from the FNV-1a hash of its symbol. \<open>space_ok\<close> says that the cache holds nothing
  else, so that what the operations return does not depend on it.
\<close>

section \<open>The space\<close>

record Space =
  sp_dims :: int
  sp_vecs :: "(string, Vector) gomap"

definition DefaultDims :: int where
  "DefaultDims = 10000"

definition NewSpace :: "int \<Rightarrow> Space" where
  "NewSpace dims = \<lparr>sp_dims = (if dims \<le> 0 then DefaultDims else dims), sp_vecs = []\<rparr>"

text \<open>\<open>hash/fnv\<close>, the 64-bit FNV-1a hash.\<close>

definition fnv1a :: "bytes \<Rightarrow> uint64" where
  "fnv1a b = fold (\<lambda>c h. (h XOR ucast c) * 1099511628211) b 14695981039346656037"

definition symbolSeed :: "string \<Rightarrow> uint64" where
  "symbolSeed s = (let v = fnv1a (to_bytes s) in if v = 0 then 1 else v)"

text \<open>The value of a call whose error is discarded.\<close>

definition discard_error :: "go_error + Vector \<Rightarrow> Vector" where
  "discard_error r = (case r of Inl _ \<Rightarrow> \<lparr>v_words = [], v_bits = 0\<rparr> | Inr v \<Rightarrow> v)"

definition Encode :: "string \<Rightarrow> Space \<Rightarrow> Vector \<times> Space" where
  "Encode symbol s =
     (case go_get (sp_vecs s) symbol of
        Some v \<Rightarrow> (v, s)
      | None \<Rightarrow>
          (let v = discard_error (NewRandom (sp_dims s) (symbolSeed symbol))
           in (v, s\<lparr>sp_vecs := go_put symbol v (sp_vecs s)\<rparr>)))"

definition EncodeTuple :: "string \<Rightarrow> string \<Rightarrow> string \<Rightarrow> Space \<Rightarrow> Vector \<times> Space" where
  "EncodeTuple fr predicate to s =
     (let (roleFrom, s1) = Encode ''__role_from'' s;
          (rolePred, s2) = Encode ''__role_pred'' s1;
          (roleTo, s3) = Encode ''__role_to'' s2;
          (vFrom, s4) = Encode fr s3;
          (vPred, s5) = Encode predicate s4;
          (vTo, s6) = Encode to s5;
          bFrom = discard_error (BindXOR roleFrom vFrom);
          bPred = discard_error (BindXOR rolePred vPred);
          bTo = discard_error (BindXOR roleTo vTo);
          r1 = discard_error (BindXOR bFrom bPred);
          r2 = discard_error (BindXOR r1 bTo)
      in (r2, s6))"

record Match =
  m_symbol :: string
  m_similarity :: rat

definition match_less :: "Match \<Rightarrow> Match \<Rightarrow> bool" where
  "match_less x y =
     (if m_similarity x \<noteq> m_similarity y then m_similarity x > m_similarity y
      else m_symbol x < m_symbol y)"

definition all_matches :: "Vector \<Rightarrow> Space \<Rightarrow> Match list" where
  "all_matches query s =
     List.map_filter (\<lambda>(name, v).
       (case Similarity query v of
          Inl _ \<Rightarrow> None
        | Inr sim \<Rightarrow> Some \<lparr>m_symbol = name, m_similarity = sim\<rparr>)) (sp_vecs s)"

definition Nearest :: "Vector \<Rightarrow> int \<Rightarrow> Space \<Rightarrow> go_error + Match list" where
  "Nearest query k s =
     (let matches = sort_slice match_less (all_matches query s);
          k' = (if k > int (length matches) then int (length matches) else k)
      in if k' < 0 then Inl (GoPanic ''slice bounds out of range'') else Inr (take (nat k') matches))"

section \<open>The invariant\<close>

definition symbol_vector :: "int \<Rightarrow> string \<Rightarrow> Vector" where
  "symbol_vector dims symbol = discard_error (NewRandom dims (symbolSeed symbol))"

definition space_ok :: "Space \<Rightarrow> bool" where
  "space_ok s \<longleftrightarrow>
     0 < sp_dims s \<and> go_keys_distinct (sp_vecs s) \<and>
     (\<forall>(name, v) \<in> set (sp_vecs s). v = symbol_vector (sp_dims s) name)"

lemma space_ok_New [simp]: "space_ok (NewSpace dims)"
  by (simp add: space_ok_def NewSpace_def DefaultDims_def)

lemma symbol_vector_ok:
  assumes "0 < dims"
  shows "vec_ok (symbol_vector dims name) \<and> v_bits (symbol_vector dims name) = dims"
proof -
  obtain v where "NewRandom dims (symbolSeed name) = Inr v"
    using assms by (auto simp: NewRandom_def NewZero_def)
  with NewRandom_ok [OF this] show ?thesis
    by (simp add: symbol_vector_def discard_error_def)
qed

lemma Encode_ok:
  assumes "space_ok s"
  shows "fst (Encode name s) = symbol_vector (sp_dims s) name \<and> space_ok (snd (Encode name s)) \<and>
    sp_dims (snd (Encode name s)) = sp_dims s"
proof (cases "go_get (sp_vecs s) name")
  case None
  then show ?thesis
    using assms set_go_put_subset [of name "symbol_vector (sp_dims s) name" "sp_vecs s"]
    by (auto simp: Encode_def Let_def space_ok_def symbol_vector_def [symmetric] distinct_update)
next
  case (Some v)
  then have "(name, v) \<in> set (sp_vecs s)"
    by (rule map_of_SomeD)
  with Some assms show ?thesis
    by (auto simp: Encode_def space_ok_def)
qed

text \<open>The vector of a triple, by its bits: the exclusive or of six symbol vectors.\<close>

definition tuple_bit :: "int \<Rightarrow> string \<Rightarrow> string \<Rightarrow> string \<Rightarrow> nat \<Rightarrow> bool" where
  "tuple_bit dims a p b i =
     (\<lambda>n. odd n) (length (filter (\<lambda>s. vec_bit (symbol_vector dims s) i)
       [''__role_from'', ''__role_pred'', ''__role_to'', a, p, b]))"

definition tuple_vector :: "int \<Rightarrow> string \<Rightarrow> string \<Rightarrow> string \<Rightarrow> Vector" where
  "tuple_vector dims a p b =
     (let bind = (\<lambda>x y. discard_error (BindXOR x y))
      in bind (bind (bind (symbol_vector dims ''__role_from'') (symbol_vector dims a))
                    (bind (symbol_vector dims ''__role_pred'') (symbol_vector dims p)))
              (bind (symbol_vector dims ''__role_to'') (symbol_vector dims b)))"

lemma EncodeTuple_ok:
  assumes "space_ok s"
  shows "fst (EncodeTuple a p b s) = tuple_vector (sp_dims s) a p b \<and> space_ok (snd (EncodeTuple a p b s)) \<and>
    sp_dims (snd (EncodeTuple a p b s)) = sp_dims s"
proof -
  define s1 s2 s3 s4 s5 s6 where
    "s1 = snd (Encode ''__role_from'' s)" and "s2 = snd (Encode ''__role_pred'' s1)" and
    "s3 = snd (Encode ''__role_to'' s2)" and "s4 = snd (Encode a s3)" and
    "s5 = snd (Encode p s4)" and "s6 = snd (Encode b s5)"
  note e1 = Encode_ok [OF assms, of "''__role_from''", folded s1_def]
  note e2 = Encode_ok [OF e1 [THEN conjunct2, THEN conjunct1], of "''__role_pred''", folded s2_def]
  note e3 = Encode_ok [OF e2 [THEN conjunct2, THEN conjunct1], of "''__role_to''", folded s3_def]
  note e4 = Encode_ok [OF e3 [THEN conjunct2, THEN conjunct1], of a, folded s4_def]
  note e5 = Encode_ok [OF e4 [THEN conjunct2, THEN conjunct1], of p, folded s5_def]
  note e6 = Encode_ok [OF e5 [THEN conjunct2, THEN conjunct1], of b, folded s6_def]
  have "EncodeTuple a p b s = (tuple_vector (sp_dims s) a p b, s6)"
    using e1 e2 e3 e4 e5 e6
    by (simp add: EncodeTuple_def tuple_vector_def Let_def split_beta
        s1_def [symmetric] s2_def [symmetric] s3_def [symmetric] s4_def [symmetric]
        s5_def [symmetric] s6_def [symmetric])
  with e1 e2 e3 e4 e5 e6 show ?thesis by simp
qed

lemma bind_vec:
  assumes "vec_ok x \<and> v_bits x = d" and "vec_ok y \<and> v_bits y = d"
  shows "vec_ok (discard_error (BindXOR x y)) \<and> v_bits (discard_error (BindXOR x y)) = d"
    and "int i < d \<Longrightarrow> vec_bit (discard_error (BindXOR x y)) i \<longleftrightarrow> vec_bit x i \<noteq> vec_bit y i"
proof -
  obtain c where "BindXOR x y = Inr c" "vec_ok c" "v_bits c = d"
      "\<And>i. int i < d \<Longrightarrow> vec_bit c i \<longleftrightarrow> vec_bit x i \<noteq> vec_bit y i"
    using assms BindXOR_ok [of x y] by (metis (no_types, lifting))
  then show "vec_ok (discard_error (BindXOR x y)) \<and> v_bits (discard_error (BindXOR x y)) = d"
    and "int i < d \<Longrightarrow> vec_bit (discard_error (BindXOR x y)) i \<longleftrightarrow> vec_bit x i \<noteq> vec_bit y i"
    by (simp_all add: discard_error_def)
qed

lemma tuple_vector_ok:
  assumes "0 < dims"
  shows "vec_ok (tuple_vector dims a p b) \<and> v_bits (tuple_vector dims a p b) = dims"
  unfolding tuple_vector_def Let_def
  by (intro bind_vec(1) symbol_vector_ok assms)

lemma tuple_vector_bit:
  assumes "0 < dims" and "int i < dims"
  shows "vec_bit (tuple_vector dims a p b) i \<longleftrightarrow> tuple_bit dims a p b i"
proof -
  note ok = symbol_vector_ok [OF assms(1)]
  show ?thesis
    unfolding tuple_vector_def Let_def tuple_bit_def
    by (subst bind_vec(2) [OF _ _ assms(2)], intro bind_vec(1) ok, intro bind_vec(1) ok)+
       (auto simp: bind_vec(2) [OF ok ok assms(2)])
qed

text \<open>The roles are bound by the same commutative operation as the fillers, so they tell nothing.\<close>

lemma tuple_vector_permute:
  assumes "0 < dims" and "mset [a, p, b] = mset [a', p', b']"
  shows "tuple_vector dims a p b = tuple_vector dims a' p' b'"
proof (rule vec_eqI)
  note ok = tuple_vector_ok [OF assms(1)]
  show "vec_ok (tuple_vector dims a p b)" and "vec_ok (tuple_vector dims a' p' b')"
    and "v_bits (tuple_vector dims a p b) = v_bits (tuple_vector dims a' p' b')"
    using ok by simp_all
  fix i
  assume "int i < v_bits (tuple_vector dims a p b)"
  then have i: "int i < dims" using ok by simp
  let ?P = "\<lambda>s. vec_bit (symbol_vector dims s) i"
  have "size (filter_mset ?P (mset [a, p, b])) = size (filter_mset ?P (mset [a', p', b']))"
    by (simp only: assms(2))
  then have "length (filter ?P [a, p, b]) = length (filter ?P [a', p', b'])"
    by (simp only: mset_filter [symmetric] size_mset)
  then have "tuple_bit dims a p b i = tuple_bit dims a' p' b' i"
    unfolding tuple_bit_def by (simp split: if_splits)
  then show "vec_bit (tuple_vector dims a p b) i = vec_bit (tuple_vector dims a' p' b') i"
    by (simp only: tuple_vector_bit [OF assms(1) i])
qed

lemma tuple_vector_diagonal:
  assumes "0 < dims"
  shows "tuple_vector dims a p a = tuple_vector dims b p b"
proof (rule vec_eqI)
  note ok = tuple_vector_ok [OF assms]
  show "vec_ok (tuple_vector dims a p a)" and "vec_ok (tuple_vector dims b p b)"
    and "v_bits (tuple_vector dims a p a) = v_bits (tuple_vector dims b p b)"
    using ok by simp_all
  fix i
  assume "int i < v_bits (tuple_vector dims a p a)"
  then have i: "int i < dims" using ok by simp
  have "tuple_bit dims a p a i = tuple_bit dims b p b i"
    by (simp add: tuple_bit_def)
  then show "vec_bit (tuple_vector dims a p a) i = vec_bit (tuple_vector dims b p b) i"
    by (simp only: tuple_vector_bit [OF assms i])
qed

section \<open>Searching\<close>

interpretation match_sort: total_less match_less "\<lambda>m. (- m_similarity m, m_symbol m)"
proof
  show "match_less x y \<longleftrightarrow> (- m_similarity x, m_symbol x) < (- m_similarity y, m_symbol y)" for x y
    by (auto simp: match_less_def)
  show "inj (\<lambda>m :: Match. (- m_similarity m, m_symbol m))"
    by (rule injI) simp
qed

lemma set_map_filter_eq: "set (List.map_filter f xs) = {y. \<exists>x \<in> set xs. f x = Some y}"
  by (induction xs) (auto simp: map_filter_simps split: option.splits)

lemma all_matches_ok:
  assumes "space_ok s" and "vec_ok q" and "v_bits q = sp_dims s"
  shows "all_matches q s =
    map (\<lambda>(name, v). \<lparr>m_symbol = name, m_similarity = (case Similarity q v of Inr x \<Rightarrow> x)\<rparr>) (sp_vecs s)"
proof -
  have sim: "\<exists>x. Similarity q v = Inr x" if "(name, v) \<in> set (sp_vecs s)" for name v
  proof -
    have "v = symbol_vector (sp_dims s) name" and "0 < sp_dims s"
      using assms(1) that by (auto simp: space_ok_def)
    then show ?thesis
      using Similarity_hamming [OF assms(2)] symbol_vector_ok assms(3) by auto
  qed
  have "List.map_filter (\<lambda>(name, v).
       (case Similarity q v of Inl _ \<Rightarrow> None | Inr x \<Rightarrow> Some \<lparr>m_symbol = name, m_similarity = x\<rparr>)) vs =
     map (\<lambda>(name, v). \<lparr>m_symbol = name, m_similarity = (case Similarity q v of Inr x \<Rightarrow> x)\<rparr>) vs"
    if "\<forall>(name, v) \<in> set vs. \<exists>x. Similarity q v = Inr x" for vs
    using that by (induction vs) (auto simp: map_filter_simps)
  then show ?thesis
    unfolding all_matches_def using sim by blast
qed

lemma all_matches_symbols:
  assumes "space_ok s" and "vec_ok q" and "v_bits q = sp_dims s"
  shows "map m_symbol (all_matches q s) = map fst (sp_vecs s)"
  unfolding all_matches_ok [OF assms] by (simp add: comp_def split_beta)

lemma sorted_wrt_take_drop:
  "sorted_wrt P xs \<Longrightarrow> x \<in> set (take n xs) \<Longrightarrow> y \<in> set (drop n xs) \<Longrightarrow> P x y"
  using sorted_wrt_append [of P "take n xs" "drop n xs"] by simp

section \<open>Properties of the space\<close>

text \<open>
  The vector of a symbol and the vector of a triple depend on the dimension and on the strings
  only, never on what was encoded before.
\<close>

theorem encoding_deterministic:
  "fst (Encode name (fold (\<lambda>(a, p, b) s. snd (EncodeTuple a p b s)) ts (NewSpace dims))) =
     fst (Encode name (NewSpace dims)) \<and>
   fst (EncodeTuple a p b (fold (\<lambda>(a, p, b) s. snd (EncodeTuple a p b s)) ts (NewSpace dims))) =
     fst (EncodeTuple a p b (NewSpace dims))"
proof -
  let ?run = "fold (\<lambda>(a, p, b) s. snd (EncodeTuple a p b s)) ts"
  have "space_ok (?run s) \<and> sp_dims (?run s) = sp_dims s" if "space_ok s" for s
    using that by (induction ts arbitrary: s) (auto simp: EncodeTuple_ok)
  then have "space_ok (?run (NewSpace dims))" and "sp_dims (?run (NewSpace dims)) = sp_dims (NewSpace dims)"
    by simp_all
  then show ?thesis
    using Encode_ok EncodeTuple_ok by simp
qed

text \<open>
  C38: The encoding of a triple forgets which role each string plays: a triple and any permutation of
  it have the same vector, and so have all the triples with a given predicate whose subject and
  object are equal.
\<close>

theorem tuple_roles_forgotten:
  "fst (EncodeTuple a p b (NewSpace dims)) = fst (EncodeTuple b p a (NewSpace dims)) \<and>
   fst (EncodeTuple a p b (NewSpace dims)) = fst (EncodeTuple p b a (NewSpace dims)) \<and>
   fst (EncodeTuple a p a (NewSpace dims)) = fst (EncodeTuple b p b (NewSpace dims))"
proof -
  have "0 < sp_dims (NewSpace dims)"
    using space_ok_New [of dims] unfolding space_ok_def by simp
  note pos = this
  have enc: "fst (EncodeTuple x y z (NewSpace dims)) = tuple_vector (sp_dims (NewSpace dims)) x y z" for x y z
    using EncodeTuple_ok [OF space_ok_New] by blast
  show ?thesis
    unfolding enc
    by (intro conjI tuple_vector_permute [OF pos] tuple_vector_diagonal [OF pos]) simp_all
qed

text \<open>
  C39: \<open>Nearest\<close> returns the \<open>k\<close> best of all the symbols in the cache, best first, ties in the order of
  the symbols: what it leaves out comes after all it returns. The order in which the cache is
  visited does not matter.
\<close>

theorem Nearest_best:
  assumes "space_ok s" and "vec_ok q" and "v_bits q = sp_dims s" and "0 \<le> k"
  shows "\<exists>ms. Nearest q k s = Inr ms \<and> length ms = min (nat k) (length (sp_vecs s)) \<and>
    sorted_wrt match_less ms \<and>
    (\<forall>m \<in> set ms. \<exists>v. go_get (sp_vecs s) (m_symbol m) = Some v \<and> Similarity q v = Inr (m_similarity m)) \<and>
    (\<forall>name v. go_get (sp_vecs s) name = Some v \<longrightarrow> name \<notin> m_symbol ` set ms \<longrightarrow>
       (\<exists>x. Similarity q v = Inr x \<and> (\<forall>m \<in> set ms. match_less m \<lparr>m_symbol = name, m_similarity = x\<rparr>)))"
proof -
  let ?all = "all_matches q s" and ?sorted = "sort_slice match_less (all_matches q s)"
  have dist: "go_keys_distinct (sp_vecs s)"
    using assms(1) by (simp add: space_ok_def)
  then have "distinct (map m_symbol ?all)"
    by (simp add: all_matches_symbols [OF assms(1-3)])
  then have sorted: "sorted_wrt match_less ?sorted"
    by (intro match_sort.sort_slice_strict) (simp add: distinct_map)
  have len: "length ?all = length (sp_vecs s)"
    using arg_cong [OF all_matches_symbols [OF assms(1-3)], of length] by simp
  have mem: "m \<in> set ?all \<longleftrightarrow> (\<exists>v. go_get (sp_vecs s) (m_symbol m) = Some v \<and> Similarity q v = Inr (m_similarity m))" for m
    using dist by (cases m) (force simp: all_matches_def set_map_filter_eq split: sum.splits)
  have total: "\<exists>x. Similarity q v = Inr x" if "go_get (sp_vecs s) name = Some v" for name v
  proof -
    have "v = symbol_vector (sp_dims s) name" and "0 < sp_dims s"
      using assms(1) map_of_SomeD [OF that] by (auto simp: space_ok_def)
    then show ?thesis
      using Similarity_hamming [OF assms(2)] symbol_vector_ok assms(3) by auto
  qed
  let ?ms = "take (nat k) ?sorted"
  have near: "Nearest q k s = Inr ?ms"
    using assms(4) len by (auto simp: Nearest_def Let_def)
  have in_all: "m \<in> set ?all" if "m \<in> set ?ms" for m
    using that set_take_subset [of "nat k" ?sorted] by auto
  have best: "\<exists>x. Similarity q v = Inr x \<and> (\<forall>m \<in> set ?ms. match_less m \<lparr>m_symbol = name, m_similarity = x\<rparr>)"
    if v: "go_get (sp_vecs s) name = Some v" and out: "name \<notin> m_symbol ` set ?ms" for name v
  proof -
    obtain x where x: "Similarity q v = Inr x" using total [OF v] by blast
    let ?m = "\<lparr>m_symbol = name, m_similarity = x\<rparr>"
    have "?m \<in> set ?sorted"
      using mem [of ?m] v x by simp
    moreover have "?m \<notin> set ?ms" using out by force
    ultimately have "?m \<in> set (drop (nat k) ?sorted)"
      by (metis Un_iff append_take_drop_id set_append)
    with x show ?thesis
      using sorted_wrt_take_drop [OF sorted] by blast
  qed
  show ?thesis
    using near len mem in_all sorted best
    by (intro exI [of _ ?ms] conjI) (auto intro: sorted_wrt_take)
qed

theorem Nearest_best_witness:
  "\<exists>ms. Nearest (symbol_vector 10000 ''cat'') 1 (snd (Encode ''cat'' (NewSpace 0))) = Inr ms \<and>
    length ms = 1 \<and> m_symbol (hd ms) = ''cat''"
proof -
  let ?s = "snd (Encode ''cat'' (NewSpace 0))"
  have s: "space_ok ?s" "sp_dims ?s = 10000"
    using Encode_ok [OF space_ok_New, of "''cat''" 0] by (simp_all add: NewSpace_def DefaultDims_def)
  have vecs: "map fst (sp_vecs ?s) = [''cat'']"
    by (simp add: Encode_def NewSpace_def Let_def)
  have q: "vec_ok (symbol_vector 10000 ''cat'')" "v_bits (symbol_vector 10000 ''cat'') = sp_dims ?s"
    using symbol_vector_ok [of 10000 "''cat''"] s(2) by simp_all
  obtain ms where ms: "Nearest (symbol_vector 10000 ''cat'') 1 ?s = Inr ms"
      "length ms = min (nat 1) (length (sp_vecs ?s))"
      "\<forall>m \<in> set ms. \<exists>v. go_get (sp_vecs ?s) (m_symbol m) = Some v \<and>
         Similarity (symbol_vector 10000 ''cat'') v = Inr (m_similarity m)"
    using Nearest_best [OF s(1) q, of 1] by auto
  have "length (sp_vecs ?s) = 1"
    using arg_cong [OF vecs, of length] by simp
  with ms(2) have len: "length ms = 1" by simp
  then have "hd ms \<in> set ms" by (cases ms) auto
  with ms(3) obtain v where "go_get (sp_vecs ?s) (m_symbol (hd ms)) = Some v" by blast
  then have "m_symbol (hd ms) \<in> set (map fst (sp_vecs ?s))"
    by (force dest: map_of_SomeD)
  with vecs ms(1) len show ?thesis by simp
qed

end
