(* ===== verification/Semantic.thy ===== *)
theory Semantic
  imports Space Belief_Store
begin

text \<open>
  The semantic index of \<open>semantic.go\<close>: the vector of each atom that was ever projected into the graph.
  A query encodes the atom it asks for, which fills the cache of the space, and compares it with
  every indexed atom, in the order in which the map is visited.
\<close>

record SemanticIndex =
  si_space :: Space
  si_tuples :: "(Atom, Vector) gomap"

record SemanticMatch =
  sm_atom :: Atom
  sm_similarity :: rat

definition newSemanticIndex :: "int \<Rightarrow> SemanticIndex" where
  "newSemanticIndex dims = \<lparr>si_space = NewSpace dims, si_tuples = []\<rparr>"

definition Index :: "Atom \<Rightarrow> SemanticIndex \<Rightarrow> SemanticIndex" where
  "Index atom si =
     (if go_get (si_tuples si) atom \<noteq> None then si
      else
        let (v, sp) = EncodeTuple (aFrom atom) (aPred atom) (aTo atom) (si_space si)
        in si\<lparr>si_space := sp, si_tuples := go_put atom v (si_tuples si)\<rparr>)"

definition Similar :: "Atom \<Rightarrow> rat \<Rightarrow> SemanticIndex \<Rightarrow> SemanticMatch list \<times> SemanticIndex" where
  "Similar atom threshold si =
     (let (qv, sp) = EncodeTuple (aFrom atom) (aPred atom) (aTo atom) (si_space si)
      in (List.map_filter (\<lambda>(a, v).
            (case Similarity qv v of
               Inl _ \<Rightarrow> None
             | Inr sim \<Rightarrow> if sim \<ge> threshold then Some \<lparr>sm_atom = a, sm_similarity = sim\<rparr> else None))
            (si_tuples si),
          si\<lparr>si_space := sp\<rparr>))"

section \<open>The invariant\<close>

definition atom_vector :: "int \<Rightarrow> Atom \<Rightarrow> Vector" where
  "atom_vector dims a = tuple_vector dims (aFrom a) (aPred a) (aTo a)"

definition index_ok :: "SemanticIndex \<Rightarrow> bool" where
  "index_ok si \<longleftrightarrow>
     space_ok (si_space si) \<and> go_keys_distinct (si_tuples si) \<and>
     (\<forall>(a, v) \<in> set (si_tuples si). v = atom_vector (sp_dims (si_space si)) a)"

definition indexed :: "SemanticIndex \<Rightarrow> Atom set" where
  "indexed si = fst ` set (si_tuples si)"

lemma index_ok_new [simp]: "index_ok (newSemanticIndex dims)"
  by (simp add: index_ok_def newSemanticIndex_def)

lemma indexed_new [simp]: "indexed (newSemanticIndex dims) = {}"
  by (simp add: indexed_def newSemanticIndex_def)

lemma atom_vector_ok: "0 < dims \<Longrightarrow> vec_ok (atom_vector dims a) \<and> v_bits (atom_vector dims a) = dims"
  unfolding atom_vector_def by (rule tuple_vector_ok)

lemma index_dims_pos: "index_ok si \<Longrightarrow> 0 < sp_dims (si_space si)"
  by (simp add: index_ok_def space_ok_def)

lemma indexed_Index [simp]: "indexed (Index a si) = insert a (indexed si)"
proof (cases "go_get (si_tuples si) a")
  case None
  then show ?thesis
    by (simp add: indexed_def Index_def split_beta go_map_simps)
next
  case (Some v)
  then have "a \<in> indexed si"
    unfolding indexed_def by (metis domI dom_map_of_conv_image_fst)
  with Some show ?thesis by (simp add: Index_def insert_absorb)
qed

lemma index_ok_Index: "index_ok si \<Longrightarrow> index_ok (Index a si) \<and> sp_dims (si_space (Index a si)) = sp_dims (si_space si)"
proof (cases "go_get (si_tuples si) a")
  case None
  assume ok: "index_ok si"
  then have "space_ok (si_space si)" by (simp add: index_ok_def)
  note enc = EncodeTuple_ok [OF this, of "aFrom a" "aPred a" "aTo a"]
  show ?thesis
    using None ok enc set_go_put_subset [of a "atom_vector (sp_dims (si_space si)) a" "si_tuples si"]
    by (auto simp: Index_def split_beta index_ok_def distinct_update atom_vector_def)
qed (simp add: Index_def)

lemma Similar_exact:
  assumes "index_ok si"
  shows "m \<in> set (fst (Similar a t si)) \<longleftrightarrow>
      sm_atom m \<in> indexed si \<and> t \<le> sm_similarity m \<and>
      Similarity (atom_vector (sp_dims (si_space si)) a) (atom_vector (sp_dims (si_space si)) (sm_atom m)) =
        Inr (sm_similarity m)"
proof -
  have "space_ok (si_space si)" using assms by (simp add: index_ok_def)
  note enc = EncodeTuple_ok [OF this, of "aFrom a" "aPred a" "aTo a"]
  have tuples: "(b, v) \<in> set (si_tuples si) \<longleftrightarrow> b \<in> indexed si \<and> v = atom_vector (sp_dims (si_space si)) b" for b v
    using assms by (force simp: index_ok_def indexed_def)
  have opt: "(case r of Inl _ \<Rightarrow> None
        | Inr x \<Rightarrow> if t \<le> x then Some \<lparr>sm_atom = b, sm_similarity = x\<rparr> else None) = Some m \<longleftrightarrow>
      sm_atom m = b \<and> t \<le> sm_similarity m \<and> r = Inr (sm_similarity m)" for r :: "go_error + rat" and b
    by (cases r; cases m) auto
  have "m \<in> set (fst (Similar a t si)) \<longleftrightarrow>
      (\<exists>b v. (b, v) \<in> set (si_tuples si) \<and>
        sm_atom m = b \<and> t \<le> sm_similarity m \<and>
        Similarity (atom_vector (sp_dims (si_space si)) a) v = Inr (sm_similarity m))"
    using enc by (simp add: Similar_def split_beta set_map_filter_eq Bex_def opt atom_vector_def)
  then show ?thesis
    unfolding tuples by auto
qed

lemma index_ok_Similar:
  assumes "index_ok si"
  shows "index_ok (snd (Similar a t si)) \<and> indexed (snd (Similar a t si)) = indexed si \<and>
    sp_dims (si_space (snd (Similar a t si))) = sp_dims (si_space si)"
proof -
  have "space_ok (si_space si)" using assms by (simp add: index_ok_def)
  note enc = EncodeTuple_ok [OF this, of "aFrom a" "aPred a" "aTo a"]
  then show ?thesis
    using assms by (simp add: Similar_def split_beta index_ok_def indexed_def)
qed

lemma Similarity_self: "vec_ok v \<Longrightarrow> Similarity v v = Inr 1"
  using Similarity_hamming [of v v] hamming_0_iff [of v v] by simp

lemma atom_vector_swap: "0 < dims \<Longrightarrow> atom_vector dims (mk_atom a p b) = atom_vector dims (mk_atom b p a)"
  unfolding atom_vector_def by (rule tuple_vector_permute) simp_all

section \<open>Properties of the semantic index\<close>

definition index_all :: "Atom list \<Rightarrow> int \<Rightarrow> SemanticIndex" where
  "index_all as dims = fold Index as (newSemanticIndex dims)"

lemma index_all_ok:
  "index_ok (index_all as dims) \<and> indexed (index_all as dims) = set as \<and>
    sp_dims (si_space (index_all as dims)) = sp_dims (NewSpace dims)"
proof -
  have "index_ok (fold Index as si) \<and> indexed (fold Index as si) = set as \<union> indexed si \<and>
      sp_dims (si_space (fold Index as si)) = sp_dims (si_space si)" if "index_ok si" for si
    using that by (induction as arbitrary: si) (auto simp: index_ok_Index)
  from this [OF index_ok_new [of dims]] show ?thesis
    unfolding index_all_def by simp (simp add: newSemanticIndex_def)
qed

text \<open>
  A query over an index returns exactly the indexed atoms whose vector is as similar to that of
  the query as the threshold asks; an indexed atom always finds itself, with similarity 1, at any
  threshold up to 1.
\<close>

theorem similar_exact:
  "(m \<in> set (fst (Similar a t (index_all as dims))) \<longleftrightarrow>
      sm_atom m \<in> set as \<and> t \<le> sm_similarity m \<and>
      Similarity (fst (EncodeTuple (aFrom a) (aPred a) (aTo a) (NewSpace dims)))
        (fst (EncodeTuple (aFrom (sm_atom m)) (aPred (sm_atom m)) (aTo (sm_atom m)) (NewSpace dims))) =
        Inr (sm_similarity m)) \<and>
   (\<lparr>sm_atom = a, sm_similarity = 1\<rparr> \<in> set (fst (Similar a t (index_all as dims))) \<longleftrightarrow> a \<in> set as \<and> t \<le> 1)"
proof -
  note ok = index_all_ok [of as dims]
  have vec: "fst (EncodeTuple (aFrom x) (aPred x) (aTo x) (NewSpace dims)) = atom_vector (sp_dims (NewSpace dims)) x" for x
    using EncodeTuple_ok [OF space_ok_New] by (simp add: atom_vector_def)
  have "0 < sp_dims (NewSpace dims)"
    using space_ok_New [of dims] unfolding space_ok_def by simp
  then have "Similarity (atom_vector (sp_dims (NewSpace dims)) a) (atom_vector (sp_dims (NewSpace dims)) a) = Inr 1"
    by (intro Similarity_self) (simp add: atom_vector_ok)
  then show ?thesis
    using ok by (simp add: Similar_exact vec)
qed

text \<open>
  An indexed fact also answers, with similarity 1, a query for the same fact with subject and
  object exchanged: the index cannot tell the two apart.
\<close>

theorem reversed_fact_matches:
  "\<lparr>sm_atom = mk_atom a p b, sm_similarity = 1\<rparr> \<in>
     set (fst (Similar (mk_atom b p a) 1 (index_all [mk_atom a p b] dims)))"
proof -
  note ok = index_all_ok [of "[mk_atom a p b]" dims]
  have pos: "0 < sp_dims (NewSpace dims)"
    using space_ok_New [of dims] unfolding space_ok_def by simp
  have "Similarity (atom_vector (sp_dims (NewSpace dims)) (mk_atom b p a))
      (atom_vector (sp_dims (NewSpace dims)) (mk_atom a p b)) = Inr 1"
    unfolding atom_vector_swap [OF pos, of b p a] by (rule Similarity_self) (simp add: atom_vector_ok pos)
  then show ?thesis
    using ok by (simp add: Similar_exact)
qed

end
