(* ===== verification/Metrics.thy ===== *)
theory Metrics
  imports Prelude
begin

text \<open>
  \<open>metrics.go\<close>: eight 64-bit counters, which wrap around, and a trace log that keeps the latest
  entries. The log reads the clock; \<open>m_clock\<close> is the sequence of its readings in nanoseconds and
  \<open>m_reads\<close> how many were taken, so that the model of a caller stays a function.
\<close>

record TraceEntry =
  te_traceID :: string
  te_op :: string
  te_duration :: int
  te_timestamp :: int
  te_details :: "(string, string) gomap"

record Metrics =
  IngestCount :: int64
  QueryCount :: int64
  ResolveCount :: int64
  DeriveCount :: int64
  ClarifyCount :: int64
  ReplayCount :: int64
  CompactCount :: int64
  ErrorCount :: int64
  m_traceLog :: "TraceEntry list"
  m_traceLogMax :: int
  m_clock :: "nat \<Rightarrow> int"
  m_reads :: nat

definition NewMetrics :: "int \<Rightarrow> (nat \<Rightarrow> int) \<Rightarrow> Metrics" where
  "NewMetrics traceLogMax clock =
     \<lparr>IngestCount = 0, QueryCount = 0, ResolveCount = 0, DeriveCount = 0, ClarifyCount = 0,
      ReplayCount = 0, CompactCount = 0, ErrorCount = 0, m_traceLog = [],
      m_traceLogMax = (if traceLogMax \<le> 0 then 10000 else traceLogMax),
      m_clock = clock, m_reads = 0\<rparr>"

definition time_Now :: "Metrics \<Rightarrow> int \<times> Metrics" where
  "time_Now m = (m_clock m (m_reads m), m\<lparr>m_reads := Suc (m_reads m)\<rparr>)"

definition record_trace :: "string \<Rightarrow> string \<Rightarrow> int \<Rightarrow> (string, string) gomap \<Rightarrow> Metrics \<Rightarrow> Metrics" where
  "record_trace traceID op d details m =
     (let m1 = (if int (length (m_traceLog m)) \<ge> m_traceLogMax m
                then m\<lparr>m_traceLog := drop 1 (m_traceLog m)\<rparr> else m);
          (now, m2) = time_Now m1
      in m2\<lparr>m_traceLog := m_traceLog m2 @
           [\<lparr>te_traceID = traceID, te_op = op, te_duration = d, te_timestamp = now, te_details = details\<rparr>]\<rparr>)"

definition Traces :: "int \<Rightarrow> Metrics \<Rightarrow> TraceEntry list" where
  "Traces n m =
     (let len = int (length (m_traceLog m));
          n' = (if n \<le> 0 \<or> n > len then len else n)
      in drop (nat (len - n')) (m_traceLog m))"

record MetricsSnapshot =
  ms_ingest :: int64
  ms_query :: int64
  ms_resolve :: int64
  ms_derive :: int64
  ms_clarify :: int64
  ms_replay :: int64
  ms_compact :: int64
  ms_errors :: int64

definition metrics_Snapshot :: "Metrics \<Rightarrow> MetricsSnapshot" where
  "metrics_Snapshot m =
     \<lparr>ms_ingest = IngestCount m, ms_query = QueryCount m, ms_resolve = ResolveCount m,
      ms_derive = DeriveCount m, ms_clarify = ClarifyCount m, ms_replay = ReplayCount m,
      ms_compact = CompactCount m, ms_errors = ErrorCount m\<rparr>"

section \<open>The trace log\<close>

definition trace_ok :: "Metrics \<Rightarrow> bool" where
  "trace_ok m \<longleftrightarrow> 0 < m_traceLogMax m \<and> int (length (m_traceLog m)) \<le> m_traceLogMax m"

lemma trace_ok_New: "trace_ok (NewMetrics mx clock)"
  by (simp add: trace_ok_def NewMetrics_def)

lemma trace_ok_record: "trace_ok m \<Longrightarrow> trace_ok (record_trace i op d ds m)"
  by (auto simp: trace_ok_def record_trace_def time_Now_def Let_def)

lemma record_trace_fields [simp]:
  "m_traceLogMax (record_trace i op d ds m) = m_traceLogMax m"
  "IngestCount (record_trace i op d ds m) = IngestCount m"
  "ResolveCount (record_trace i op d ds m) = ResolveCount m"
  "QueryCount (record_trace i op d ds m) = QueryCount m"
  "ErrorCount (record_trace i op d ds m) = ErrorCount m"
  by (simp_all add: record_trace_def time_Now_def Let_def)

text \<open>The last \<open>n\<close> elements.\<close>

definition newest :: "nat \<Rightarrow> 'a list \<Rightarrow> 'a list" where
  "newest n xs = drop (length xs - n) xs"

lemma length_newest [simp]: "length (newest n xs) = min n (length xs)"
  by (simp add: newest_def)

lemma newest_snoc: "0 < n \<Longrightarrow> newest n (xs @ [x]) = newest n ((if n \<le> length (newest n xs) then drop 1 (newest n xs) else newest n xs) @ [x])"
  by (auto simp: newest_def min_def Suc_diff_le)

lemma newest_all: "length xs \<le> n \<Longrightarrow> newest n xs = xs"
  by (simp add: newest_def)

type_synonym trace_call = "string \<times> string \<times> int \<times> (string, string) gomap"

definition record_all :: "trace_call list \<Rightarrow> Metrics \<Rightarrow> Metrics" where
  "record_all cs m = fold (\<lambda>(i, op, d, ds). record_trace i op d ds) cs m"

definition entry :: "Metrics \<Rightarrow> nat \<Rightarrow> trace_call \<Rightarrow> TraceEntry" where
  "entry m k c = (case c of (i, op, d, ds) \<Rightarrow>
     \<lparr>te_traceID = i, te_op = op, te_duration = d, te_timestamp = m_clock m (m_reads m + k), te_details = ds\<rparr>)"

lemma record_trace_log:
  "m_traceLog (record_trace i op d ds m) =
     (if int (length (m_traceLog m)) \<ge> m_traceLogMax m then drop 1 (m_traceLog m) else m_traceLog m) @
     [entry m 0 (i, op, d, ds)]"
  by (simp add: record_trace_def time_Now_def Let_def entry_def)

lemma entry_later: "m_clock m' = m_clock m \<Longrightarrow> m_reads m' = m_reads m + k \<Longrightarrow> entry m' 0 c = entry m k c"
  by (cases c) (simp add: entry_def)

lemma record_all_log:
  assumes "trace_ok m" and "m_traceLog m = []"
  shows "m_traceLog (record_all cs m) = newest (nat (m_traceLogMax m)) (map (\<lambda>(k, c). entry m k c) (enumerate 0 cs)) \<and>
    m_traceLogMax (record_all cs m) = m_traceLogMax m \<and> m_clock (record_all cs m) = m_clock m \<and>
    m_reads (record_all cs m) = m_reads m + length cs"
proof (induction cs rule: rev_induct)
  case Nil
  with assms show ?case by (simp add: record_all_def newest_def)
next
  case (snoc c cs)
  obtain i op d ds where c: "c = (i, op, d, ds)" by (cases c)
  let ?m = "record_all cs m" and ?n = "nat (m_traceLogMax m)"
  let ?es = "map (\<lambda>(k, c). entry m k c) (enumerate 0 cs)"
  have n: "0 < ?n" and max: "int ?n = m_traceLogMax m"
    using assms(1) by (simp_all add: trace_ok_def)
  have all: "record_all (cs @ [c]) m = record_trace i op d ds ?m"
    by (simp add: record_all_def c)
  have len: "length ?es = length cs" by simp
  have "m_traceLog (record_trace i op d ds ?m) =
      (if ?n \<le> length (newest ?n ?es) then drop 1 (newest ?n ?es) else newest ?n ?es) @ [entry m (length cs) c]"
    using snoc max entry_later [of ?m m "length cs" c]
    by (auto simp: record_trace_log nat_le_iff c)
  also have "\<dots> = newest ?n (?es @ [entry m (length cs) c])"
    using n newest_snoc [OF n, of ?es "entry m (length cs) c"]
    by (auto simp: newest_all)
  finally show ?case
    using snoc by (simp add: all enumerate_append_eq) (simp add: record_trace_def time_Now_def Let_def)
qed

text \<open>
  After any sequence of \<open>Record\<close> calls on new metrics, the trace log holds exactly the latest
  calls, as many as its limit allows (10000 where the limit asked for is not positive), each with its
  own reading of the clock, oldest first; \<open>Traces n\<close> returns the latest \<open>n\<close> of them, and all of them
  where \<open>n\<close> is not positive or too large.
\<close>

theorem trace_log_latest:
  "Traces n (record_all cs (NewMetrics mx clock)) =
     newest (if 0 < n then nat n else length cs)
       (newest (nat (if mx \<le> 0 then 10000 else mx))
         (map (\<lambda>(k, c). entry (NewMetrics mx clock) k c) (enumerate 0 cs)))"
proof -
  let ?log = "newest (nat (if mx \<le> 0 then 10000 else mx))
      (map (\<lambda>(k, c). entry (NewMetrics mx clock) k c) (enumerate 0 cs))"
  have log: "m_traceLog (record_all cs (NewMetrics mx clock)) = ?log"
    using record_all_log [OF trace_ok_New, of mx clock cs] by (simp add: NewMetrics_def)
  have "length ?log \<le> length cs" by simp
  then show ?thesis
    unfolding Traces_def Let_def log newest_def [of _ ?log] by (auto simp: nat_diff_distrib)
qed

end
