(* ===== verification/Derivations.thy ===== *)
theory Derivations
  imports Belief_Store
begin

text \<open>
  \<open>proof.go\<close> and \<open>derivations.go\<close>: for each atom the slice of the derivations that rules found for it,
  de-duplicated by a key and sorted. The keys join their fields with bars and semicolons without
  escaping, as those of package \<open>rules\<close> do.
\<close>

record DerivationProof =
  dpRule :: string
  dpPremises :: "Atom list"

definition atomKey :: "Atom \<Rightarrow> string" where
  "atomKey a = bar_join (aFrom a) (aPred a) (aTo a)"

definition derivationKey :: "DerivationProof \<Rightarrow> string" where
  "derivationKey d = dpRule d @ concat (map (\<lambda>p. CHR '';'' # atomKey p) (dpPremises d))"

fun premise_keys_less :: "Atom list \<Rightarrow> Atom list \<Rightarrow> bool" where
  "premise_keys_less (p # ps) (q # qs) =
     (if atomKey p \<noteq> atomKey q then atomKey p < atomKey q else premise_keys_less ps qs)"
| "premise_keys_less ps qs = (length ps < length qs)"

definition proof_less :: "DerivationProof \<Rightarrow> DerivationProof \<Rightarrow> bool" where
  "proof_less x y =
     (if dpRule x \<noteq> dpRule y then dpRule x < dpRule y else premise_keys_less (dpPremises x) (dpPremises y))"

definition sortDerivations :: "DerivationProof list \<Rightarrow> DerivationProof list" where
  "sortDerivations ds = sort_slice proof_less ds"

type_synonym derivation_map = "(Atom, DerivationProof list) gomap"

definition addDerivation :: "Atom \<Rightarrow> DerivationProof \<Rightarrow> derivation_map \<Rightarrow> derivation_map" where
  "addDerivation atom d m =
     (let cur = go_index m atom; k = derivationKey d
      in if \<exists>ex \<in> set cur. derivationKey ex = k then m
         else go_put atom (sortDerivations (cur @ [d])) m)"

definition derivationsFor :: "Atom \<Rightarrow> derivation_map \<Rightarrow> DerivationProof list" where
  "derivationsFor atom m = go_index m atom"

section \<open>The comparison\<close>

lemma premise_keys_less_iff: "premise_keys_less ps qs \<longleftrightarrow> map atomKey ps < map atomKey qs"
proof (induction ps arbitrary: qs)
  case Nil
  then show ?case by (cases qs) simp_all
next
  case (Cons p ps)
  then show ?case by (cases qs) simp_all
qed

definition proof_key :: "DerivationProof \<Rightarrow> string \<times> string list" where
  "proof_key d = (dpRule d, map atomKey (dpPremises d))"

interpretation proof_sort: keyed_less proof_less proof_key
  by unfold_locales (auto simp: proof_less_def proof_key_def premise_keys_less_iff)

text \<open>The key of a derivation is a function of what it is sorted by.\<close>

lemma derivationKey_proof_key:
  "derivationKey d = fst (proof_key d) @ concat (map ((#) CHR '';'') (snd (proof_key d)))"
  by (simp add: derivationKey_def proof_key_def comp_def)

section \<open>The invariant\<close>

definition derivs_ok :: "derivation_map \<Rightarrow> bool" where
  "derivs_ok m \<longleftrightarrow>
     (\<forall>a. distinct (map derivationKey (go_index m a)) \<and> sorted (map proof_key (go_index m a)))"

definition derivs_of :: "derivation_map \<Rightarrow> (Atom \<times> DerivationProof) set" where
  "derivs_of m = {(a, d). d \<in> set (go_index m a)}"

lemma derivs_ok_Nil [simp]: "derivs_ok []"
  by (simp add: derivs_ok_def go_index_def)

lemma derivs_of_Nil [simp]: "derivs_of [] = {}"
  by (simp add: derivs_of_def go_index_def)

lemma derivs_ok_add:
  assumes "derivs_ok m"
  shows "derivs_ok (addDerivation a d m)"
proof -
  have "distinct (map derivationKey (sortDerivations (go_index m a @ [d])))"
    if "\<forall>ex \<in> set (go_index m a). derivationKey ex \<noteq> derivationKey d"
  proof -
    have "distinct (map derivationKey (go_index m a @ [d]))"
      using that assms by (force simp: derivs_ok_def)
    moreover have "mset (map derivationKey (sortDerivations (go_index m a @ [d]))) = mset (map derivationKey (go_index m a @ [d]))"
      by (simp add: sortDerivations_def)
    ultimately show ?thesis by (metis mset_eq_imp_distinct_iff)
  qed
  moreover have "sorted (map proof_key (sortDerivations ds))" for ds
    unfolding sortDerivations_def by (rule proof_sort.sorted_sort_slice)
  ultimately show ?thesis
    using assms by (auto simp: derivs_ok_def addDerivation_def Let_def go_map_simps)
qed

lemma derivs_of_add:
  "derivs_of (addDerivation a d m) =
     derivs_of m \<union> (if \<exists>ex. (a, ex) \<in> derivs_of m \<and> derivationKey ex = derivationKey d then {} else {(a, d)})"
  by (auto simp: derivs_of_def addDerivation_def Let_def go_map_simps sortDerivations_def split: if_splits)

lemma derivs_of_add_subset: "derivs_of (addDerivation a d m) \<subseteq> insert (a, d) (derivs_of m)"
  by (auto simp: derivs_of_add)

lemma derivs_of_mono: "derivs_of m \<subseteq> derivs_of (addDerivation a d m)"
  by (auto simp: derivs_of_add)

lemma mem_derivationsFor: "d \<in> set (derivationsFor a m) \<longleftrightarrow> (a, d) \<in> derivs_of m"
  by (simp add: derivationsFor_def derivs_of_def)

section \<open>Properties of the derivations\<close>

definition plain_atom :: "Atom \<Rightarrow> bool" where
  "plain_atom a \<longleftrightarrow> plain (aFrom a) \<and> plain (aPred a) \<and> plain (aTo a)"

lemma atomKey_inject: "plain_atom a \<Longrightarrow> plain_atom b \<Longrightarrow> atomKey a = atomKey b \<longleftrightarrow> a = b"
  by (auto simp: atomKey_def plain_atom_def bar_join_inject)

definition plain_proof :: "DerivationProof \<Rightarrow> bool" where
  "plain_proof d \<longleftrightarrow> CHR '';'' \<notin> set (dpRule d) \<and> (\<forall>p \<in> set (dpPremises d). plain_atom p)"

lemma derivationKey_inject:
  assumes "plain_proof d" and "plain_proof e"
  shows "derivationKey d = derivationKey e \<longleftrightarrow> d = e"
proof
  let ?cat = "\<lambda>ps. concat (map (\<lambda>p. CHR '';'' # atomKey p) ps)"
  assume "derivationKey d = derivationKey e"
  then have eq: "dpRule d @ ?cat (dpPremises d) = dpRule e @ ?cat (dpPremises e)"
    by (simp add: derivationKey_def)
  have semi: "?cat ps = [] \<or> (\<exists>r. ?cat ps = CHR '';'' # r)" for ps
    by (cases ps) simp_all
  have "dpRule d = dpRule e \<and> ?cat (dpPremises d) = ?cat (dpPremises e)"
    by (rule split_tail_eq [OF _ _ semi semi eq]) (use assms in \<open>simp_all add: plain_proof_def\<close>)
  moreover from this have "dpPremises d = dpPremises e"
  proof (intro semicolon_list_inject [where f = atomKey])
    show "\<forall>x \<in> set (dpPremises d) \<union> set (dpPremises e). CHR '';'' \<notin> set (atomKey x)"
      using assms by (auto simp: plain_proof_def plain_atom_def atomKey_def dest: semicolon_bar_join)
    show "inj_on atomKey (set (dpPremises d) \<union> set (dpPremises e))"
      using assms by (auto simp: inj_on_def plain_proof_def atomKey_inject)
  qed simp
  ultimately show "d = e" by simp
qed simp

definition add_all :: "(Atom \<times> DerivationProof) list \<Rightarrow> derivation_map" where
  "add_all ds = fold (\<lambda>(a, d) m. addDerivation a d m) ds []"

lemma add_all_ok: "derivs_ok (add_all ds)"
proof -
  have "derivs_ok m \<Longrightarrow> derivs_ok (fold (\<lambda>(a, d) m. addDerivation a d m) ds m)" for m
    by (induction ds arbitrary: m) (auto simp: derivs_ok_add)
  then show ?thesis by (simp add: add_all_def)
qed

lemma add_all_plain:
  assumes "\<forall>(a, d) \<in> set ds. plain_proof d"
  shows "derivs_of (add_all ds) = set ds"
proof -
  have "derivs_of (fold (\<lambda>(a, d) m. addDerivation a d m) ds m) = derivs_of m \<union> set ds"
    if "\<forall>(a, d) \<in> derivs_of m \<union> set ds. plain_proof d" for m
    using that
  proof (induction ds arbitrary: m)
    case (Cons x ds)
    obtain a d where x: "x = (a, d)" by force
    have "derivs_of (addDerivation a d m) = insert (a, d) (derivs_of m)"
    proof (cases "\<exists>ex. (a, ex) \<in> derivs_of m \<and> derivationKey ex = derivationKey d")
      case True
      then obtain ex where ex: "(a, ex) \<in> derivs_of m" "derivationKey ex = derivationKey d" by blast
      then have "ex = d"
        using Cons.prems x by (subst derivationKey_inject [symmetric]) auto
      with True ex show ?thesis by (auto simp: derivs_of_add)
    next
      case False
      then show ?thesis by (auto simp: derivs_of_add)
    qed
    with Cons x show ?case by simp
  qed simp
  from this [of "[]"] assms show ?thesis by (simp add: add_all_def)
qed

text \<open>
  Where no rule name holds a semicolon and no field of a premise a bar or a semicolon, the
  derivations kept for an atom are exactly those that were added for it, each once, in the order of
  the rule names and the keys of their premises.
\<close>

theorem derivations_kept:
  assumes "\<forall>(a, d) \<in> set ds. plain_proof d"
  shows "set (derivationsFor a (add_all ds)) = {d. (a, d) \<in> set ds} \<and>
    distinct (derivationsFor a (add_all ds)) \<and>
    sorted (map proof_key (derivationsFor a (add_all ds)))"
  using add_all_plain [OF assms] add_all_ok [of ds]
  by (auto simp: mem_derivationsFor derivs_ok_def derivationsFor_def derivs_of_def distinct_map)

theorem derivations_kept_witness:
  "set (derivationsFor (mk_atom ''a'' ''p'' ''c'')
     (add_all [(mk_atom ''a'' ''p'' ''c'', \<lparr>dpRule = ''r'', dpPremises = [mk_atom ''a'' ''p'' ''b'']\<rparr>)])) =
   {\<lparr>dpRule = ''r'', dpPremises = [mk_atom ''a'' ''p'' ''b'']\<rparr>}"
proof -
  have "\<forall>(a, d) \<in> set [(mk_atom ''a'' ''p'' ''c'', \<lparr>dpRule = ''r'', dpPremises = [mk_atom ''a'' ''p'' ''b'']\<rparr>)].
      plain_proof d"
    by (simp add: plain_proof_def plain_atom_def plain_def)
  from derivations_kept [OF this, of "mk_atom ''a'' ''p'' ''c''"] show ?thesis by auto
qed

text \<open>
  With separators in the fields, a derivation is lost: two derivations of an atom by the same
  rule, from the premise \<open>a|b p c\<close> and from the premise \<open>a b|p c\<close>, have one key, and only the one
  that was added first is kept.
\<close>

theorem derivation_key_collision:
  "derivationsFor x (add_all
     [(x, \<lparr>dpRule = r, dpPremises = [mk_atom ''a|b'' ''p'' ''c'']\<rparr>),
      (x, \<lparr>dpRule = r, dpPremises = [mk_atom ''a'' ''b|p'' ''c'']\<rparr>)]) =
   [\<lparr>dpRule = r, dpPremises = [mk_atom ''a|b'' ''p'' ''c'']\<rparr>]"
  by (simp add: add_all_def addDerivation_def Let_def derivationsFor_def go_index_def derivationKey_def
      atomKey_def bar_join_def sortDerivations_def)

end
