(* ===== verification/Ilp.thy ===== *)
theory Ilp
  imports Rules Belief_Store
begin

text \<open>
  Package \<open>ilp\<close>: the examples an inducer observes, its suggestions, and \<open>SuggestTransitive\<close> of
  \<open>suggest.go\<close>, which counts the two-hop chains of each predicate. The \<open>Inducer\<close> interface is an
  argument of the engine's operations.
\<close>

record Example =
  ex_belief :: Belief

record Suggestion =
  sg_rule :: Rule
  sg_reason :: string

text \<open>\<open>strconv.Itoa\<close> of a count.\<close>

fun decimal :: "nat \<Rightarrow> string" where
  "decimal n =
     (if n < 10 then [char_of (48 + n)] else decimal (n div 10) @ [char_of (48 + n mod 10)])"

declare decimal.simps [simp del]

text \<open>\<open>NoopInducer\<close>.\<close>

definition noop_Observe :: "Example \<Rightarrow> Suggestion list" where
  "noop_Observe ex = []"

section \<open>Chains\<close>

definition adjacency :: "Edge list \<Rightarrow> (string, string list) gomap" where
  "adjacency eds =
     map (\<lambda>(k, tos). (k, sort_slice string_less tos))
       (fold (\<lambda>ed adj. go_put (eFrom ed) (go_index adj (eFrom ed) @ [eTo ed]) adj) eds [])"

text \<open>The chains in the order of the three nested loops, before the de-duplication by key.\<close>

definition chain_list :: "(string, string list) gomap \<Rightarrow> (string \<times> string \<times> string) list" where
  "chain_list adj =
     [(a, b, c). a \<leftarrow> sort_slice string_less (map fst adj), b \<leftarrow> go_index adj a, c \<leftarrow> go_index adj b]"

definition count_chains :: "(string \<times> string \<times> string) list \<Rightarrow> nat" where
  "count_chains cs =
     fst (fold (\<lambda>(a, b, c) (chains, seen).
       let k = bar_join a b c
       in if go_get seen k \<noteq> None then (chains, seen) else (Suc chains, go_put k () seen)) cs (0, []))"

definition transitive_rule :: "string \<Rightarrow> Rule" where
  "transitive_rule p =
     \<lparr>rName = ''transitive:'' @ p,
      rIf = [mk_pat ''?x'' p ''?y'', mk_pat ''?y'' p ''?z''],
      rThen = mk_pat ''?x'' p ''?z''\<rparr>"

definition SuggestTransitive :: "Edge list \<Rightarrow> int \<Rightarrow> Suggestion list" where
  "SuggestTransitive edges minChains =
     (let minChains' = (if minChains \<le> 0 then 1 else minChains);
          byPred = fold (\<lambda>e m. go_put (ePred e) (go_index m (ePred e) @ [e]) m) edges [];
          preds = sort_slice string_less (map fst byPred)
      in List.map_filter (\<lambda>p.
           let chains = count_chains (chain_list (adjacency (go_index byPred p)))
           in if int chains < minChains' then None
              else Some \<lparr>sg_rule = transitive_rule p, sg_reason = ''observed_chains='' @ decimal chains\<rparr>) preds)"

section \<open>What it counts\<close>

text \<open>The loops that build the maps keep every key once and every edge under its key.\<close>

lemma group_fold:
  "go_index (fold (\<lambda>e m. go_put (f e) (go_index m (f e) @ [g e]) m) es m) k =
     go_index m k @ map g (filter (\<lambda>e. f e = k) es)"
  by (induction es arbitrary: m) (auto simp: go_map_simps)

lemma group_fold_keys:
  "fst ` set (fold (\<lambda>e m. go_put (f e) (go_index m (f e) @ [g e]) m) es m) = fst ` set m \<union> f ` set es"
  by (induction es arbitrary: m) (auto simp: go_map_simps)

lemma group_fold_distinct:
  "go_keys_distinct m \<Longrightarrow> go_keys_distinct (fold (\<lambda>e m. go_put (f e) (go_index m (f e) @ [g e]) m) es m)"
  by (induction es arbitrary: m) (auto simp: distinct_update)

lemma go_index_adjacency:
  "go_index (adjacency eds) k = sort_slice string_less (map eTo (filter (\<lambda>e. eFrom e = k) eds))"
  unfolding adjacency_def
  by (subst go_index_map_values) (simp_all add: group_fold, simp add: go_index_def)

lemma adjacency_keys: "fst ` set (adjacency eds) = eFrom ` set eds"
proof -
  have "fst ` set (map (\<lambda>(k, tos). (k, sort_slice string_less tos)) m) = fst ` set m" for m :: "(string, string list) gomap"
    by force
  then show ?thesis
    unfolding adjacency_def by (simp only: group_fold_keys) simp
qed

lemma set_chain_list:
  "(a, b, c) \<in> set (chain_list (adjacency eds)) \<longleftrightarrow>
     (\<exists>e \<in> set eds. \<exists>f \<in> set eds. eFrom e = a \<and> eTo e = b \<and> eFrom f = b \<and> eTo f = c)"
proof -
  have keys: "set (sort_slice string_less (map fst (adjacency eds))) = eFrom ` set eds"
    using adjacency_keys [of eds] by simp
  show ?thesis
    unfolding chain_list_def set_concat set_map keys
    by (force simp: go_index_adjacency)
qed

lemma count_chains_fold:
  "fst (fold (\<lambda>(a, b, c) (chains, seen).
       let k = bar_join a b c
       in if go_get seen k \<noteq> None then (chains, seen) else (Suc chains, go_put k () seen)) cs (n, seen)) =
   n + card ((\<lambda>(a, b, c). bar_join a b c) ` set cs - fst ` set seen)"
proof (induction cs arbitrary: n seen)
  case (Cons x cs)
  obtain a b c where x: "x = (a, b, c)" by (cases x)
  let ?K = "(\<lambda>(a, b, c). bar_join a b c) ` set cs" and ?k = "bar_join a b c"
  show ?case
  proof (cases "go_get seen ?k")
    case None
    then have "?k \<notin> fst ` set seen" by (simp add: go_get_in_keys)
    moreover have "k \<notin> S \<Longrightarrow> insert k K - S = insert k (K - insert k S)" for k :: string and K S
      by auto
    ultimately have "insert ?k ?K - fst ` set seen = insert ?k (?K - insert ?k (fst ` set seen))" by blast
    then have "card (insert ?k ?K - fst ` set seen) = Suc (card (?K - insert ?k (fst ` set seen)))"
      by simp
    with None Cons.IH show ?thesis by (simp add: x Let_def go_map_simps)
  next
    case (Some u)
    then have "?k \<in> fst ` set seen" by (metis go_get_in_keys option.distinct(1))
    then have "insert ?k ?K - fst ` set seen = ?K - fst ` set seen" by blast
    with Some Cons.IH show ?thesis by (simp add: x)
  qed
qed simp

lemma count_chains_card: "count_chains cs = card ((\<lambda>(a, b, c). bar_join a b c) ` set cs)"
  unfolding count_chains_def using count_chains_fold [of cs 0 "[]"] by simp

definition chains_of :: "Edge set \<Rightarrow> string \<Rightarrow> (string \<times> string \<times> string) set" where
  "chains_of E p = {(a, b, c). mk_edge a p b \<in> E \<and> mk_edge b p c \<in> E}"

definition chain_keys :: "Edge list \<Rightarrow> string \<Rightarrow> nat" where
  "chain_keys edges p = card ((\<lambda>(a, b, c). bar_join a b c) ` chains_of (set edges) p)"

lemma SuggestTransitive_eq:
  "SuggestTransitive edges mn =
     map (\<lambda>p. \<lparr>sg_rule = transitive_rule p, sg_reason = ''observed_chains='' @ decimal (chain_keys edges p)\<rparr>)
       (filter (\<lambda>p. int (chain_keys edges p) \<ge> (if mn \<le> 0 then 1 else mn))
         (sorted_list_of_set (ePred ` set edges)))"
proof -
  let ?by = "fold (\<lambda>e m. go_put (ePred e) (go_index m (ePred e) @ [e]) m) edges []"
  have "go_index ?by p = filter (\<lambda>e. ePred e = p) edges" for p
    using group_fold [of ePred "\<lambda>e. e" edges "[]" p] by (simp add: go_index_def)
  moreover have "set (chain_list (adjacency (filter (\<lambda>e. ePred e = p) edges))) = chains_of (set edges) p" for p
  proof (rule set_eqI)
    fix x :: "string \<times> string \<times> string"
    obtain a b c where x: "x = (a, b, c)" by (cases x)
    have "e = mk_edge (eFrom e) (ePred e) (eTo e)" for e :: Edge by simp
    then have "(\<exists>e \<in> set edges. ePred e = p \<and> eFrom e = u \<and> eTo e = v) \<longleftrightarrow> mk_edge u p v \<in> set edges" for u v
      by (metis Edge.select_convs)
    then show "x \<in> set (chain_list (adjacency (filter (\<lambda>e. ePred e = p) edges))) \<longleftrightarrow> x \<in> chains_of (set edges) p"
      unfolding x set_chain_list chains_of_def by auto metis+
  qed
  ultimately have count: "count_chains (chain_list (adjacency (go_index ?by p))) = chain_keys edges p" for p
    by (simp only: count_chains_card chain_keys_def)
  have "sort_slice string_less (map fst ?by) = sorted_list_of_set (ePred ` set edges)"
  proof -
    have keys: "set (sort_slice string_less (map fst ?by)) = ePred ` set edges"
      using group_fold_keys [of ePred "\<lambda>e. e" edges "[]"] by simp
    have "distinct (sort_slice string_less (map fst ?by))"
      using group_fold_distinct [of "[]" ePred "\<lambda>e. e" edges] by simp
    moreover have "sorted (sort_slice string_less (map fst ?by))"
      using string_sort.sorted_sort_slice by simp
    ultimately show ?thesis
      using sorted_list_of_set.idem_if_sorted_distinct [of "sort_slice string_less (map fst ?by)"]
      unfolding keys by (simp only:)
  qed
  then have "SuggestTransitive edges mn =
      List.map_filter (\<lambda>p. if int (chain_keys edges p) < (if mn \<le> 0 then 1 else mn) then None
        else Some \<lparr>sg_rule = transitive_rule p,
          sg_reason = ''observed_chains='' @ decimal (chain_keys edges p)\<rparr>) (sorted_list_of_set (ePred ` set edges))"
    unfolding SuggestTransitive_def Let_def count by (simp only:)
  also have "List.map_filter (\<lambda>p. if P p then None else Some (h p)) ps = map h (filter (\<lambda>p. \<not> P p) ps)" for P and h :: "string \<Rightarrow> Suggestion" and ps
    by (induction ps) (simp_all add: map_filter_simps)
  finally show ?thesis
    by (simp add: not_less)
qed

section \<open>Properties of the suggestions\<close>

text \<open>
  C40: Where no node holds a separator, \<open>SuggestTransitive\<close> proposes the transitive rule of exactly
  those predicates that have at least the number of distinct two-hop chains asked for (at least one),
  in the order of the predicates, and reports that number. The order of the edges and repetitions
  among them do not matter.
\<close>

theorem suggestions_exact:
  assumes "\<forall>e \<in> set edges. plain (eFrom e) \<and> plain (eTo e)"
  shows "SuggestTransitive edges mn =
     map (\<lambda>p. \<lparr>sg_rule = transitive_rule p,
           sg_reason = ''observed_chains='' @ decimal (card (chains_of (set edges) p))\<rparr>)
       (filter (\<lambda>p. int (card (chains_of (set edges) p)) \<ge> max 1 mn)
         (sorted_list_of_set (ePred ` set edges)))"
proof -
  have "chain_keys edges p = card (chains_of (set edges) p)" for p
    unfolding chain_keys_def
  proof (rule card_image, rule inj_onI)
    fix x y
    assume "x \<in> chains_of (set edges) p" and "y \<in> chains_of (set edges) p"
      and eq: "(case x of (a, b, c) \<Rightarrow> bar_join a b c) = (case y of (a, b, c) \<Rightarrow> bar_join a b c)"
    moreover obtain a b c a' b' c' where xy: "x = (a, b, c)" "y = (a', b', c')"
      by (cases x; cases y)
    ultimately have "plain a" "plain b" "plain a'" "plain b'"
      using assms by (auto simp: chains_of_def)
    with eq show "x = y"
      by (simp add: xy bar_join_inject)
  qed
  moreover have "(if mn \<le> 0 then 1 else mn) = max 1 mn" by auto
  ultimately show ?thesis
    unfolding SuggestTransitive_eq by (simp only:)
qed

theorem suggestions_exact_witness:
  "map (\<lambda>s. rName (sg_rule s)) (SuggestTransitive [mk_edge ''a'' ''isa'' ''b'', mk_edge ''b'' ''isa'' ''c''] 1) =
     [''transitive:isa'']"
proof -
  let ?es = "[mk_edge ''a'' ''isa'' ''b'', mk_edge ''b'' ''isa'' ''c'']"
  have "\<forall>e \<in> set ?es. plain (eFrom e) \<and> plain (eTo e)"
    by (simp add: plain_def)
  note eq = suggestions_exact [OF this, of 1]
  have "chains_of (set ?es) ''isa'' = {(''a'', ''b'', ''c'')}"
    by (auto simp: chains_of_def)
  then show ?thesis
    unfolding eq by (simp add: transitive_rule_def)
qed

text \<open>
  With separators in the nodes, chains are lost: of the two chains \<open>a|b, c, d\<close> and \<open>a, b|c, d\<close> only
  one is counted, so that the rule is not proposed where two chains are asked for.
\<close>

theorem chain_key_collision:
  "card (chains_of (set [mk_edge ''a|b'' ''p'' ''c'', mk_edge ''c'' ''p'' ''d'',
      mk_edge ''a'' ''p'' ''b|c'', mk_edge ''b|c'' ''p'' ''d'']) ''p'') = 2 \<and>
   SuggestTransitive [mk_edge ''a|b'' ''p'' ''c'', mk_edge ''c'' ''p'' ''d'',
      mk_edge ''a'' ''p'' ''b|c'', mk_edge ''b|c'' ''p'' ''d''] 2 = []"
proof
  have "chains_of (set [mk_edge ''a|b'' ''p'' ''c'', mk_edge ''c'' ''p'' ''d'',
      mk_edge ''a'' ''p'' ''b|c'', mk_edge ''b|c'' ''p'' ''d'']) ''p'' =
      {(''a|b'', ''c'', ''d''), (''a'', ''b|c'', ''d'')}"
    by (auto simp: chains_of_def)
  then show "card (chains_of (set [mk_edge ''a|b'' ''p'' ''c'', mk_edge ''c'' ''p'' ''d'',
      mk_edge ''a'' ''p'' ''b|c'', mk_edge ''b|c'' ''p'' ''d'']) ''p'') = 2"
    by simp
qed code_simp

end
