(* ===== verification/Engine.thy ===== *)
theory Engine
  imports Rules_Correct Codec Log Semantic Metrics Derivations Ilp
begin

text \<open>
  The engine: \<open>engine.go\<close>, \<open>rules.go\<close>, \<open>query.go\<close> and \<open>ilp.go\<close> of package \<open>engine\<close>. The record \<open>Engine\<close> has
  the fields of the struct. What the engine calls through an interface is a record \<open>env\<close> of functions:
  the two methods of the log it uses (\<open>Replay\<close> as the records handed out and the error at the end) and
  the method of the inducer. No log is \<open>None\<close>, and an inducer that is \<open>None\<close> is \<open>NoopInducer\<close>.
\<close>

section \<open>State\<close>

record ('l, 'i) env =
  log_Append :: "Record \<Rightarrow> 'l \<Rightarrow> go_error option \<times> 'l"
  log_Replay :: "'l \<Rightarrow> Record list \<times> go_error option"
  ind_Observe :: "Example \<Rightarrow> 'i \<Rightarrow> Suggestion list \<times> 'i"

record ('l, 'i) Engine =
  e_beliefs :: Store
  e_graph :: MemGraph
  e_log :: "'l option"
  e_semantic :: SemanticIndex
  e_rules :: "Rule list"
  e_inducer :: "'i option"
  e_ilpAudit :: "Example list"
  e_metrics :: Metrics
  e_derivations :: derivation_map

type_synonym ('l, 'i) Option = "('l, 'i) Engine \<Rightarrow> go_error + ('l, 'i) Engine"

definition WithLog :: "'l option \<Rightarrow> ('l, 'i) Option" where
  "WithLog l e = Inr (e\<lparr>e_log := l\<rparr>)"

definition WithInducer :: "'i option \<Rightarrow> ('l, 'i) Option" where
  "WithInducer i e = (case i of None \<Rightarrow> Inr (e\<lparr>e_inducer := None\<rparr>) | Some i \<Rightarrow> Inr (e\<lparr>e_inducer := Some i\<rparr>))"

definition empty_engine :: "(nat \<Rightarrow> int) \<Rightarrow> ('l, 'i) Engine" where
  "empty_engine clock =
     \<lparr>e_beliefs = NewStore, e_graph = NewMemGraph, e_log = None, e_semantic = newSemanticIndex DefaultDims,
      e_rules = [], e_inducer = None, e_ilpAudit = [], e_metrics = NewMetrics 10000 clock, e_derivations = []\<rparr>"

fun apply_options :: "('l, 'i) Option list \<Rightarrow> ('l, 'i) Engine \<Rightarrow> go_error + ('l, 'i) Engine" where
  "apply_options [] e = Inr e"
| "apply_options (opt # opts) e = (case opt e of Inl err \<Rightarrow> Inl err | Inr e' \<Rightarrow> apply_options opts e')"

definition New :: "(nat \<Rightarrow> int) \<Rightarrow> ('l, 'i) Option list \<Rightarrow> go_error + ('l, 'i) Engine" where
  "New clock opts = apply_options opts (empty_engine clock)"

section \<open>Reading the graph\<close>

definition edge_atom :: "Edge \<Rightarrow> Atom" where
  "edge_atom e = mk_atom (eFrom e) (ePred e) (eTo e)"

definition CountIncoming :: "nodeID \<Rightarrow> string \<Rightarrow> ('l, 'i) Engine \<Rightarrow> int" where
  "CountIncoming to predicate e = graph_CountIncoming to predicate (e_graph e)"

definition RelatedEdges :: "Atom \<Rightarrow> ('l, 'i) Engine \<Rightarrow> Atom list" where
  "RelatedEdges atom e =
     map edge_atom (filter (\<lambda>edge. ePred edge = aPred atom) (EdgesFrom (aFrom atom) (e_graph e)))"

definition AllEdgesFrom :: "nodeID \<Rightarrow> ('l, 'i) Engine \<Rightarrow> Atom list" where
  "AllEdgesFrom from e = map edge_atom (EdgesFrom from (e_graph e))"

section \<open>Beliefs and rules\<close>

definition derivedSourcePrefix :: string where
  "derivedSourcePrefix = ''rule:''"

definition has_prefix :: "string \<Rightarrow> string \<Rightarrow> bool" where
  "has_prefix s p \<longleftrightarrow> take (length p) s = p"

definition resolvedFalse :: "Atom \<Rightarrow> ('l, 'i) Engine \<Rightarrow> bool" where
  "resolvedFalse atom e =
     (case Resolution_of atom (e_beliefs e) of None \<Rightarrow> False | Some r \<Rightarrow> rPolarity r = PolarityNegative)"

definition ingestNoLog :: "Belief \<Rightarrow> ('l, 'i) Engine \<Rightarrow> (go_error + Contradiction option) \<times> ('l, 'i) Engine" where
  "ingestNoLog b e =
     (case Add b (e_beliefs e) of
        (Inl err, s) \<Rightarrow> (Inl err, e\<lparr>e_beliefs := s\<rparr>)
      | (Inr c, s) \<Rightarrow>
          (let e1 = e\<lparr>e_beliefs := s\<rparr> in
           if bPolarity b = PolarityPositive \<and> \<not> resolvedFalse (bAtom b) e1
           then (Inr c, e1\<lparr>e_graph := snd (AddFact (aFrom (bAtom b)) (aPred (bAtom b)) (aTo (bAtom b)) (e_graph e1)),
                           e_semantic := Index (bAtom b) (e_semantic e1)\<rparr>)
           else (Inr c, e1)))"

definition pat_atom :: "AtomPattern \<Rightarrow> Atom" where
  "pat_atom p = mk_atom (pFrom p) (pPred p) (pTo p)"

definition rule_belief :: "Rule \<Rightarrow> Atom \<Rightarrow> Belief" where
  "rule_belief r a =
     \<lparr>bAtom = a, bPolarity = PolarityPositive, bSource = derivedSourcePrefix @ rName r, bUnixNano = 0\<rparr>"

text \<open>
  \<open>ApplyRules\<close>: its loops over the derivations of a rule, over the rules, and over the rounds, with the
  variables they share: the engine, \<open>remaining\<close> and \<open>addedThisRound\<close>. The \<open>return\<close> in the innermost
  loop leaves with \<open>remaining\<close> at zero or below, which the outer loops test.
\<close>

fun apply_derivations :: "Rule \<Rightarrow> Derivation list \<Rightarrow> ('l, 'i) Engine \<times> int \<times> nat \<Rightarrow> ('l, 'i) Engine \<times> int \<times> nat" where
  "apply_derivations r [] st = st"
| "apply_derivations r (d # ds) (e, remaining, added) =
     (let atom = pat_atom (dThen d);
          dp = \<lparr>dpRule = rName r, dpPremises = map pat_atom (dPremises d)\<rparr>;
          e1 = e\<lparr>e_derivations := addDerivation atom dp (e_derivations e)\<rparr>;
          before = Count (e_beliefs e1);
          e2 = snd (ingestNoLog (rule_belief r atom) e1);
          after = Count (e_beliefs e2)
      in if after > before then
           (if remaining - 1 \<le> 0 then (e2, remaining - 1, Suc added)
            else apply_derivations r ds (e2, remaining - 1, Suc added))
         else apply_derivations r ds (e2, remaining, added))"

fun apply_rules :: "Edge list \<Rightarrow> PredicateIndex \<Rightarrow> Rule list \<Rightarrow> ('l, 'i) Engine \<times> int \<times> nat \<Rightarrow>
    ('l, 'i) Engine \<times> int \<times> nat" where
  "apply_rules edges predIdx [] st = st"
| "apply_rules edges predIdx (r # rs) (e, remaining, added) =
     (let derivs = EvaluateRuleDerivationsIndexed r edges predIdx remaining;
          (e', remaining', added') = apply_derivations r derivs (e, remaining, added)
      in if remaining' \<le> 0 then (e', remaining', added')
         else apply_rules edges predIdx rs (e', remaining', added'))"

definition apply_round :: "('l, 'i) Engine \<Rightarrow> int \<Rightarrow> ('l, 'i) Engine \<times> int \<times> nat" where
  "apply_round e remaining =
     (let edges = EdgesAll (e_graph e); predIdx = BuildPredicateIndex edges
      in apply_rules edges predIdx (e_rules e) (e, remaining, 0))"

lemma apply_derivations_remaining:
  "apply_derivations r ds (e, remaining, added) = (e', remaining', added') \<Longrightarrow>
    remaining' + int added' = remaining + int added \<and> added \<le> added'"
proof (induction ds arbitrary: e remaining added)
  case (Cons d ds)
  show ?case
    using Cons.prems by (auto simp: Let_def split: if_splits dest!: Cons.IH)
qed simp

lemma apply_rules_remaining:
  "apply_rules edges idx rs (e, remaining, added) = (e', remaining', added') \<Longrightarrow>
    remaining' + int added' = remaining + int added \<and> added \<le> added'"
proof (induction rs arbitrary: e remaining added)
  case (Cons r rs)
  obtain e1 rem1 add1 where
    1: "apply_derivations r (EvaluateRuleDerivationsIndexed r edges idx remaining) (e, remaining, added) = (e1, rem1, add1)"
    by (metis prod_cases3)
  from apply_derivations_remaining [OF 1] Cons.prems 1 show ?case
    by (auto simp: Let_def split: if_splits dest!: Cons.IH)
qed simp

lemma apply_round_remaining:
  "apply_round e remaining = (e', remaining', added) \<Longrightarrow> remaining' = remaining - int added"
  by (auto simp: apply_round_def Let_def dest!: apply_rules_remaining)

function apply_loop :: "int \<Rightarrow> ('l, 'i) Engine \<Rightarrow> ('l, 'i) Engine" where
  "apply_loop remaining e =
     (if remaining \<le> 0 then e
      else
        case apply_round e remaining of
          (e', remaining', added) \<Rightarrow>
            (if remaining' \<le> 0 then e' else if added = 0 then e' else apply_loop remaining' e'))"
  by pat_completeness auto

termination
  by (relation "measure (\<lambda>(remaining, e). nat remaining)") (auto dest!: sym [THEN apply_round_remaining])

declare apply_loop.simps [simp del]

definition ApplyRules :: "int \<Rightarrow> ('l, 'i) Engine \<Rightarrow> ('l, 'i) Engine" where
  "ApplyRules maxDerivations e = (if maxDerivations \<le> 0 then e else apply_loop maxDerivations e)"

text \<open>\<open>recompute\<close> rebuilds everything derived from the base beliefs and the resolutions.\<close>

definition base_list :: "('l, 'i) Engine \<Rightarrow> Belief list" where
  "base_list e =
     filter (\<lambda>b. \<not> has_prefix (bSource b) derivedSourcePrefix)
       (concat (map (\<lambda>a. Snapshot a (e_beliefs e)) (Atoms (e_beliefs e))))"

definition set_resolutions :: "Resolution list \<Rightarrow> ('l, 'i) Engine \<Rightarrow> ('l, 'i) Engine" where
  "set_resolutions rs e = fold (\<lambda>r e. e\<lparr>e_beliefs := snd (SetResolution r (e_beliefs e))\<rparr>) rs e"

definition ingest_all :: "Belief list \<Rightarrow> ('l, 'i) Engine \<Rightarrow> ('l, 'i) Engine" where
  "ingest_all bs e = fold (\<lambda>b e. snd (ingestNoLog b e)) bs e"

definition recompute :: "('l, 'i) Engine \<Rightarrow> ('l, 'i) Engine" where
  "recompute e =
     (let base = base_list e;
          resolutions = Resolutions (e_beliefs e);
          e1 = e\<lparr>e_beliefs := NewStore, e_graph := NewMemGraph,
                 e_semantic := newSemanticIndex DefaultDims, e_derivations := []\<rparr>
      in ApplyRules 1000 (ingest_all base (set_resolutions resolutions e1)))"

section \<open>Metrics and the log\<close>

definition on_metrics :: "(Metrics \<Rightarrow> Metrics) \<Rightarrow> ('l, 'i) Engine \<Rightarrow> ('l, 'i) Engine" where
  "on_metrics f e = e\<lparr>e_metrics := f (e_metrics e)\<rparr>"

definition engine_Now :: "('l, 'i) Engine \<Rightarrow> int \<times> ('l, 'i) Engine" where
  "engine_Now e = (let (t, m) = time_Now (e_metrics e) in (t, e\<lparr>e_metrics := m\<rparr>))"

text \<open>\<open>e.metrics.Record("", op, time.Since(t0), nil)\<close>.\<close>

definition trace_since :: "string \<Rightarrow> int \<Rightarrow> ('l, 'i) Engine \<Rightarrow> ('l, 'i) Engine" where
  "trace_since op t0 e =
     (let (t1, e1) = engine_Now e in on_metrics (record_trace [] op (t1 - t0) []) e1)"

text \<open>
  The block under \<open>if e.log != nil\<close> in \<open>Ingest\<close>, \<open>Resolve\<close> and \<open>AddRule\<close>: the payload is encoded and
  appended, and the first error is the one the caller returns.
\<close>

definition log_event :: "('l, 'i) env \<Rightarrow> EventType \<Rightarrow> go_error + bytes \<Rightarrow> ('l, 'i) Engine \<Rightarrow>
    go_error option \<times> ('l, 'i) Engine" where
  "log_event env ty payload e =
     (case e_log e of
        None \<Rightarrow> (None, e)
      | Some l \<Rightarrow>
          (case payload of
             Inl err \<Rightarrow> (Some err, e)
           | Inr p \<Rightarrow>
               (let (err, l') = log_Append env \<lparr>recType = ty, recPayload = p\<rparr> l
                in (err, e\<lparr>e_log := Some l'\<rparr>))))"

section \<open>The operations\<close>

definition observe :: "('l, 'i) env \<Rightarrow> Example \<Rightarrow> ('l, 'i) Engine \<Rightarrow> ('l, 'i) Engine" where
  "observe env ex e =
     (case e_inducer e of None \<Rightarrow> e | Some i \<Rightarrow> e\<lparr>e_inducer := Some (snd (ind_Observe env ex i))\<rparr>)"

record IngestResult =
  ir_contradiction :: "Contradiction option"

definition Ingest :: "('l, 'i) env \<Rightarrow> Belief \<Rightarrow> ('l, 'i) Engine \<Rightarrow> (go_error + IngestResult) \<times> ('l, 'i) Engine" where
  "Ingest env b e =
     (let (t0, e0) = engine_Now e in
      case ingestNoLog b e0 of
        (Inl err, e1) \<Rightarrow> (Inl err, on_metrics (\<lambda>m. m\<lparr>ErrorCount := ErrorCount m + 1\<rparr>) e1)
      | (Inr c, e1) \<Rightarrow>
          (case log_event env EventFactAdded (encodeBelief b) e1 of
             (Some err, e2) \<Rightarrow> (Inl err, e2)
           | (None, e2) \<Rightarrow>
               (let ex = \<lparr>ex_belief = b\<rparr>;
                    e3 = e2\<lparr>e_ilpAudit := e_ilpAudit e2 @ [ex]\<rparr>;
                    e4 = observe env ex e3;
                    e5 = ApplyRules 1000 e4;
                    e6 = on_metrics (\<lambda>m. m\<lparr>IngestCount := IngestCount m + 1\<rparr>) e5
                in (Inr \<lparr>ir_contradiction = c\<rparr>, trace_since ''ingest'' t0 e6))))"

definition Resolve :: "('l, 'i) env \<Rightarrow> Resolution \<Rightarrow> ('l, 'i) Engine \<Rightarrow> go_error option \<times> ('l, 'i) Engine" where
  "Resolve env r e =
     (let (t0, e0) = engine_Now e in
      case SetResolution r (e_beliefs e0) of
        (Some err, s) \<Rightarrow>
          (Some err, on_metrics (\<lambda>m. m\<lparr>ErrorCount := ErrorCount m + 1\<rparr>) (e0\<lparr>e_beliefs := s\<rparr>))
      | (None, s) \<Rightarrow>
          (case log_event env EventResolutionSet (encodeResolution r) (e0\<lparr>e_beliefs := s\<rparr>) of
             (Some err, e2) \<Rightarrow> (Some err, e2)
           | (None, e2) \<Rightarrow>
               (let e3 = recompute e2;
                    e4 = on_metrics (\<lambda>m. m\<lparr>ResolveCount := ResolveCount m + 1\<rparr>) e3
                in (None, trace_since ''resolve'' t0 e4))))"

definition Rules_of :: "('l, 'i) Engine \<Rightarrow> Rule list" where
  "Rules_of e = e_rules e"

definition AddRule :: "('l, 'i) env \<Rightarrow> Rule \<Rightarrow> ('l, 'i) Engine \<Rightarrow> go_error option \<times> ('l, 'i) Engine" where
  "AddRule env r e =
     (if rName r = [] then (Some ErrRuleNameEmpty, e)
      else if rIf r = [] then (Some ErrRuleNoPremises, e)
      else
        case log_event env EventRuleAdded (encodeRule r) (e\<lparr>e_rules := e_rules e @ [r]\<rparr>) of
          (Some err, e2) \<Rightarrow> (Some err, e2)
        | (None, e2) \<Rightarrow> (None, ApplyRules 1000 e2))"

text \<open>The callback that \<open>ReplayFromLog\<close> passes to the log.\<close>

definition replay_event :: "('l, 'i) Engine ReplayFunc" where
  "replay_event r e =
     (if recType r = EventFactAdded then
        (case decodeBelief (recPayload r) of
           Inl err \<Rightarrow> (Some err, e)
         | Inr b \<Rightarrow>
             (case ingestNoLog b e of (Inl err, e') \<Rightarrow> (Some err, e') | (Inr _, e') \<Rightarrow> (None, e')))
      else if recType r = EventResolutionSet then
        (case decodeResolution (recPayload r) of
           Inl err \<Rightarrow> (Some err, e)
         | Inr res \<Rightarrow>
             (case SetResolution res (e_beliefs e) of (err, s) \<Rightarrow> (err, e\<lparr>e_beliefs := s\<rparr>)))
      else if recType r = EventRuleAdded then
        (case decodeRule (recPayload r) of
           Inl err \<Rightarrow> (Some err, e)
         | Inr ru \<Rightarrow> (None, e\<lparr>e_rules := e_rules e @ [ru]\<rparr>))
      else (None, e))"

definition ReplayFromLog :: "('l, 'i) env \<Rightarrow> ('l, 'i) Engine \<Rightarrow> go_error option \<times> ('l, 'i) Engine" where
  "ReplayFromLog env e =
     (case e_log e of
        None \<Rightarrow> (Some ErrLogNotConfigured, e)
      | Some l \<Rightarrow>
          (let e1 = e\<lparr>e_beliefs := NewStore, e_graph := NewMemGraph, e_rules := [], e_ilpAudit := [],
                      e_derivations := []\<rparr>
           in case replay_records replay_event (fst (log_Replay env l)) (snd (log_Replay env l)) e1 of
                (Some err, e2) \<Rightarrow> (Some err, e2)
              | (None, e2) \<Rightarrow> (None, recompute e2)))"

section \<open>Queries\<close>

datatype TruthValue = TruthUnknown | TruthTrue | TruthFalse | TruthBoth

record Proof =
  pf_kind :: string
  pf_details :: "(string, string) gomap"
  pf_derivations :: "DerivationProof list"

definition Evaluate_result :: "Atom \<Rightarrow> ('l, 'i) Engine \<Rightarrow> TruthValue \<times> Proof" where
  "Evaluate_result atom e =
     (case Resolution_of atom (e_beliefs e) of
        Some r \<Rightarrow>
          (if rPolarity r = PolarityPositive
           then (TruthTrue, \<lparr>pf_kind = ''resolution'', pf_details = [(''source'', rSource r)], pf_derivations = []\<rparr>)
           else (TruthFalse, \<lparr>pf_kind = ''resolution'', pf_details = [(''source'', rSource r)], pf_derivations = []\<rparr>))
      | None \<Rightarrow>
          (let snap = Snapshot atom (e_beliefs e);
               seenPos = (\<exists>b \<in> set snap. bPolarity b = PolarityPositive);
               seenNeg = (\<exists>b \<in> set snap. bPolarity b = PolarityNegative)
           in if seenPos \<and> seenNeg then
                (TruthBoth, \<lparr>pf_kind = ''contradiction'',
                   pf_details = [(''reason'', ''both polarities present'')], pf_derivations = []\<rparr>)
              else if seenPos then
                (let ds = derivationsFor atom (e_derivations e)
                 in if length ds > 0 then
                      (TruthTrue, \<lparr>pf_kind = ''derived'',
                         pf_details = [(''reason'', ''rule-derived'')], pf_derivations = ds\<rparr>)
                    else
                      (TruthTrue, \<lparr>pf_kind = ''belief'',
                         pf_details = [(''reason'', ''positive belief present'')], pf_derivations = []\<rparr>))
              else if seenNeg then
                (TruthFalse, \<lparr>pf_kind = ''belief'',
                   pf_details = [(''reason'', ''negative belief present'')], pf_derivations = []\<rparr>)
              else
                (TruthUnknown, \<lparr>pf_kind = ''none'',
                   pf_details = [(''reason'', ''no evidence'')], pf_derivations = []\<rparr>)))"

definition Evaluate :: "Atom \<Rightarrow> ('l, 'i) Engine \<Rightarrow> (TruthValue \<times> Proof) \<times> ('l, 'i) Engine" where
  "Evaluate atom e =
     (let (t0, e0) = engine_Now e;
          res = Evaluate_result atom e0
      in (res, trace_since ''evaluate'' t0 (on_metrics (\<lambda>m. m\<lparr>QueryCount := QueryCount m + 1\<rparr>) e0)))"

definition ILPAudit :: "('l, 'i) Engine \<Rightarrow> Example list" where
  "ILPAudit e = e_ilpAudit e"

definition ILPSuggest :: "int \<Rightarrow> ('l, 'i) Engine \<Rightarrow> Suggestion list" where
  "ILPSuggest minChains e = SuggestTransitive (EdgesAll (e_graph e)) minChains"

end
