(* ===== verification/Engine_Inv.thy ===== *)
theory Engine_Inv
  imports Engine
begin

text \<open>
  The invariants of the engine. \<open>engine_ok\<close> joins the invariants of its parts; \<open>synced\<close> says that the
  graph and the semantic index hold exactly the atoms with a positive belief that are not resolved to
  false. Each operation is followed through its parts, and what it leaves alone is a simplification rule.
\<close>

named_theorems engine_simps \<open>the fields of the engine after an operation\<close>

definition engine_ok :: "('l, 'i) Engine \<Rightarrow> bool" where
  "engine_ok e \<longleftrightarrow>
     store_ok (e_beliefs e) \<and> graph_ok (e_graph e) \<and> index_ok (e_semantic e) \<and>
     derivs_ok (e_derivations e) \<and> trace_ok (e_metrics e)"

definition beliefs_of :: "('l, 'i) Engine \<Rightarrow> Belief set" where
  "beliefs_of e = store_beliefs (e_beliefs e)"

definition facts_of :: "('l, 'i) Engine \<Rightarrow> triple set" where
  "facts_of e = graph_facts (e_graph e)"

definition held_facts :: "('l, 'i) Engine \<Rightarrow> triple set" where
  "held_facts e =
     {atom_triple (bAtom b) | b.
        b \<in> beliefs_of e \<and> bPolarity b = PolarityPositive \<and> \<not> resolvedFalse (bAtom b) e}"

definition synced :: "('l, 'i) Engine \<Rightarrow> bool" where
  "synced e \<longleftrightarrow> facts_of e = held_facts e \<and> indexed (e_semantic e) = {a. atom_triple a \<in> facts_of e}"

lemma engine_okD:
  assumes "engine_ok e"
  shows "store_ok (e_beliefs e)" "slots_ok (e_beliefs e)" "resolutions_ok (e_beliefs e)" "graph_ok (e_graph e)"
    "index_ok (e_semantic e)" "derivs_ok (e_derivations e)" "trace_ok (e_metrics e)"
  using assms by (simp_all add: engine_ok_def store_ok_def)

section \<open>Ingesting without the log\<close>

lemma ingestNoLog_result [engine_simps]: "fst (ingestNoLog b e) = fst (Add b (e_beliefs e))"
  by (simp add: ingestNoLog_def Let_def split: prod.split sum.split)

lemma ingestNoLog_beliefs [engine_simps]: "e_beliefs (snd (ingestNoLog b e)) = snd (Add b (e_beliefs e))"
  by (simp add: ingestNoLog_def Let_def split: prod.split sum.split)

lemma ingestNoLog_fields [simp]:
  "e_log (snd (ingestNoLog b e)) = e_log e" "e_rules (snd (ingestNoLog b e)) = e_rules e"
  "e_inducer (snd (ingestNoLog b e)) = e_inducer e" "e_ilpAudit (snd (ingestNoLog b e)) = e_ilpAudit e"
  "e_metrics (snd (ingestNoLog b e)) = e_metrics e" "e_derivations (snd (ingestNoLog b e)) = e_derivations e"
  by (simp_all add: ingestNoLog_def Let_def split: prod.split sum.split)

lemma Resolution_of_Add:
  "slots_ok s \<Longrightarrow> Resolution_of a (snd (Add b s)) = Resolution_of a s"
  by (simp add: Resolution_of_def Add_resolutions)

lemma resolvedFalse_ingest [simp]:
  "engine_ok e \<Longrightarrow> resolvedFalse a (snd (ingestNoLog b e)) = resolvedFalse a e"
  by (simp add: resolvedFalse_def engine_simps Resolution_of_Add engine_okD)

lemma beliefs_of_ingest [engine_simps]:
  "engine_ok e \<Longrightarrow> beliefs_of (snd (ingestNoLog b e)) = (if valid_belief b then insert b (beliefs_of e) else beliefs_of e)"
  by (simp add: beliefs_of_def engine_simps store_beliefs_Add engine_okD)

lemma valid_fields:
  "valid_belief b \<Longrightarrow> aFrom (bAtom b) \<noteq> [] \<and> aPred (bAtom b) \<noteq> [] \<and> aTo (bAtom b) \<noteq> [] \<and> bSource b \<noteq> []"
  by (auto simp: valid_belief_def check_fields_def split: if_splits)

lemma Add_Inr_iff: "(\<exists>c. fst (Add b s) = Inr c) \<longleftrightarrow> valid_belief b"
  by (auto simp: Add_def valid_belief_def Let_def split: option.splits list.splits if_splits)

lemma facts_of_ingest [engine_simps]:
  assumes "engine_ok e"
  shows "facts_of (snd (ingestNoLog b e)) =
    (if valid_belief b \<and> bPolarity b = PolarityPositive \<and> \<not> resolvedFalse (bAtom b) e
     then insert (atom_triple (bAtom b)) (facts_of e) else facts_of e)"
proof (cases "Add b (e_beliefs e)")
  case (Pair res s)
  have s: "s = snd (Add b (e_beliefs e))" by (simp add: Pair)
  have rf: "resolvedFalse (bAtom b) (e\<lparr>e_beliefs := s\<rparr>) = resolvedFalse (bAtom b) e"
    using assms by (simp add: resolvedFalse_def s Resolution_of_Add engine_okD)
  show ?thesis
  proof (cases res)
    case (Inl err)
    then have "\<not> valid_belief b"
      using Add_Inr_iff [of b "e_beliefs e"] by (simp add: Pair)
    then show ?thesis by (simp add: ingestNoLog_def Pair Inl facts_of_def)
  next
    case (Inr c)
    then have "valid_belief b"
      using Add_Inr_iff [of b "e_beliefs e"] by (simp add: Pair)
    then show ?thesis
      using valid_fields [of b] rf
      by (simp add: ingestNoLog_def Pair Inr Let_def facts_of_def graph_facts_AddFact atom_triple_def)
  qed
qed

lemma indexed_ingest:
  assumes "engine_ok e"
  shows "indexed (e_semantic (snd (ingestNoLog b e))) =
    (if valid_belief b \<and> bPolarity b = PolarityPositive \<and> \<not> resolvedFalse (bAtom b) e
     then insert (bAtom b) (indexed (e_semantic e)) else indexed (e_semantic e))"
proof (cases "Add b (e_beliefs e)")
  case (Pair res s)
  have s: "s = snd (Add b (e_beliefs e))" by (simp add: Pair)
  have rf: "resolvedFalse (bAtom b) (e\<lparr>e_beliefs := s\<rparr>) = resolvedFalse (bAtom b) e"
    using assms by (simp add: resolvedFalse_def s Resolution_of_Add engine_okD)
  have "valid_belief b \<longleftrightarrow> (\<exists>c. res = Inr c)"
    using Add_Inr_iff [of b "e_beliefs e"] by (simp add: Pair)
  then show ?thesis
    using rf by (cases res) (simp_all add: ingestNoLog_def Pair Let_def)
qed

lemma engine_ok_ingest:
  assumes "engine_ok e"
  shows "engine_ok (snd (ingestNoLog b e))"
proof -
  have "store_ok (e_beliefs (snd (ingestNoLog b e)))"
    using assms by (simp add: engine_simps store_ok_Add engine_okD)
  moreover have "graph_ok (e_graph (snd (ingestNoLog b e))) \<and> index_ok (e_semantic (snd (ingestNoLog b e)))"
    using assms engine_okD [OF assms]
    by (simp add: ingestNoLog_def Let_def graph_ok_AddFact index_ok_Index split: prod.split sum.split)
  ultimately show ?thesis
    using engine_okD [OF assms] by (simp add: engine_ok_def)
qed

lemma held_facts_ingest:
  assumes "engine_ok e"
  shows "held_facts (snd (ingestNoLog b e)) =
    (if valid_belief b \<and> bPolarity b = PolarityPositive \<and> \<not> resolvedFalse (bAtom b) e
     then insert (atom_triple (bAtom b)) (held_facts e) else held_facts e)"
  using assms by (auto simp: held_facts_def beliefs_of_ingest)

lemma atom_triple_eq [simp]: "atom_triple a = atom_triple b \<longleftrightarrow> a = b"
  by (rule inj_eq [OF inj_atom_triple])

lemma synced_ingest: "engine_ok e \<Longrightarrow> synced e \<Longrightarrow> synced (snd (ingestNoLog b e))"
  by (auto simp: synced_def facts_of_ingest held_facts_ingest indexed_ingest)

section \<open>Applying rules\<close>

text \<open>
  \<open>ApplyRules\<close> is a sequence of steps, each of which records a derivation of a rule over the edges of
  a round and ingests its conclusion. A property of engines that every such step keeps is kept by
  \<open>ApplyRules\<close>.
\<close>

definition derive_step :: "Rule \<Rightarrow> Derivation \<Rightarrow> ('l, 'i) Engine \<Rightarrow> ('l, 'i) Engine" where
  "derive_step r d e =
     snd (ingestNoLog (rule_belief r (pat_atom (dThen d)))
       (e\<lparr>e_derivations := addDerivation (pat_atom (dThen d))
            \<lparr>dpRule = rName r, dpPremises = map pat_atom (dPremises d)\<rparr> (e_derivations e)\<rparr>))"

lemma apply_derivations_step:
  "apply_derivations r (d # ds) (e, remaining, added) =
     (if Count (e_beliefs (derive_step r d e)) > Count (e_beliefs e) then
        (if remaining - 1 \<le> 0 then (derive_step r d e, remaining - 1, Suc added)
         else apply_derivations r ds (derive_step r d e, remaining - 1, Suc added))
      else apply_derivations r ds (derive_step r d e, remaining, added))"
  by (simp add: derive_step_def Let_def)

declare apply_derivations.simps(2) [simp del]

lemma apply_derivations_induct:
  assumes "P e" and "\<And>e d. P e \<Longrightarrow> d \<in> set ds \<Longrightarrow> P (derive_step r d e)"
  shows "P (fst (apply_derivations r ds (e, remaining, added)))"
  using assms
proof (induction ds arbitrary: e remaining added)
  case (Cons d ds)
  have step: "P (derive_step r d e)"
    using Cons.prems by simp
  have "P (fst (apply_derivations r ds (derive_step r d e, m, n)))" for m n
    by (rule Cons.IH [OF step]) (use Cons.prems in simp)
  with step show ?case by (simp add: apply_derivations_step)
qed simp

lemma apply_rules_induct:
  assumes "P e"
    and "\<And>e r d n. P e \<Longrightarrow> r \<in> set rs \<Longrightarrow> d \<in> set (EvaluateRuleDerivations r edges n) \<Longrightarrow> P (derive_step r d e)"
  shows "P (fst (apply_rules edges (BuildPredicateIndex edges) rs (e, remaining, added)))"
  using assms
proof (induction rs arbitrary: e remaining added)
  case (Cons r rs)
  obtain e1 m1 n1 where 1: "apply_derivations r (EvaluateRuleDerivationsIndexed r edges (BuildPredicateIndex edges) remaining)
      (e, remaining, added) = (e1, m1, n1)"
    by (metis prod_cases3)
  have "P (fst (apply_derivations r (EvaluateRuleDerivationsIndexed r edges (BuildPredicateIndex edges) remaining) (e, remaining, added)))"
    by (rule apply_derivations_induct [where P = P, OF Cons.prems(1)])
      (use Cons.prems(2) in \<open>simp add: EvaluateRuleDerivationsIndexed_eq\<close>)
  then have P1: "P e1" by (simp add: 1)
  have "P (fst (apply_rules edges (BuildPredicateIndex edges) rs (e1, m1, n1)))"
    by (rule Cons.IH [OF P1]) (use Cons.prems(2) in simp)
  with P1 show ?case by (simp add: 1 Let_def)
qed simp

text \<open>The edges of a round are those of the engine at its start.\<close>

lemma apply_loop_induct:
  assumes "P e"
    and "\<And>e0 e r d n. P e0 \<Longrightarrow> P e \<Longrightarrow> facts_of e0 \<subseteq> facts_of e \<Longrightarrow> r \<in> set (e_rules e0) \<Longrightarrow>
      d \<in> set (EvaluateRuleDerivations r (EdgesAll (e_graph e0)) n) \<Longrightarrow>
      P (derive_step r d e) \<and> facts_of e \<subseteq> facts_of (derive_step r d e)"
  shows "P (apply_loop remaining e)"
  using assms(1)
proof (induction remaining e rule: apply_loop.induct)
  case (1 remaining e)
  let ?Q = "\<lambda>e'. P e' \<and> facts_of e \<subseteq> facts_of e'"
  obtain e' remaining' added where round: "apply_round e remaining = (e', remaining', added)"
    by (metis prod_cases3)
  have "?Q (fst (apply_round e remaining))"
    unfolding apply_round_def Let_def
  proof (rule apply_rules_induct [where P = ?Q])
    show "?Q e" using 1(2) by simp
    fix x r d n
    assume "?Q x" and "r \<in> set (e_rules e)" and "d \<in> set (EvaluateRuleDerivations r (EdgesAll (e_graph e)) n)"
    then show "?Q (derive_step r d x)"
      using assms(2) [OF 1(2), of x r d n] by auto
  qed
  then have P': "P e'" by (simp add: round)
  show ?case
  proof (cases "remaining \<le> 0")
    case True
    with 1(2) show ?thesis by (simp add: apply_loop.simps)
  next
    case False
    then show ?thesis
      using 1(1) [OF False round [symmetric] refl] P'
      by (subst apply_loop.simps) (simp add: round)
  qed
qed

text \<open>The abstractions look at the store and the graph only.\<close>

lemma beliefs_of_cong: "e_beliefs e' = e_beliefs e \<Longrightarrow> beliefs_of e' = beliefs_of e"
  by (simp add: beliefs_of_def)

lemma resolvedFalse_cong: "e_beliefs e' = e_beliefs e \<Longrightarrow> resolvedFalse a e' = resolvedFalse a e"
  by (simp add: resolvedFalse_def)

lemma held_facts_cong: "e_beliefs e' = e_beliefs e \<Longrightarrow> held_facts e' = held_facts e"
  by (simp add: held_facts_def beliefs_of_def resolvedFalse_def)

lemma synced_cong: "e_beliefs e' = e_beliefs e \<Longrightarrow> e_graph e' = e_graph e \<Longrightarrow> e_semantic e' = e_semantic e \<Longrightarrow>
    synced e' = synced e"
  using held_facts_cong [of e' e] by (simp add: synced_def facts_of_def)

lemma core_update_derivations [simp]:
  "beliefs_of (e\<lparr>e_derivations := x\<rparr>) = beliefs_of e" "facts_of (e\<lparr>e_derivations := x\<rparr>) = facts_of e"
  "resolvedFalse a (e\<lparr>e_derivations := x\<rparr>) = resolvedFalse a e" "held_facts (e\<lparr>e_derivations := x\<rparr>) = held_facts e"
  "synced (e\<lparr>e_derivations := x\<rparr>) = synced e"
  by (simp_all add: beliefs_of_def facts_of_def resolvedFalse_def held_facts_def synced_def)

lemma engine_ok_derivations:
  "engine_ok e \<Longrightarrow> derivs_ok x \<Longrightarrow> engine_ok (e\<lparr>e_derivations := x\<rparr>)"
  by (simp add: engine_ok_def)

section \<open>One derivation\<close>

lemma derive_step_fields [simp]:
  "e_log (derive_step r d e) = e_log e" "e_rules (derive_step r d e) = e_rules e"
  "e_inducer (derive_step r d e) = e_inducer e" "e_ilpAudit (derive_step r d e) = e_ilpAudit e"
  "e_metrics (derive_step r d e) = e_metrics e"
  by (simp_all add: derive_step_def)

lemma engine_ok_add_derivation:
  "engine_ok e \<Longrightarrow> engine_ok (e\<lparr>e_derivations := addDerivation a dp (e_derivations e)\<rparr>)"
  by (rule engine_ok_derivations) (simp_all add: engine_okD derivs_ok_add)

lemma engine_ok_derive: "engine_ok e \<Longrightarrow> engine_ok (derive_step r d e)"
  unfolding derive_step_def by (intro engine_ok_ingest engine_ok_add_derivation)

lemma synced_derive: "engine_ok e \<Longrightarrow> synced e \<Longrightarrow> synced (derive_step r d e)"
  unfolding derive_step_def by (intro synced_ingest engine_ok_add_derivation) simp_all

definition valid_pat :: "AtomPattern \<Rightarrow> bool" where
  "valid_pat p \<longleftrightarrow> pFrom p \<noteq> [] \<and> pPred p \<noteq> [] \<and> pTo p \<noteq> []"

lemma valid_rule_belief: "valid_belief (rule_belief r (pat_atom p)) \<longleftrightarrow> valid_pat p"
  by (auto simp: valid_belief_def check_fields_def rule_belief_def pat_atom_def valid_pat_def derivedSourcePrefix_def)

lemma rule_belief_simps [simp]:
  "bAtom (rule_belief r a) = a" "bPolarity (rule_belief r a) = PolarityPositive"
  "bSource (rule_belief r a) = derivedSourcePrefix @ rName r" "bUnixNano (rule_belief r a) = 0"
  by (simp_all add: rule_belief_def)

lemma atom_triple_pat [simp]: "atom_triple (pat_atom p) = pat_triple p"
  by (simp add: pat_atom_def pat_triple_def)

lemma derive_beliefs [engine_simps]:
  "engine_ok e \<Longrightarrow> beliefs_of (derive_step r d e) =
     (if valid_pat (dThen d) then insert (rule_belief r (pat_atom (dThen d))) (beliefs_of e) else beliefs_of e)"
  by (simp add: derive_step_def beliefs_of_ingest engine_ok_add_derivation valid_rule_belief)

lemma derive_resolvedFalse [simp]: "engine_ok e \<Longrightarrow> resolvedFalse a (derive_step r d e) = resolvedFalse a e"
  by (simp add: derive_step_def engine_ok_add_derivation)

lemma derive_Resolution_of [simp]:
  "engine_ok e \<Longrightarrow> Resolution_of a (e_beliefs (derive_step r d e)) = Resolution_of a (e_beliefs e)"
  by (simp add: derive_step_def engine_simps Resolution_of_Add engine_okD)

lemma derive_facts [engine_simps]:
  "engine_ok e \<Longrightarrow> facts_of (derive_step r d e) =
     (if valid_pat (dThen d) \<and> \<not> resolvedFalse (pat_atom (dThen d)) e
      then insert (pat_triple (dThen d)) (facts_of e) else facts_of e)"
  by (simp add: derive_step_def facts_of_ingest engine_ok_add_derivation valid_rule_belief)

lemma derive_facts_mono: "engine_ok e \<Longrightarrow> facts_of e \<subseteq> facts_of (derive_step r d e)"
  by (auto simp: derive_facts)

text \<open>What one derivation keeps: a rule for invariants of \<open>ApplyRules\<close>.\<close>

lemma ApplyRules_induct:
  assumes "engine_ok e" and "P e"
    and "\<And>e0 e r d n. engine_ok e0 \<Longrightarrow> P e0 \<Longrightarrow> engine_ok e \<Longrightarrow> P e \<Longrightarrow> facts_of e0 \<subseteq> facts_of e \<Longrightarrow>
      r \<in> set (e_rules e0) \<Longrightarrow> d \<in> set (EvaluateRuleDerivations r (EdgesAll (e_graph e0)) n) \<Longrightarrow> P (derive_step r d e)"
  shows "engine_ok (ApplyRules n e) \<and> P (ApplyRules n e)"
proof -
  have "(\<lambda>e. engine_ok e \<and> P e) (apply_loop n e)"
  proof (rule apply_loop_induct)
    show "engine_ok e \<and> P e" using assms by simp
    fix e0 e :: "('a, 'b) Engine" and r d m
    assume "engine_ok e0 \<and> P e0" and "engine_ok e \<and> P e" and "facts_of e0 \<subseteq> facts_of e"
      and "r \<in> set (e_rules e0)" and "d \<in> set (EvaluateRuleDerivations r (EdgesAll (e_graph e0)) m)"
    then show "(engine_ok (derive_step r d e) \<and> P (derive_step r d e)) \<and> facts_of e \<subseteq> facts_of (derive_step r d e)"
      using assms(3) [of e0 e r d m] by (simp add: engine_ok_derive derive_facts_mono)
  qed
  then show ?thesis
    using assms by (simp add: ApplyRules_def)
qed

lemma engine_ok_ApplyRules: "engine_ok e \<Longrightarrow> engine_ok (ApplyRules n e)"
  using ApplyRules_induct [where P = "\<lambda>_. True"] by blast

lemma synced_ApplyRules: "engine_ok e \<Longrightarrow> synced e \<Longrightarrow> synced (ApplyRules n e)"
  using ApplyRules_induct [where P = synced] synced_derive by blast

lemma ApplyRules_fields [simp]:
  assumes "engine_ok e"
  shows "e_log (ApplyRules n e) = e_log e" "e_rules (ApplyRules n e) = e_rules e"
    "e_inducer (ApplyRules n e) = e_inducer e" "e_ilpAudit (ApplyRules n e) = e_ilpAudit e"
    "e_metrics (ApplyRules n e) = e_metrics e"
    "Resolution_of a (e_beliefs (ApplyRules n e)) = Resolution_of a (e_beliefs e)"
    "resolvedFalse a (ApplyRules n e) = resolvedFalse a e"
proof -
  let ?P = "\<lambda>x. e_log x = e_log e \<and> e_rules x = e_rules e \<and> e_inducer x = e_inducer e \<and>
    e_ilpAudit x = e_ilpAudit e \<and> e_metrics x = e_metrics e \<and>
    (\<forall>a. Resolution_of a (e_beliefs x) = Resolution_of a (e_beliefs e))"
  have "?P (ApplyRules n e)"
    using ApplyRules_induct [where P = ?P and e = e and n = n] assms by simp
  then show "e_log (ApplyRules n e) = e_log e" "e_rules (ApplyRules n e) = e_rules e"
    "e_inducer (ApplyRules n e) = e_inducer e" "e_ilpAudit (ApplyRules n e) = e_ilpAudit e"
    "e_metrics (ApplyRules n e) = e_metrics e"
    "Resolution_of a (e_beliefs (ApplyRules n e)) = Resolution_of a (e_beliefs e)"
    "resolvedFalse a (ApplyRules n e) = resolvedFalse a e"
    by (simp_all add: resolvedFalse_def)
qed

text \<open>Applying rules adds beliefs of rules, and no others.\<close>

definition base_beliefs :: "('l, 'i) Engine \<Rightarrow> Belief set" where
  "base_beliefs e = {b \<in> beliefs_of e. \<not> has_prefix (bSource b) derivedSourcePrefix}"

definition rule_made :: "Rule list \<Rightarrow> Belief \<Rightarrow> bool" where
  "rule_made rs b \<longleftrightarrow> (\<exists>r \<in> set rs. b = rule_belief r (bAtom b))"

lemma has_prefix_append [simp]: "has_prefix (p @ s) p"
  by (simp add: has_prefix_def)

lemma ApplyRules_beliefs:
  assumes "engine_ok e"
  shows "beliefs_of e \<subseteq> beliefs_of (ApplyRules n e) \<and>
    (\<forall>b \<in> beliefs_of (ApplyRules n e). b \<in> beliefs_of e \<or> rule_made (e_rules e) b)"
proof -
  let ?P = "\<lambda>x. e_rules x = e_rules e \<and> beliefs_of e \<subseteq> beliefs_of x \<and>
    (\<forall>b \<in> beliefs_of x. b \<in> beliefs_of e \<or> rule_made (e_rules e) b)"
  have "engine_ok (ApplyRules n e) \<and> ?P (ApplyRules n e)"
    by (rule ApplyRules_induct [where P = ?P, OF assms])
      (auto simp: derive_beliefs rule_made_def)
  then show ?thesis by simp
qed

lemma base_beliefs_ApplyRules [simp]:
  assumes "engine_ok e"
  shows "base_beliefs (ApplyRules n e) = base_beliefs e"
proof -
  have "has_prefix (bSource b) derivedSourcePrefix" if "rule_made rs b" for rs b
    using that by (auto simp: rule_made_def) (metis has_prefix_append rule_belief_simps(3))
  then show ?thesis
    using ApplyRules_beliefs [OF assms, of n] by (auto simp: base_beliefs_def)
qed

lemma ApplyRules_facts_mono: "engine_ok e \<Longrightarrow> facts_of e \<subseteq> facts_of (ApplyRules n e)"
  using ApplyRules_induct [where P = "\<lambda>x. facts_of e \<subseteq> facts_of x"] derive_facts_mono by blast

end
