(* ===== verification/Engine_Ops.thy ===== *)
theory Engine_Ops
  imports Engine_Inv
begin

text \<open>
  What \<open>recompute\<close> does to the beliefs, the resolutions and the facts of an engine, and which of its
  fields the reasoning depends on: the operations commute with any change of the log, the inducer, the
  audit list and the metrics.
\<close>

section \<open>Recomputing\<close>

lemma fold_SetResolution:
  assumes "distinct (map rAtom rs)" and "\<forall>r \<in> set rs. valid_resolution r"
  shows "Resolution_of a (fold (\<lambda>r s. snd (SetResolution r s)) rs s) =
    (case map_of (map (\<lambda>r. (rAtom r, r)) rs) a of Some r \<Rightarrow> Some r | None \<Rightarrow> Resolution_of a s)"
  using assms
proof (induction rs arbitrary: s)
  case (Cons r rs)
  have "map_of (map (\<lambda>r. (rAtom r, r)) rs) (rAtom r) = None"
    using Cons.prems(1) by (force simp: map_of_eq_None_iff)
  with Cons show ?case
    by (auto simp: SetResolution_lookup split: option.split)
qed simp

lemma fold_SetResolution_ok:
  "store_ok s \<Longrightarrow> store_ok (fold (\<lambda>r s. snd (SetResolution r s)) rs s) \<and>
    store_beliefs (fold (\<lambda>r s. snd (SetResolution r s)) rs s) = store_beliefs s"
  by (induction rs arbitrary: s) (simp_all add: store_ok_SetResolution SetResolution_beliefs)

lemma set_resolutions_eq: "set_resolutions rs e = e\<lparr>e_beliefs := fold (\<lambda>r s. snd (SetResolution r s)) rs (e_beliefs e)\<rparr>"
  unfolding set_resolutions_def by (induction rs arbitrary: e) simp_all

text \<open>The resolutions of a store, set again in an empty store, are the same resolutions.\<close>

lemma restore_resolutions:
  assumes "resolutions_ok s"
  shows "Resolution_of a (fold (\<lambda>r s. snd (SetResolution r s)) (Resolutions s) NewStore) = Resolution_of a s"
proof -
  have valid: "\<forall>r \<in> set (Resolutions s). valid_resolution r"
    using assms mem_Resolutions [OF assms] Resolution_of_valid [OF assms] by blast
  have "map_of (map (\<lambda>r. (rAtom r, r)) (Resolutions s)) a = Resolution_of a s"
  proof (cases "Resolution_of a s")
    case None
    then have "a \<notin> rAtom ` set (Resolutions s)"
      using mem_Resolutions [OF assms] by auto
    then show ?thesis
      using None by (force simp: map_of_eq_None_iff)
  next
    case (Some r)
    then have "r \<in> set (Resolutions s)" and "rAtom r = a"
      using mem_Resolutions [OF assms] Resolution_of_valid [OF assms Some] by auto
    then have "(a, r) \<in> set (map (\<lambda>r. (rAtom r, r)) (Resolutions s))" by force
    moreover have "distinct (map fst (map (\<lambda>r. (rAtom r, r)) (Resolutions s)))"
      using distinct_Resolutions [OF assms] by (simp add: comp_def)
    ultimately show ?thesis
      using Some by (simp only: map_of_is_SomeI)
  qed
  then show ?thesis
    using fold_SetResolution [OF distinct_Resolutions [OF assms] valid, of a NewStore]
    by (simp add: Resolution_of_def NewStore_def split: option.split)
qed

lemma set_base_list: "engine_ok e \<Longrightarrow> set (base_list e) = base_beliefs e"
  using engine_okD [of e]
  by (auto simp: base_list_def base_beliefs_def beliefs_of_def set_Atoms mem_Snapshot)

text \<open>A fresh engine that keeps the log, the rules and what does not concern the beliefs.\<close>

definition cleared :: "('l, 'i) Engine \<Rightarrow> ('l, 'i) Engine" where
  "cleared e = e\<lparr>e_beliefs := NewStore, e_graph := NewMemGraph,
                 e_semantic := newSemanticIndex DefaultDims, e_derivations := []\<rparr>"

lemma recompute_cleared:
  "recompute e = ApplyRules 1000 (ingest_all (base_list e) (set_resolutions (Resolutions (e_beliefs e)) (cleared e)))"
  by (simp add: recompute_def cleared_def Let_def)

lemma ingest_all_ok:
  assumes "engine_ok e" and "synced e"
  shows "engine_ok (ingest_all bs e) \<and> synced (ingest_all bs e)"
  using assms unfolding ingest_all_def
  by (induction bs arbitrary: e) (simp_all add: engine_ok_ingest synced_ingest)

lemma ingest_all_fields [simp]:
  "e_log (ingest_all bs e) = e_log e" "e_rules (ingest_all bs e) = e_rules e"
  "e_inducer (ingest_all bs e) = e_inducer e" "e_ilpAudit (ingest_all bs e) = e_ilpAudit e"
  "e_metrics (ingest_all bs e) = e_metrics e" "e_derivations (ingest_all bs e) = e_derivations e"
  unfolding ingest_all_def by (induction bs arbitrary: e) simp_all

lemma ingest_all_beliefs:
  "engine_ok e \<Longrightarrow> beliefs_of (ingest_all bs e) = beliefs_of e \<union> {b \<in> set bs. valid_belief b} \<and>
    (\<forall>a. Resolution_of a (e_beliefs (ingest_all bs e)) = Resolution_of a (e_beliefs e))"
  unfolding ingest_all_def
proof (induction bs arbitrary: e)
  case (Cons b bs)
  have "engine_ok (snd (ingestNoLog b e))"
    using Cons.prems by (rule engine_ok_ingest)
  from Cons.IH [OF this] Cons.prems show ?case
    by (auto simp: beliefs_of_ingest ingestNoLog_beliefs Resolution_of_Add engine_okD)
qed simp

lemma set_resolutions_cleared:
  assumes "engine_ok e"
  shows "engine_ok (set_resolutions rs (cleared e)) \<and> synced (set_resolutions rs (cleared e)) \<and>
    beliefs_of (set_resolutions rs (cleared e)) = {}"
proof -
  have "store_ok (fold (\<lambda>r s. snd (SetResolution r s)) rs NewStore) \<and>
      store_beliefs (fold (\<lambda>r s. snd (SetResolution r s)) rs NewStore) = {}"
    using fold_SetResolution_ok [OF store_ok_New, of rs] by simp
  then show ?thesis
    using engine_okD(7) [OF assms]
    by (simp add: set_resolutions_eq cleared_def engine_ok_def synced_def facts_of_def held_facts_def beliefs_of_def)
qed

text \<open>What \<open>recompute\<close> keeps, and what it makes.\<close>

lemma recompute_base:
  assumes "engine_ok e"
  defines "e1 \<equiv> ingest_all (base_list e) (set_resolutions (Resolutions (e_beliefs e)) (cleared e))"
  shows "engine_ok e1" "synced e1" "beliefs_of e1 = base_beliefs e"
    "Resolution_of a (e_beliefs e1) = Resolution_of a (e_beliefs e)"
    "e_log e1 = e_log e" "e_rules e1 = e_rules e" "e_inducer e1 = e_inducer e"
    "e_ilpAudit e1 = e_ilpAudit e" "e_metrics e1 = e_metrics e"
proof -
  note c = set_resolutions_cleared [OF assms(1), of "Resolutions (e_beliefs e)"]
  note i = ingest_all_beliefs [OF c [THEN conjunct1], of "base_list e"]
  show "engine_ok e1" "synced e1"
    unfolding e1_def using c ingest_all_ok by blast+
  have "valid_belief b" if "b \<in> base_beliefs e" for b
    using that store_beliefs_valid [OF engine_okD(2) [OF assms(1)]] by (simp add: base_beliefs_def beliefs_of_def)
  then show "beliefs_of e1 = base_beliefs e"
    unfolding e1_def using c i set_base_list [OF assms(1)] by auto
  show "Resolution_of a (e_beliefs e1) = Resolution_of a (e_beliefs e)"
    unfolding e1_def using i restore_resolutions [OF engine_okD(3) [OF assms(1)], of a]
    by (simp add: set_resolutions_eq cleared_def)
  show "e_log e1 = e_log e" "e_rules e1 = e_rules e" "e_inducer e1 = e_inducer e"
    "e_ilpAudit e1 = e_ilpAudit e" "e_metrics e1 = e_metrics e"
    by (simp_all add: e1_def set_resolutions_eq cleared_def)
qed

lemma recompute_ok:
  assumes "engine_ok e"
  shows "engine_ok (recompute e)" "synced (recompute e)"
  using recompute_base(1,2) [OF assms]
  by (simp_all add: recompute_cleared engine_ok_ApplyRules synced_ApplyRules)

lemma recompute_fields [simp]:
  assumes "engine_ok e"
  shows "e_log (recompute e) = e_log e" "e_rules (recompute e) = e_rules e"
    "e_inducer (recompute e) = e_inducer e" "e_ilpAudit (recompute e) = e_ilpAudit e"
    "e_metrics (recompute e) = e_metrics e"
    "Resolution_of a (e_beliefs (recompute e)) = Resolution_of a (e_beliefs e)"
    "resolvedFalse a (recompute e) = resolvedFalse a e"
    "base_beliefs (recompute e) = base_beliefs e"
  using recompute_base [OF assms]
  by (simp_all add: recompute_cleared resolvedFalse_def base_beliefs_def [of "ingest_all _ _"])
    (auto simp: base_beliefs_def)

lemma recompute_beliefs:
  assumes "engine_ok e"
  shows "b \<in> beliefs_of (recompute e) \<Longrightarrow> b \<in> base_beliefs e \<or> rule_made (e_rules e) b"
  using recompute_base [OF assms] ApplyRules_beliefs [OF recompute_base(1) [OF assms], of 1000]
  by (auto simp: recompute_cleared)

section \<open>Fields that do not matter\<close>

text \<open>
  The log, the inducer, the audit list and the metrics play no part in what the beliefs, the graph,
  the index, the rules and the derivations become: the operations on these commute with any change
  of those. \<open>core\<close> is what remains.
\<close>

definition frame :: "'l option \<Rightarrow> 'i option \<Rightarrow> Example list \<Rightarrow> Metrics \<Rightarrow> ('l, 'i) Engine \<Rightarrow> ('l, 'i) Engine" where
  "frame l i a m e = e\<lparr>e_log := l, e_inducer := i, e_ilpAudit := a, e_metrics := m\<rparr>"

definition core :: "('l, 'i) Engine \<Rightarrow> Store \<times> MemGraph \<times> SemanticIndex \<times> Rule list \<times> derivation_map" where
  "core e = (e_beliefs e, e_graph e, e_semantic e, e_rules e, e_derivations e)"

lemma frame_fields [simp]:
  "e_beliefs (frame l i a m e) = e_beliefs e" "e_graph (frame l i a m e) = e_graph e"
  "e_semantic (frame l i a m e) = e_semantic e" "e_rules (frame l i a m e) = e_rules e"
  "e_derivations (frame l i a m e) = e_derivations e" "e_log (frame l i a m e) = l"
  "e_inducer (frame l i a m e) = i" "e_ilpAudit (frame l i a m e) = a" "e_metrics (frame l i a m e) = m"
  "core (frame l i a m e) = core e"
  by (simp_all add: frame_def core_def)

lemma core_frame: "core e1 = core e2 \<Longrightarrow> e1 = frame (e_log e1) (e_inducer e1) (e_ilpAudit e1) (e_metrics e1) e2"
  by (simp add: core_def frame_def)

lemma ingestNoLog_frame:
  "snd (ingestNoLog b (frame l i a m e)) = frame l i a m (snd (ingestNoLog b e))"
  by (simp add: ingestNoLog_def frame_def resolvedFalse_def Let_def split: prod.split sum.split)

lemma frame_derivations: "(frame l i a m e)\<lparr>e_derivations := x\<rparr> = frame l i a m (e\<lparr>e_derivations := x\<rparr>)"
  by (simp add: frame_def)

lemma derive_step_frame: "derive_step r d (frame l i a m e) = frame l i a m (derive_step r d e)"
  unfolding derive_step_def frame_derivations ingestNoLog_frame by simp

lemma apply_derivations_frame:
  "apply_derivations r ds (frame l i a m e, n, k) =
     (case apply_derivations r ds (e, n, k) of (e', n', k') \<Rightarrow> (frame l i a m e', n', k'))"
  by (induction ds arbitrary: e n k) (simp_all add: apply_derivations_step derive_step_frame)

lemma apply_rules_frame:
  "apply_rules edges idx rs (frame l i a m e, n, k) =
     (case apply_rules edges idx rs (e, n, k) of (e', n', k') \<Rightarrow> (frame l i a m e', n', k'))"
  by (induction rs arbitrary: e n k)
    (auto simp: apply_derivations_frame Let_def split: prod.split)

lemma apply_loop_frame: "apply_loop n (frame l i a m e) = frame l i a m (apply_loop n e)"
proof (induction n e rule: apply_loop.induct)
  case (1 n e)
  obtain e' n' k where round: "apply_round e n = (e', n', k)"
    by (metis prod_cases3)
  then have round': "apply_round (frame l i a m e) n = (frame l i a m e', n', k)"
    by (simp add: apply_round_def Let_def apply_rules_frame)
  show ?case
    using 1 [OF _ round [symmetric] refl]
    by (simp add: apply_loop.simps [of n e] apply_loop.simps [of n "frame l i a m e"] round round')
qed

lemma ApplyRules_frame: "ApplyRules n (frame l i a m e) = frame l i a m (ApplyRules n e)"
  by (simp add: ApplyRules_def apply_loop_frame)

lemma core_ApplyRules: "core e1 = core e2 \<Longrightarrow> core (ApplyRules n e1) = core (ApplyRules n e2)"
  for e1 e2 :: "('l, 'i) Engine"
  by (subst core_frame [of e1 e2]) (simp_all add: ApplyRules_frame)

lemma ingest_all_frame: "ingest_all bs (frame l i a m e) = frame l i a m (ingest_all bs e)"
  unfolding ingest_all_def by (induction bs arbitrary: e) (simp_all add: ingestNoLog_frame)

lemma recompute_frame: "recompute (frame l i a m e) = frame l i a m (recompute e)"
proof -
  have "set_resolutions rs (cleared (frame l i a m e)) = frame l i a m (set_resolutions rs (cleared e))" for rs
    by (simp add: set_resolutions_eq cleared_def frame_def)
  moreover have "base_list (frame l i a m e) = base_list e"
    by (simp add: base_list_def)
  ultimately show ?thesis
    by (simp add: recompute_cleared ingest_all_frame ApplyRules_frame)
qed

lemma core_recompute: "core e1 = core e2 \<Longrightarrow> core (recompute e1) = core (recompute e2)"
  for e1 e2 :: "('l, 'i) Engine"
  by (subst core_frame [of e1 e2]) (simp_all add: recompute_frame)

lemma core_ingest: "core e1 = core e2 \<Longrightarrow> core (snd (ingestNoLog b e1)) = core (snd (ingestNoLog b e2))"
  for e1 e2 :: "('l, 'i) Engine"
  by (subst core_frame [of e1 e2]) (simp_all add: ingestNoLog_frame)

text \<open>Everything but the metrics follows from the core.\<close>

lemma core_abs:
  assumes "core e1 = core e2"
  shows "beliefs_of e1 = beliefs_of e2" "facts_of e1 = facts_of e2" "base_beliefs e1 = base_beliefs e2"
    "resolvedFalse a e1 = resolvedFalse a e2" "synced e1 = synced e2" "e_rules e1 = e_rules e2"
    "e_beliefs e1 = e_beliefs e2" "e_graph e1 = e_graph e2" "e_derivations e1 = e_derivations e2"
  using assms
  by (simp_all add: core_def beliefs_of_def facts_of_def base_beliefs_def resolvedFalse_def synced_def held_facts_def)

lemma engine_ok_core: "core e1 = core e2 \<Longrightarrow> engine_ok e1 \<Longrightarrow> trace_ok (e_metrics e2) \<Longrightarrow> engine_ok e2"
  by (simp add: engine_ok_def core_def)

lemma core_metrics [simp]: "core (on_metrics f e) = core e" "core (trace_since op t e) = core e"
    "core (snd (engine_Now e)) = core e"
  by (simp_all add: on_metrics_def trace_since_def engine_Now_def core_def split: prod.split)

lemma core_log_event [simp]: "core (snd (log_event env ty p e)) = core e"
  by (auto simp: log_event_def core_def split: option.split sum.split prod.split)

lemma core_observe [simp]: "core (observe env ex e) = core e"
  by (simp add: observe_def core_def split: option.split)

lemma log_event_fields [simp]:
  "e_beliefs (snd (log_event env ty p e)) = e_beliefs e" "e_graph (snd (log_event env ty p e)) = e_graph e"
  "e_semantic (snd (log_event env ty p e)) = e_semantic e" "e_rules (snd (log_event env ty p e)) = e_rules e"
  "e_inducer (snd (log_event env ty p e)) = e_inducer e" "e_ilpAudit (snd (log_event env ty p e)) = e_ilpAudit e"
  "e_metrics (snd (log_event env ty p e)) = e_metrics e" "e_derivations (snd (log_event env ty p e)) = e_derivations e"
  by (auto simp: log_event_def split: option.split sum.split prod.split)

lemma trace_ok_Now [simp]: "trace_ok (snd (time_Now m)) = trace_ok m"
  by (simp add: time_Now_def trace_ok_def)

lemma trace_ok_counters [simp]:
  "trace_ok (m\<lparr>IngestCount := x\<rparr>) = trace_ok m" "trace_ok (m\<lparr>ResolveCount := x\<rparr>) = trace_ok m"
  "trace_ok (m\<lparr>ErrorCount := x\<rparr>) = trace_ok m" "trace_ok (m\<lparr>QueryCount := x\<rparr>) = trace_ok m"
  by (simp_all add: trace_ok_def)

lemma engine_Now_metrics [simp]:
  "trace_ok (e_metrics (snd (engine_Now e))) = trace_ok (e_metrics e)"
  "e_log (snd (engine_Now e)) = e_log e" "e_inducer (snd (engine_Now e)) = e_inducer e"
  "e_ilpAudit (snd (engine_Now e)) = e_ilpAudit e" "e_rules (snd (engine_Now e)) = e_rules e"
  "e_beliefs (snd (engine_Now e)) = e_beliefs e" "e_graph (snd (engine_Now e)) = e_graph e"
  "e_derivations (snd (engine_Now e)) = e_derivations e" "e_semantic (snd (engine_Now e)) = e_semantic e"
  by (simp_all add: engine_Now_def split_beta)

lemma trace_since_metrics:
  "trace_ok (e_metrics e) \<Longrightarrow> trace_ok (e_metrics (trace_since op t e))"
  by (simp add: trace_since_def engine_Now_def on_metrics_def split_beta trace_ok_record)

lemma trace_since_log [simp]: "e_log (trace_since op t e) = e_log e" "e_ilpAudit (trace_since op t e) = e_ilpAudit e"
  by (simp_all add: trace_since_def engine_Now_def on_metrics_def split_beta)

lemma on_metrics_fields [simp]:
  "e_log (on_metrics f e) = e_log e" "e_metrics (on_metrics f e) = f (e_metrics e)"
  "e_ilpAudit (on_metrics f e) = e_ilpAudit e"
  by (simp_all add: on_metrics_def)

lemma engine_ok_Now [simp]: "engine_ok (snd (engine_Now e)) = engine_ok e"
  by (simp add: engine_ok_def)

end
