(* ===== verification/Engine_Steps.thy ===== *)
theory Engine_Steps
  imports Engine_Ops
begin

text \<open>
  The operations of the engine over its abstractions: what \<open>Ingest\<close>, \<open>Resolve\<close>, \<open>AddRule\<close>, \<open>Evaluate\<close>
  and \<open>ReplayFromLog\<close> do to the beliefs, the resolutions, the facts, the rules and the log.
\<close>

section \<open>The operations, case by case\<close>

definition log_write :: "('l, 'i) env \<Rightarrow> EventType \<Rightarrow> go_error + bytes \<Rightarrow> 'l option \<Rightarrow> go_error option \<times> 'l option" where
  "log_write env ty payload lo =
     (case lo of
        None \<Rightarrow> (None, None)
      | Some l \<Rightarrow>
          (case payload of
             Inl err \<Rightarrow> (Some err, Some l)
           | Inr p \<Rightarrow> map_prod id Some (log_Append env \<lparr>recType = ty, recPayload = p\<rparr> l)))"

lemma log_event_write:
  "log_event env ty p e =
     (fst (log_write env ty p (e_log e)), e\<lparr>e_log := snd (log_write env ty p (e_log e))\<rparr>)"
  by (auto simp: log_event_def log_write_def split: option.split sum.split prod.split)

lemma observe_log [simp]: "e_log (observe env ex e) = e_log e" "e_metrics (observe env ex e) = e_metrics e"
    "e_ilpAudit (observe env ex e) = e_ilpAudit e"
  by (simp_all add: observe_def split: option.split)

lemma recompute_log [simp]: "e_log (recompute e) = e_log e"
  using arg_cong [OF recompute_frame [of "e_log e" "e_inducer e" "e_ilpAudit e" "e_metrics e" e], of e_log]
  by (simp add: frame_def)

lemma ApplyRules_log [simp]: "e_log (ApplyRules n e) = e_log e" "e_metrics (ApplyRules n e) = e_metrics e"
  using arg_cong [OF ApplyRules_frame [of n "e_log e" "e_inducer e" "e_ilpAudit e" "e_metrics e" e], of e_log]
    arg_cong [OF ApplyRules_frame [of n "e_log e" "e_inducer e" "e_ilpAudit e" "e_metrics e" e], of e_metrics]
  by (simp_all add: frame_def)

lemma Ingest_result:
  "fst (Ingest env b e) =
     (case fst (Add b (e_beliefs e)) of
        Inl err \<Rightarrow> Inl err
      | Inr c \<Rightarrow>
          (case fst (log_write env EventFactAdded (encodeBelief b) (e_log e)) of
             Some err \<Rightarrow> Inl err | None \<Rightarrow> Inr \<lparr>ir_contradiction = c\<rparr>))"
  using ingestNoLog_result [of b "snd (engine_Now e)"]
  by (auto simp: Ingest_def log_event_write split_beta Let_def split: prod.split sum.split option.split)

lemma Ingest_core:
  fixes e :: "('l, 'i) Engine"
  shows "core (snd (Ingest env b e)) =
     (case fst (Ingest env b e) of
        Inl _ \<Rightarrow> core (snd (ingestNoLog b e))
      | Inr _ \<Rightarrow> core (ApplyRules 1000 (snd (ingestNoLog b e))))"
proof -
  define e0 where "e0 = snd (engine_Now e)"
  define e1 where "e1 = snd (ingestNoLog b e0)"
  have e1: "core e1 = core (snd (ingestNoLog b e))"
    unfolding e1_def by (rule core_ingest) (simp add: e0_def)
  have res: "ingestNoLog b e0 = (fst (ingestNoLog b e0), e1)" by (simp add: e1_def)
  show ?thesis
  proof (cases "fst (ingestNoLog b e0)")
    case (Inl err)
    then show ?thesis
      using res by (simp add: Ingest_def split_beta Let_def e0_def [symmetric] e1)
  next
    case (Inr c)
    define w where "w = log_event env EventFactAdded (encodeBelief b) e1"
    define e4 where "e4 = observe env \<lparr>ex_belief = b\<rparr> (snd w\<lparr>e_ilpAudit := e_ilpAudit (snd w) @ [\<lparr>ex_belief = b\<rparr>]\<rparr>)"
    have "core e4 = core e1"
      unfolding e4_def w_def by (simp, simp add: core_def)
    then have "core (ApplyRules 1000 e4) = core (ApplyRules 1000 (snd (ingestNoLog b e)))"
      using e1 by (intro core_ApplyRules) simp
    moreover have "core (snd w) = core (snd (ingestNoLog b e))"
      by (simp add: w_def e1)
    moreover have "Ingest env b e = (case w of (Some err, e2) \<Rightarrow> (Inl err, e2)
        | (None, e2) \<Rightarrow> (Inr \<lparr>ir_contradiction = c\<rparr>,
            trace_since ''ingest'' (fst (engine_Now e)) (on_metrics (\<lambda>m. m\<lparr>IngestCount := IngestCount m + 1\<rparr>) (ApplyRules 1000 e4))))"
      using res Inr unfolding w_def e4_def
      by (simp add: Ingest_def split_beta Let_def e0_def [symmetric] split: prod.split option.split)
    ultimately show ?thesis
      by (auto split: prod.split option.split)
  qed
qed

lemma Ingest_log:
  assumes "engine_ok e" and "fst (Add b (e_beliefs e)) = Inr c"
  shows "e_log (snd (Ingest env b e)) = snd (log_write env EventFactAdded (encodeBelief b) (e_log e))"
proof -
  define e1 where "e1 = snd (ingestNoLog b (snd (engine_Now e)))"
  have ok1: "engine_ok e1"
    using assms(1) by (simp add: e1_def engine_ok_ingest)
  have "engine_ok (observe env ex (e1\<lparr>e_log := l, e_ilpAudit := a\<rparr>))" for ex l a
    by (rule engine_ok_core [OF _ ok1]) (simp_all add: engine_okD [OF ok1], simp add: core_def)
  moreover have "ingestNoLog b (snd (engine_Now e)) = (Inr c, e1)"
    using ingestNoLog_result [of b "snd (engine_Now e)"] assms(2) by (simp add: e1_def prod_eq_iff)
  moreover have "e_log e1 = e_log e" by (simp add: e1_def)
  ultimately show ?thesis
    by (simp add: Ingest_def log_event_write split_beta Let_def split: option.split)
qed

lemma Ingest_trace:
  assumes "engine_ok e"
  shows "trace_ok (e_metrics (snd (Ingest env b e)))"
proof -
  define e1 where "e1 = snd (ingestNoLog b (snd (engine_Now e)))"
  have ok1: "engine_ok e1"
    using assms by (simp add: e1_def engine_ok_ingest)
  have "engine_ok (observe env ex (e1\<lparr>e_log := l, e_ilpAudit := a\<rparr>))" for ex l a
    by (rule engine_ok_core [OF _ ok1]) (simp_all add: engine_okD [OF ok1], simp add: core_def)
  moreover have "ingestNoLog b (snd (engine_Now e)) = (fst (ingestNoLog b (snd (engine_Now e))), e1)"
    by (simp add: e1_def)
  ultimately show ?thesis
    using engine_okD(7) [OF ok1] engine_okD(7) [OF assms]
    by (auto simp: Ingest_def log_event_write split_beta Let_def intro!: trace_since_metrics
        split: option.split sum.split prod.split)
qed

lemma engine_ok_Ingest:
  assumes "engine_ok e"
  shows "engine_ok (snd (Ingest env b e)) \<and> (synced e \<longrightarrow> synced (snd (Ingest env b e)))"
proof -
  let ?e1 = "snd (ingestNoLog b e)"
  have e1: "engine_ok ?e1" "engine_ok (ApplyRules 1000 ?e1)"
    using assms by (simp_all add: engine_ok_ingest engine_ok_ApplyRules)
  have sync: "synced e \<longrightarrow> synced ?e1 \<and> synced (ApplyRules 1000 ?e1)"
    using assms e1 by (simp add: synced_ingest synced_ApplyRules)
  show ?thesis
  proof (cases "fst (Ingest env b e)")
    case (Inl err)
    then have "core ?e1 = core (snd (Ingest env b e))" by (simp add: Ingest_core)
    from engine_ok_core [OF this e1(1) Ingest_trace [OF assms]] core_abs(5) [OF this] sync show ?thesis by blast
  next
    case (Inr r)
    then have "core (ApplyRules 1000 ?e1) = core (snd (Ingest env b e))" by (simp add: Ingest_core)
    from engine_ok_core [OF this e1(2) Ingest_trace [OF assms]] core_abs(5) [OF this] sync show ?thesis by blast
  qed
qed

text \<open>Resolving: a failure leaves the resolution set, and nothing recomputed.\<close>

definition set_resolution :: "Resolution \<Rightarrow> ('l, 'i) Engine \<Rightarrow> ('l, 'i) Engine" where
  "set_resolution r e = e\<lparr>e_beliefs := snd (SetResolution r (e_beliefs e))\<rparr>"

lemma set_resolution_fields [simp]:
  "e_log (set_resolution r e) = e_log e" "e_rules (set_resolution r e) = e_rules e"
  "e_graph (set_resolution r e) = e_graph e" "e_metrics (set_resolution r e) = e_metrics e"
  "e_beliefs (set_resolution r e) = snd (SetResolution r (e_beliefs e))"
  "e_ilpAudit (set_resolution r e) = e_ilpAudit e"
  by (simp_all add: set_resolution_def)

lemma engine_ok_set_resolution: "engine_ok e \<Longrightarrow> engine_ok (set_resolution r e)"
  by (simp add: engine_ok_def set_resolution_def store_ok_SetResolution)

lemma beliefs_of_set_resolution [simp]:
  "beliefs_of (set_resolution r e) = beliefs_of e" "base_beliefs (set_resolution r e) = base_beliefs e"
  by (simp_all add: beliefs_of_def base_beliefs_def SetResolution_beliefs)

lemma Resolve_result:
  "fst (Resolve env r e) =
     (case fst (SetResolution r (e_beliefs e)) of
        Some err \<Rightarrow> Some err
      | None \<Rightarrow> fst (log_write env EventResolutionSet (encodeResolution r) (e_log e)))"
  by (auto simp: Resolve_def log_event_write split_beta Let_def split: prod.split option.split)

lemma Resolve_core:
  fixes e :: "('l, 'i) Engine"
  shows "core (snd (Resolve env r e)) =
     (case fst (Resolve env r e) of
        Some _ \<Rightarrow> core (set_resolution r e)
      | None \<Rightarrow> core (recompute (set_resolution r e)))"
proof -
  define e1 where "e1 = set_resolution r (snd (engine_Now e))"
  have e1: "core e1 = core (set_resolution r e)"
    by (simp add: e1_def set_resolution_def core_def)
  define w where "w = log_event env EventResolutionSet (encodeResolution r) e1"
  have w: "core (snd w) = core (set_resolution r e)"
    by (simp add: w_def e1)
  then have "core (recompute (snd w)) = core (recompute (set_resolution r e))"
    by (rule core_recompute)
  moreover have "Resolve env r e =
      (case fst (SetResolution r (e_beliefs e)) of
         Some err \<Rightarrow> (Some err, on_metrics (\<lambda>m. m\<lparr>ErrorCount := ErrorCount m + 1\<rparr>) e1)
       | None \<Rightarrow> (case w of (Some err, e2) \<Rightarrow> (Some err, e2)
           | (None, e2) \<Rightarrow> (None, trace_since ''resolve'' (fst (engine_Now e))
               (on_metrics (\<lambda>m. m\<lparr>ResolveCount := ResolveCount m + 1\<rparr>) (recompute e2)))))"
    by (simp add: Resolve_def w_def e1_def set_resolution_def split_beta Let_def split: prod.split option.split)
  ultimately show ?thesis
    using w e1 by (auto split: prod.split option.split)
qed

lemma Resolve_trace:
  assumes "engine_ok e"
  shows "trace_ok (e_metrics (snd (Resolve env r e)))"
proof -
  have ok: "engine_ok (set_resolution r e)"
    using assms by (rule engine_ok_set_resolution)
  have now: "engine_ok (snd (engine_Now e)\<lparr>e_beliefs := snd (SetResolution r (e_beliefs e)), e_log := l\<rparr>)" for l
    using engine_ok_set_resolution [of "snd (engine_Now e)" r] assms
    by (simp add: engine_ok_def set_resolution_def)
  show ?thesis
    using engine_okD(7) [OF assms] recompute_fields(5) [OF now]
    by (auto simp: Resolve_def log_event_write split_beta Let_def now intro!: trace_since_metrics
        split: option.split prod.split)
qed

lemma engine_ok_Resolve:
  assumes "engine_ok e"
  shows "engine_ok (snd (Resolve env r e)) \<and>
    (fst (Resolve env r e) = None \<longrightarrow> synced (snd (Resolve env r e)))"
proof -
  have ok: "engine_ok (set_resolution r e)"
    using assms by (rule engine_ok_set_resolution)
  show ?thesis
  proof (cases "fst (Resolve env r e)")
    case (Some err)
    then have "core (set_resolution r e) = core (snd (Resolve env r e))" by (simp add: Resolve_core)
    from engine_ok_core [OF this ok Resolve_trace [OF assms]] Some show ?thesis by simp
  next
    case None
    then have c: "core (recompute (set_resolution r e)) = core (snd (Resolve env r e))" by (simp add: Resolve_core)
    from engine_ok_core [OF c recompute_ok(1) [OF ok] Resolve_trace [OF assms]]
      core_abs(5) [OF c] recompute_ok(2) [OF ok] show ?thesis by blast
  qed
qed

text \<open>Adding a rule.\<close>

definition add_rule :: "Rule \<Rightarrow> ('l, 'i) Engine \<Rightarrow> ('l, 'i) Engine" where
  "add_rule r e = e\<lparr>e_rules := e_rules e @ [r]\<rparr>"

lemma add_rule_fields [simp]:
  "e_log (add_rule r e) = e_log e" "e_rules (add_rule r e) = e_rules e @ [r]"
  "e_graph (add_rule r e) = e_graph e" "e_metrics (add_rule r e) = e_metrics e"
  "e_beliefs (add_rule r e) = e_beliefs e" "e_ilpAudit (add_rule r e) = e_ilpAudit e"
  "beliefs_of (add_rule r e) = beliefs_of e" "facts_of (add_rule r e) = facts_of e"
  "base_beliefs (add_rule r e) = base_beliefs e"
  "engine_ok (add_rule r e) = engine_ok e" "synced (add_rule r e) = synced e"
  "resolvedFalse a (add_rule r e) = resolvedFalse a e"
  by (simp_all add: add_rule_def beliefs_of_def facts_of_def base_beliefs_def engine_ok_def synced_def
      held_facts_def resolvedFalse_def)

definition valid_rule :: "Rule \<Rightarrow> bool" where
  "valid_rule r \<longleftrightarrow> rName r \<noteq> [] \<and> rIf r \<noteq> []"

lemma AddRule_result:
  "fst (AddRule env r e) =
     (if rName r = [] then Some ErrRuleNameEmpty
      else if rIf r = [] then Some ErrRuleNoPremises
      else fst (log_write env EventRuleAdded (encodeRule r) (e_log e)))"
  by (auto simp: AddRule_def log_event_write split: option.split)

lemma AddRule_core:
  fixes e :: "('l, 'i) Engine"
  shows "core (snd (AddRule env r e)) =
     (if \<not> valid_rule r then core e
      else case fst (AddRule env r e) of
        Some _ \<Rightarrow> core (add_rule r e)
      | None \<Rightarrow> core (ApplyRules 1000 (add_rule r e)))"
proof -
  define w where "w = log_event env EventRuleAdded (encodeRule r) (add_rule r e)"
  have w: "core (snd w) = core (add_rule r e)"
    by (simp add: w_def)
  then have "core (ApplyRules 1000 (snd w)) = core (ApplyRules 1000 (add_rule r e))"
    by (rule core_ApplyRules)
  moreover have "valid_rule r \<Longrightarrow> AddRule env r e =
      (case w of (Some err, e2) \<Rightarrow> (Some err, e2) | (None, e2) \<Rightarrow> (None, ApplyRules 1000 e2))"
    by (simp add: AddRule_def w_def add_rule_def valid_rule_def)
  ultimately show ?thesis
    using w by (auto simp: AddRule_def valid_rule_def split: prod.split option.split)
qed

lemma engine_ok_AddRule:
  assumes "engine_ok e"
  shows "engine_ok (snd (AddRule env r e)) \<and> (synced e \<longrightarrow> synced (snd (AddRule env r e)))"
proof -
  have ok: "engine_ok (e\<lparr>e_rules := rs, e_log := l\<rparr>)" for rs l
    using assms by (simp add: engine_ok_def)
  have sync: "synced (e\<lparr>e_rules := rs, e_log := l\<rparr>) = synced e" for rs l
    by (rule synced_cong) simp_all
  show ?thesis
    using assms ok sync
    by (auto simp: AddRule_def log_event_write engine_ok_ApplyRules split: option.split intro!: synced_ApplyRules)
qed

text \<open>Evaluating changes the metrics only.\<close>

lemma Evaluate_result_Now [simp]: "Evaluate_result a (snd (engine_Now e)) = Evaluate_result a e"
  by (simp only: Evaluate_result_def engine_Now_metrics)

lemma Evaluate_fields [simp]:
  "core (snd (Evaluate a e)) = core e" "e_log (snd (Evaluate a e)) = e_log e"
  "fst (Evaluate a e) = Evaluate_result a e"
  by (simp_all add: Evaluate_def split_beta Let_def)

lemma engine_ok_Evaluate:
  assumes "engine_ok e"
  shows "engine_ok (snd (Evaluate a e)) \<and> (synced e \<longrightarrow> synced (snd (Evaluate a e)))"
proof -
  have c: "core e = core (snd (Evaluate a e))" by simp
  have "trace_ok (e_metrics (snd (Evaluate a e)))"
    using engine_okD(7) [OF assms] by (simp add: Evaluate_def split_beta Let_def trace_since_metrics)
  from engine_ok_core [OF c assms this] core_abs(5) [OF c] show ?thesis by simp
qed

section \<open>Replaying the log\<close>

lemma replay_event_cases:
  obtains "snd (replay_event r e) = e" | b where "snd (replay_event r e) = snd (ingestNoLog b e)"
    | res where "snd (replay_event r e) = set_resolution res e"
    | ru where "snd (replay_event r e) = add_rule ru e"
proof -
  have "snd (replay_event r e) = e \<or> (\<exists>b. snd (replay_event r e) = snd (ingestNoLog b e)) \<or>
      (\<exists>res. snd (replay_event r e) = set_resolution res e) \<or> (\<exists>ru. snd (replay_event r e) = add_rule ru e)"
    by (cases "decodeBelief (recPayload r)"; cases "decodeResolution (recPayload r)"; cases "decodeRule (recPayload r)")
      (auto simp: replay_event_def set_resolution_def add_rule_def split_beta split: sum.split)
  with that show ?thesis by blast
qed

lemma replay_event_ok:
  assumes "engine_ok e"
  shows "engine_ok (snd (replay_event r e)) \<and> e_log (snd (replay_event r e)) = e_log e"
  by (rule replay_event_cases [of r e])
    (simp_all add: assms engine_ok_ingest engine_ok_set_resolution)

lemma replay_records_ok:
  "engine_ok e \<Longrightarrow> engine_ok (snd (replay_records replay_event rs err e)) \<and>
    e_log (snd (replay_records replay_event rs err e)) = e_log e"
proof (induction rs arbitrary: e)
  case (Cons r rs)
  obtain er e' where r: "replay_event r e = (er, e')" by fastforce
  then have "engine_ok e' \<and> e_log e' = e_log e"
    using replay_event_ok [OF Cons.prems, of r] by simp
  then show ?case
    using Cons.IH [of e'] by (simp add: r split: option.split)
qed simp

definition wiped :: "('l, 'i) Engine \<Rightarrow> ('l, 'i) Engine" where
  "wiped e = e\<lparr>e_beliefs := NewStore, e_graph := NewMemGraph, e_rules := [], e_ilpAudit := [], e_derivations := []\<rparr>"

lemma engine_ok_wiped: "engine_ok e \<Longrightarrow> engine_ok (wiped e)"
  by (simp add: engine_ok_def wiped_def)

lemma ReplayFromLog_cases:
  "ReplayFromLog env e =
     (case e_log e of
        None \<Rightarrow> (Some ErrLogNotConfigured, e)
      | Some l \<Rightarrow>
          (case replay_records replay_event (fst (log_Replay env l)) (snd (log_Replay env l)) (wiped e) of
             (Some err, e2) \<Rightarrow> (Some err, e2)
           | (None, e2) \<Rightarrow> (None, recompute e2)))"
  unfolding ReplayFromLog_def wiped_def Let_def ..

lemma engine_ok_Replay:
  assumes "engine_ok e"
  shows "engine_ok (snd (ReplayFromLog env e)) \<and> e_log (snd (ReplayFromLog env e)) = e_log e \<and>
    (fst (ReplayFromLog env e) = None \<longrightarrow> synced (snd (ReplayFromLog env e)))"
proof (cases "e_log e")
  case None
  with assms show ?thesis by (simp add: ReplayFromLog_cases)
next
  case (Some l)
  obtain er e2 where r: "replay_records replay_event (fst (log_Replay env l)) (snd (log_Replay env l)) (wiped e) = (er, e2)"
    by fastforce
  have "engine_ok e2 \<and> e_log e2 = e_log e"
    using replay_records_ok [OF engine_ok_wiped [OF assms], of "fst (log_Replay env l)" "snd (log_Replay env l)"] r
    by (simp add: wiped_def)
  then show ?thesis
    using Some r by (simp add: ReplayFromLog_cases recompute_ok split: option.split)
qed

end
