(* ===== verification/Engine_Fixpoint.thy ===== *)
theory Engine_Fixpoint
  imports Engine_Steps
begin

text \<open>
  The fixpoint that \<open>ApplyRules\<close> looks for: the beliefs it adds are counted against the limit, a round
  adds none exactly if every derivation of the round is believed already, and the loop ends by the
  limit or by such a round.
\<close>

section \<open>Steps that change nothing\<close>

definition known :: "('l, 'i) Engine \<Rightarrow> Rule \<Rightarrow> Derivation \<Rightarrow> bool" where
  "known e r d \<longleftrightarrow> (valid_pat (dThen d) \<longrightarrow> rule_belief r (pat_atom (dThen d)) \<in> beliefs_of e)"

definition all_known :: "('l, 'i) Engine \<Rightarrow> Edge list \<Rightarrow> int \<Rightarrow> bool" where
  "all_known e edges n \<longleftrightarrow> (\<forall>r \<in> set (e_rules e). \<forall>d \<in> set (EvaluateRuleDerivations r edges n). known e r d)"

definition count_of :: "('l, 'i) Engine \<Rightarrow> int" where
  "count_of e = int (card (beliefs_of e))"

lemma count_of_Count: "engine_ok e \<Longrightarrow> Count (e_beliefs e) = count_of e"
  by (simp add: count_of_def beliefs_of_def Count_card engine_ok_def)

lemma finite_beliefs_of [simp]: "finite (beliefs_of e)"
  by (simp add: beliefs_of_def)

lemma derive_known:
  assumes "engine_ok e" and "known e r d"
  shows "beliefs_of (derive_step r d e) = beliefs_of e"
  using assms by (auto simp: derive_beliefs known_def)

lemma derive_count:
  assumes "engine_ok e"
  shows "count_of (derive_step r d e) = count_of e + (if known e r d then 0 else 1)"
  using assms by (auto simp: count_of_def derive_beliefs known_def insert_absorb)

lemma derive_added:
  assumes "engine_ok e"
  shows "Count (e_beliefs e) < Count (e_beliefs (derive_step r d e)) \<longleftrightarrow> \<not> known e r d"
  using assms by (simp add: count_of_Count engine_ok_derive derive_count)

lemma apply_derivations_known:
  assumes "engine_ok e"
  shows "apply_derivations r (d # ds) (e, n, k) =
     (if known e r d then apply_derivations r ds (derive_step r d e, n, k)
      else if n - 1 \<le> 0 then (derive_step r d e, n - 1, Suc k)
      else apply_derivations r ds (derive_step r d e, n - 1, Suc k))"
  unfolding apply_derivations_step derive_added [OF assms] by simp

lemma known_cong: "beliefs_of e' = beliefs_of e \<Longrightarrow> known e' r d = known e r d"
  by (simp add: known_def)

text \<open>The facts of an engine in step with its beliefs, and so the edges, are theirs.\<close>

lemma held_facts_beliefs:
  assumes "beliefs_of e' = beliefs_of e" and "\<forall>a. resolvedFalse a e' = resolvedFalse a e"
  shows "held_facts e' = held_facts e"
  using assms by (simp add: held_facts_def)

section \<open>A round\<close>

text \<open>What every part of a round keeps: the invariants, the rules, and the limit counted down.\<close>

definition counted :: "('l, 'i) Engine \<Rightarrow> int \<Rightarrow> ('l, 'i) Engine \<Rightarrow> int \<Rightarrow> bool" where
  "counted e n e' n' \<longleftrightarrow>
     engine_ok e' \<and> synced e' \<and> e_rules e' = e_rules e \<and> n' + count_of e' = n + count_of e \<and>
     (\<forall>a. resolvedFalse a e' = resolvedFalse a e) \<and> beliefs_of e \<subseteq> beliefs_of e' \<and> (0 < n \<longrightarrow> 0 \<le> n')"

lemma counted_refl: "engine_ok e \<Longrightarrow> synced e \<Longrightarrow> counted e n e n"
  by (simp add: counted_def)

lemma counted_trans: "counted e n e1 n1 \<Longrightarrow> counted e1 n1 e2 n2 \<Longrightarrow> 0 < n1 \<or> n2 = n1 \<Longrightarrow> counted e n e2 n2"
  by (auto simp: counted_def)

lemma counted_derive:
  assumes "engine_ok e" and "synced e"
  shows "counted e n (derive_step r d e) (if known e r d then n else n - 1)"
  using assms by (auto simp: counted_def engine_ok_derive synced_derive derive_count derive_beliefs)

lemma apply_derivations_counted:
  assumes "engine_ok e" and "synced e" and "0 < n"
    and "apply_derivations r ds (e, n, k) = (e', n', k')"
  shows "counted e n e' n' \<and> (k' = k \<longleftrightarrow> (\<forall>d \<in> set ds. known e r d))"
  using assms
proof (induction ds arbitrary: e n k)
  case Nil
  then show ?case by (simp add: counted_refl)
next
  case (Cons d ds)
  note c = counted_derive [OF Cons.prems(1,2), of n r d]
  have ok: "engine_ok (derive_step r d e)" "synced (derive_step r d e)"
    using Cons.prems by (simp_all add: engine_ok_derive synced_derive)
  show ?case
  proof (cases "known e r d")
    case True
    then have run: "apply_derivations r ds (derive_step r d e, n, k) = (e', n', k')"
      using Cons.prems by (simp add: apply_derivations_known)
    have "known (derive_step r d e) r x = known e r x" for x
      by (rule known_cong) (rule derive_known [OF Cons.prems(1) True])
    with Cons.IH [OF ok Cons.prems(3) run] True c Cons.prems(3) show ?thesis
      using counted_trans [of e n "derive_step r d e" n e' n'] by simp
  next
    case False
    show ?thesis
    proof (cases "n - 1 \<le> 0")
      case True
      then show ?thesis
        using False Cons.prems c by (auto simp: apply_derivations_known)
    next
      case n: False
      then have run: "apply_derivations r ds (derive_step r d e, n - 1, Suc k) = (e', n', k')"
        using False Cons.prems by (simp add: apply_derivations_known)
      have "counted e n e' n'"
        using Cons.IH [OF ok _ run] n False c counted_trans [of e n "derive_step r d e" "n - 1" e' n'] by simp
      moreover have "k < k'"
        using apply_derivations_remaining [OF run] by simp
      ultimately show ?thesis using False by simp
    qed
  qed
qed

lemma known_mono: "beliefs_of e \<subseteq> beliefs_of e' \<Longrightarrow> known e r d \<Longrightarrow> known e' r d"
  by (auto simp: known_def)

lemma counted_same: "counted e n e' n \<Longrightarrow> beliefs_of e' = beliefs_of e"
  using card_subset_eq [of "beliefs_of e'" "beliefs_of e"] by (auto simp: counted_def count_of_def)

lemma apply_rules_counted:
  assumes "engine_ok e" and "synced e" and "0 < n"
    and "apply_rules edges (BuildPredicateIndex edges) rs (e, n, k) = (e', n', k')"
  shows "counted e n e' n' \<and>
    (k' = k \<longleftrightarrow> (\<forall>r \<in> set rs. \<forall>d \<in> set (EvaluateRuleDerivations r edges n). known e r d))"
  using assms
proof (induction rs arbitrary: e n k)
  case Nil
  then show ?case by (simp add: counted_refl)
next
  case (Cons r rs)
  obtain e1 n1 k1 where 1: "apply_derivations r (EvaluateRuleDerivations r edges n) (e, n, k) = (e1, n1, k1)"
    by (metis prod_cases3)
  note c = apply_derivations_counted [OF Cons.prems(1-3) 1]
  note k1 = apply_derivations_remaining [OF 1]
  have ok: "engine_ok e1" "synced e1"
    using c by (simp_all add: counted_def)
  show ?case
  proof (cases "n1 \<le> 0")
    case True
    then have "e' = e1" "n' = n1" "k' = k1"
      using Cons.prems(4) by (simp_all add: 1 EvaluateRuleDerivationsIndexed_eq)
    moreover have "k1 \<noteq> k"
      using k1 True Cons.prems(3) by auto
    ultimately show ?thesis using c by auto
  next
    case False
    then have run: "apply_rules edges (BuildPredicateIndex edges) rs (e1, n1, k1) = (e', n', k')"
      using Cons.prems(4) by (simp add: 1 EvaluateRuleDerivationsIndexed_eq)
    note IH = Cons.IH [OF ok _ run]
    note k' = apply_rules_remaining [OF run]
    have "counted e n e' n'"
      using c IH False counted_trans [of e n e1 n1 e' n'] by simp
    moreover have "k' = k \<longleftrightarrow> (\<forall>r \<in> set (r # rs). \<forall>d \<in> set (EvaluateRuleDerivations r edges n). known e r d)"
    proof (cases "k1 = k")
      case True
      then have n1: "n1 = n" using k1 by simp
      then have "known e1 r x = known e r x" for r x
        using c counted_same known_cong by blast
      with True c IH False n1 show ?thesis by simp
    next
      case False
      then show ?thesis using k1 k' c by auto
    qed
    ultimately show ?thesis by blast
  qed
qed

lemma apply_round_counted:
  assumes "engine_ok e" and "synced e" and "0 < n" and "apply_round e n = (e', n', k)"
  shows "counted e n e' n' \<and> (k = 0 \<longleftrightarrow> all_known e (EdgesAll (e_graph e)) n)"
  using apply_rules_counted [OF assms(1-3), of "EdgesAll (e_graph e)" "e_rules e" 0 e' n' k] assms(4)
  by (simp add: apply_round_def Let_def all_known_def)

section \<open>The loop\<close>

lemma same_edges:
  assumes "engine_ok e" and "synced e" and "counted e n e' n"
  shows "EdgesAll (e_graph e') = EdgesAll (e_graph e)"
proof (rule EdgesAll_det)
  have "held_facts e' = held_facts e"
    using assms(3) counted_same [OF assms(3)] by (intro held_facts_beliefs) (simp_all add: counted_def)
  then show "graph_facts (e_graph e') = graph_facts (e_graph e)"
    using assms by (simp add: synced_def facts_of_def counted_def)
qed (use assms in \<open>simp_all add: counted_def engine_ok_def\<close>)

lemma apply_loop_counted:
  assumes "engine_ok e" and "synced e" and "0 < n"
  shows "\<exists>n'. counted e n (apply_loop n e) n' \<and> 0 \<le> n' \<and>
    (n' = 0 \<or> all_known (apply_loop n e) (EdgesAll (e_graph (apply_loop n e))) n')"
  using assms
proof (induction n e rule: apply_loop.induct)
  case (1 n e)
  obtain e' n' k where round: "apply_round e n = (e', n', k)"
    by (metis prod_cases3)
  note c = apply_round_counted [OF 1(2,3,4) round]
  have rem: "n' = n - int k"
    by (rule apply_round_remaining [OF round])
  have ok: "engine_ok e'" "synced e'" and pos: "0 \<le> n'"
    using c 1(4) by (simp_all add: counted_def)
  show ?case
  proof (cases "n' \<le> 0")
    case True
    then have "apply_loop n e = e'"
      using 1(4) by (simp add: apply_loop.simps [of n e] round)
    then show ?thesis using c pos True by auto
  next
    case left: False
    show ?thesis
    proof (cases "k = 0")
      case True
      then have "apply_loop n e = e'" and n': "n' = n"
        using 1(4) rem by (simp_all add: apply_loop.simps [of n e] round)
      moreover have "all_known e' (EdgesAll (e_graph e')) n"
        using True c n' same_edges [OF 1(2,3), of n e'] counted_same [of e n e'] known_cong [of e' e]
        by (simp add: all_known_def counted_def)
      ultimately show ?thesis using c pos by auto
    next
      case False
      then have loop: "apply_loop n e = apply_loop n' e'"
        using left 1(4) by (simp add: apply_loop.simps [of n e] round)
      obtain n2 where "counted e' n' (apply_loop n' e') n2" "0 \<le> n2"
          "n2 = 0 \<or> all_known (apply_loop n' e') (EdgesAll (e_graph (apply_loop n' e'))) n2"
        using 1(1) [OF _ round [symmetric] refl left False ok] left 1(4) by auto
      then show ?thesis
        using c left counted_trans [of e n e' n'] unfolding loop by auto
    qed
  qed
qed

lemma ApplyRules_counted:
  assumes "engine_ok e" and "synced e" and "0 < n"
  shows "counted e n (ApplyRules n e) (n - (count_of (ApplyRules n e) - count_of e))"
    "0 \<le> n - (count_of (ApplyRules n e) - count_of e)"
    "count_of (ApplyRules n e) < count_of e + n \<Longrightarrow>
      all_known (ApplyRules n e) (EdgesAll (e_graph (ApplyRules n e))) (n - (count_of (ApplyRules n e) - count_of e))"
proof -
  obtain n' where n': "counted e n (ApplyRules n e) n'" "0 \<le> n'"
      "n' = 0 \<or> all_known (ApplyRules n e) (EdgesAll (e_graph (ApplyRules n e))) n'"
    using apply_loop_counted [OF assms] assms(3) by (auto simp: ApplyRules_def)
  then have "n' = n - (count_of (ApplyRules n e) - count_of e)"
    by (simp add: counted_def)
  with n' show "counted e n (ApplyRules n e) (n - (count_of (ApplyRules n e) - count_of e))"
    "0 \<le> n - (count_of (ApplyRules n e) - count_of e)"
    "count_of (ApplyRules n e) < count_of e + n \<Longrightarrow>
      all_known (ApplyRules n e) (EdgesAll (e_graph (ApplyRules n e))) (n - (count_of (ApplyRules n e) - count_of e))"
    by auto
qed

text \<open>If the derivations that a first round looks at are all believed, nothing happens at all.\<close>

lemma ApplyRules_stall:
  assumes "engine_ok e" and "synced e" and "all_known e (EdgesAll (e_graph e)) n"
  shows "beliefs_of (ApplyRules n e) = beliefs_of e \<and> EdgesAll (e_graph (ApplyRules n e)) = EdgesAll (e_graph e)"
proof (cases "0 < n")
  case True
  obtain e' n' k where round: "apply_round e n = (e', n', k)"
    by (metis prod_cases3)
  note c = apply_round_counted [OF assms(1,2) True round]
  have k: "k = 0" and n': "n' = n"
    using c assms(3) apply_round_remaining [OF round] by simp_all
  have "ApplyRules n e = e'"
    using True k by (simp add: ApplyRules_def apply_loop.simps [of n e] round)
  then show ?thesis
    using c n' counted_same same_edges [OF assms(1,2)] by blast
qed (simp add: ApplyRules_def)

end
