(* ===== verification/Engine_Correct.thy ===== *)
theory Engine_Correct
  imports Engine_Fixpoint
begin

text \<open>
  What is right about the facts of an engine: they are believed, they follow from what the client told
  the engine by its rules, the proofs that queries return can be checked, and the rules are applied
  until nothing is left to derive, unless the limit stands in the way.
\<close>

section \<open>What follows from what\<close>

inductive derivable :: "Rule list \<Rightarrow> Belief set \<Rightarrow> (Atom \<Rightarrow> bool) \<Rightarrow> Atom \<Rightarrow> bool" for rs B N where
  believed: "b \<in> B \<Longrightarrow> bPolarity b = PolarityPositive \<Longrightarrow> \<not> N (bAtom b) \<Longrightarrow> derivable rs B N (bAtom b)"
| by_rule: "r \<in> set rs \<Longrightarrow> rule_instance r (set prems) prems t \<Longrightarrow> \<forall>p \<in> set prems. derivable rs B N (pat_atom p) \<Longrightarrow>
    \<not> N (pat_atom t) \<Longrightarrow> derivable rs B N (pat_atom t)"

lemma derivable_mono:
  assumes "derivable rs B N a" and "set rs \<subseteq> set rs'" and "B \<subseteq> B'"
  shows "derivable rs' B' N a"
  using assms
proof (induction rule: derivable.induct)
  case (believed b)
  then show ?case by (auto intro: derivable.believed)
next
  case (by_rule r prems t)
  then show ?case by (auto intro!: derivable.by_rule [of r _ prems t])
qed

definition justified :: "('l, 'i) Engine \<Rightarrow> bool" where
  "justified e \<longleftrightarrow>
     (\<forall>a. atom_triple a \<in> facts_of e \<longrightarrow> derivable (e_rules e) (base_beliefs e) (\<lambda>x. resolvedFalse x e) a)"

text \<open>A proof that the engine keeps is an instance of one of its rules over its facts.\<close>

definition rule_proof :: "Rule list \<Rightarrow> triple set \<Rightarrow> Atom \<Rightarrow> DerivationProof \<Rightarrow> bool" where
  "rule_proof rs F a d \<longleftrightarrow>
     (\<exists>r \<in> set rs. rName r = dpRule d \<and>
       (\<exists>prems t. rule_instance r {p. pat_triple p \<in> F} prems t \<and> pat_atom t = a \<and> map pat_atom prems = dpPremises d))"

definition explained :: "('l, 'i) Engine \<Rightarrow> bool" where
  "explained e \<longleftrightarrow> (\<forall>(a, d) \<in> derivs_of (e_derivations e). rule_proof (e_rules e) (facts_of e) a d)"

lemma rule_instance_mono: "rule_instance r E prems t \<Longrightarrow> E \<subseteq> E' \<Longrightarrow> rule_instance r E' prems t"
  by (auto simp: rule_instance_def)

lemma rule_instance_set: "rule_instance r E prems t \<Longrightarrow> rule_instance r (set prems) prems t \<and> set prems \<subseteq> E"
  by (auto simp: rule_instance_def)

lemma rule_proof_mono: "rule_proof rs F a d \<Longrightarrow> set rs \<subseteq> set rs' \<Longrightarrow> F \<subseteq> F' \<Longrightarrow> rule_proof rs' F' a d"
  unfolding rule_proof_def by (blast intro: rule_instance_mono)

lemma edge_pats_facts:
  assumes "engine_ok e"
  shows "edge_pats (EdgesAll (e_graph e)) = {p. pat_triple p \<in> facts_of e}"
proof (intro set_eqI iffI)
  fix p
  assume "p \<in> edge_pats (EdgesAll (e_graph e))"
  then show "p \<in> {p. pat_triple p \<in> facts_of e}"
    using engine_okD(4) [OF assms] by (auto simp: edge_pats_def edge_pat_def mem_EdgesAll facts_of_def edge_triple_def)
next
  fix p
  assume "p \<in> {p. pat_triple p \<in> facts_of e}"
  then have "mk_edge (pFrom p) (pPred p) (pTo p) \<in> set (EdgesAll (e_graph e))"
    using engine_okD(4) [OF assms] by (simp add: mem_EdgesAll facts_of_def edge_triple_def pat_triple_def)
  then show "p \<in> edge_pats (EdgesAll (e_graph e))"
    unfolding edge_pats_def by (rule rev_image_eqI) (simp add: edge_pat_def)
qed

lemma edge_atoms:
  assumes "engine_ok e"
  shows "set (map edge_atom (EdgesAll (e_graph e))) = {a. atom_triple a \<in> facts_of e}"
proof (intro set_eqI iffI)
  fix a
  assume "a \<in> set (map edge_atom (EdgesAll (e_graph e)))"
  then show "a \<in> {a. atom_triple a \<in> facts_of e}"
    using engine_okD(4) [OF assms] by (auto simp: edge_atom_def mem_EdgesAll facts_of_def edge_triple_def)
next
  fix a
  assume "a \<in> {a. atom_triple a \<in> facts_of e}"
  then have "mk_edge (aFrom a) (aPred a) (aTo a) \<in> set (EdgesAll (e_graph e))"
    using engine_okD(4) [OF assms] by (simp add: mem_EdgesAll facts_of_def edge_triple_def atom_triple_def)
  then show "a \<in> set (map edge_atom (EdgesAll (e_graph e)))"
    unfolding set_map by (rule rev_image_eqI) (simp add: edge_atom_def)
qed

section \<open>The steps keep both\<close>

lemma pat_atom_eq [simp]: "pat_atom p = pat_atom q \<longleftrightarrow> p = q"
  by (cases p, cases q) (simp add: pat_atom_def)

lemma derived_instance:
  assumes "engine_ok e0" and "facts_of e0 \<subseteq> F" and "d \<in> set (EvaluateRuleDerivations r (EdgesAll (e_graph e0)) n)"
  shows "rule_instance r {p. pat_triple p \<in> F} (dPremises d) (dThen d)"
  using EvaluateRuleDerivations_sound [OF assms(3)] assms(2)
  by (auto simp: edge_pats_facts [OF assms(1)] elim!: rule_instance_mono)

lemma justified_derive:
  assumes "engine_ok e0" "engine_ok e" "facts_of e0 \<subseteq> facts_of e" "r \<in> set (e_rules e)"
    and d: "d \<in> set (EvaluateRuleDerivations r (EdgesAll (e_graph e0)) n)" and j: "justified e"
    and base: "base_beliefs (derive_step r d e) = base_beliefs e"
  shows "justified (derive_step r d e)"
proof -
  let ?D = "derivable (e_rules e) (base_beliefs e) (\<lambda>x. resolvedFalse x e)"
  note inst = rule_instance_set [OF derived_instance [OF assms(1,3) d]]
  have prems: "\<forall>p \<in> set (dPremises d). ?D (pat_atom p)"
    using inst j by (auto simp: justified_def)
  have "?D (pat_atom (dThen d))" if "\<not> resolvedFalse (pat_atom (dThen d)) e"
    by (rule by_rule [OF assms(4) inst [THEN conjunct1] prems that])
  moreover have "a = pat_atom (dThen d)" if "atom_triple a = pat_triple (dThen d)" for a
    using that atom_triple_eq [of a "pat_atom (dThen d)"] by simp
  ultimately show ?thesis
    using j assms(2) by (auto simp: justified_def derive_facts base split: if_splits)
qed

lemma explained_derive:
  assumes "engine_ok e0" "engine_ok e" "facts_of e0 \<subseteq> facts_of e" "r \<in> set (e_rules e)"
    and d: "d \<in> set (EvaluateRuleDerivations r (EdgesAll (e_graph e0)) n)" and x: "explained e"
  shows "explained (derive_step r d e)"
proof -
  let ?dp = "\<lparr>dpRule = rName r, dpPremises = map pat_atom (dPremises d)\<rparr>"
  have "rule_proof (e_rules e) (facts_of e) (pat_atom (dThen d)) ?dp"
    using assms(4) derived_instance [OF assms(1,3) d] by (auto simp: rule_proof_def)
  then have "\<forall>(a, dp) \<in> derivs_of (e_derivations (derive_step r d e)). rule_proof (e_rules e) (facts_of e) a dp"
    using x derivs_of_add_subset [of "pat_atom (dThen d)" ?dp "e_derivations e"]
    by (auto simp: explained_def derive_step_def)
  then show ?thesis
    using derive_facts_mono [OF assms(2), of r d]
    by (auto simp: explained_def elim!: rule_proof_mono)
qed

lemma base_beliefs_derive [simp]: "engine_ok e \<Longrightarrow> base_beliefs (derive_step r d e) = base_beliefs e"
  by (auto simp: base_beliefs_def derive_beliefs)

lemma ApplyRules_justified:
  assumes "engine_ok e"
  shows "justified e \<Longrightarrow> justified (ApplyRules n e)" "explained e \<Longrightarrow> explained (ApplyRules n e)"
proof -
  let ?P = "\<lambda>I x. e_rules x = e_rules e \<and> (I x :: bool)"
  have "engine_ok (ApplyRules n e) \<and> ?P justified (ApplyRules n e)" if "justified e"
    by (rule ApplyRules_induct [where P = "?P justified", OF assms]) (use that in \<open>auto intro: justified_derive\<close>)
  then show "justified e \<Longrightarrow> justified (ApplyRules n e)" by blast
  have "engine_ok (ApplyRules n e) \<and> ?P explained (ApplyRules n e)" if "explained e"
    by (rule ApplyRules_induct [where P = "?P explained", OF assms]) (use that in \<open>auto intro: explained_derive\<close>)
  then show "explained e \<Longrightarrow> explained (ApplyRules n e)" by blast
qed

lemma justified_cong: "core e1 = core e2 \<Longrightarrow> justified e1 = justified e2 \<and> explained e1 = explained e2"
  for e1 e2 :: "('l, 'i) Engine"
  using core_abs [of e1 e2] by (simp add: justified_def explained_def)

lemma recompute_justified:
  assumes "engine_ok e"
  shows "justified (recompute e)" "explained (recompute e)"
proof -
  define e1 where "e1 = ingest_all (base_list e) (set_resolutions (Resolutions (e_beliefs e)) (cleared e))"
  note b = recompute_base [OF assms, folded e1_def]
  have base: "base_beliefs e1 = base_beliefs e"
    using b(3) by (simp add: base_beliefs_def [of e1]) (auto simp: base_beliefs_def)
  have "justified e1"
  proof -
    have "derivable (e_rules e1) (base_beliefs e1) (\<lambda>x. resolvedFalse x e1) a" if "atom_triple a \<in> facts_of e1" for a
      using that b(2,3) base by (auto simp: synced_def held_facts_def intro: believed)
    then show ?thesis by (simp add: justified_def)
  qed
  moreover have "explained e1"
    by (simp add: e1_def explained_def set_resolutions_eq cleared_def)
  ultimately show "justified (recompute e)" "explained (recompute e)"
    using ApplyRules_justified [OF b(1)] by (simp_all add: recompute_cleared e1_def)
qed

lemma ingest_explained:
  assumes "engine_ok e" and "explained e"
  shows "explained (snd (ingestNoLog b e))"
proof -
  have "facts_of e \<subseteq> facts_of (snd (ingestNoLog b e))"
    using assms(1) by (auto simp: facts_of_ingest)
  then show ?thesis
    using assms(2) by (auto simp: explained_def elim!: rule_proof_mono)
qed

lemma ingest_justified:
  assumes "engine_ok e" and "justified e" and "\<not> has_prefix (bSource b) derivedSourcePrefix"
  shows "justified (snd (ingestNoLog b e))"
proof -
  let ?e1 = "snd (ingestNoLog b e)"
  have base: "base_beliefs e \<subseteq> base_beliefs ?e1" "valid_belief b \<Longrightarrow> b \<in> base_beliefs ?e1"
    using assms(1,3) by (auto simp: base_beliefs_def beliefs_of_ingest)
  have "derivable (e_rules e) (base_beliefs ?e1) (\<lambda>x. resolvedFalse x e) a" if a: "atom_triple a \<in> facts_of ?e1" for a
  proof (cases "atom_triple a \<in> facts_of e")
    case True
    then show ?thesis
      using assms(2) base(1) by (auto simp: justified_def intro: derivable_mono)
  next
    case False
    then have "a = bAtom b" "valid_belief b" "bPolarity b = PolarityPositive" "\<not> resolvedFalse (bAtom b) e"
      using a assms(1) by (simp_all add: facts_of_ingest split: if_splits)
    then show ?thesis
      using base(2) by (auto intro: believed)
  qed
  then show ?thesis
    using assms(1) by (simp add: justified_def)
qed

lemma add_rule_justified:
  "justified e \<Longrightarrow> justified (add_rule r e)" "explained e \<Longrightarrow> explained (add_rule r e)"
proof -
  show "justified e \<Longrightarrow> justified (add_rule r e)"
    by (auto simp: justified_def intro: derivable_mono)
  have "e_derivations (add_rule r e) = e_derivations e" by (simp add: add_rule_def)
  then show "explained e \<Longrightarrow> explained (add_rule r e)"
    by (auto simp: explained_def elim!: rule_proof_mono)
qed

end
