(* ===== verification/Semantic_Query.thy ===== *)
theory Semantic_Query
  imports Engine_Steps
begin

text \<open>
  \<open>semantic_query.go\<close>: the indexed atoms that are similar to a query, each with its verdict, best
  first. The query fills the cache of the concept space and the verdicts count in the metrics, so the
  engine is threaded through.
\<close>

section \<open>The query\<close>

record SemanticResult =
  sr_atom :: Atom
  sr_similarity :: rat
  sr_truth :: TruthValue
  sr_proof :: Proof

fun evaluate_matches :: "SemanticMatch list \<Rightarrow> ('l, 'i) Engine \<Rightarrow> SemanticResult list \<times> ('l, 'i) Engine" where
  "evaluate_matches [] e = ([], e)"
| "evaluate_matches (m # ms) e =
     (case Evaluate (sm_atom m) e of
        ((v, pf), e1) \<Rightarrow>
          (case evaluate_matches ms e1 of
             (rs, e2) \<Rightarrow>
               (\<lparr>sr_atom = sm_atom m, sr_similarity = sm_similarity m, sr_truth = v, sr_proof = pf\<rparr> # rs, e2)))"

definition semantic_less :: "SemanticResult \<Rightarrow> SemanticResult \<Rightarrow> bool" where
  "semantic_less x y =
     (if sr_similarity x \<noteq> sr_similarity y then sr_similarity x > sr_similarity y
      else atomKey (sr_atom x) < atomKey (sr_atom y))"

definition SemanticQuery :: "Atom \<Rightarrow> rat \<Rightarrow> ('l, 'i) Engine \<Rightarrow> SemanticResult list \<times> ('l, 'i) Engine" where
  "SemanticQuery atom threshold e =
     (let (matches, si) = Similar atom threshold (e_semantic e);
          (results, e') = evaluate_matches matches (e\<lparr>e_semantic := si\<rparr>)
      in (sort_slice semantic_less results, e'))"

definition semantic_key :: "SemanticResult \<Rightarrow> rat \<times> string" where
  "semantic_key x = (- sr_similarity x, atomKey (sr_atom x))"

interpretation semantic_sort: keyed_less semantic_less semantic_key
  by unfold_locales (auto simp: semantic_less_def semantic_key_def)

section \<open>What it does to the engine\<close>

definition result_of :: "('l, 'i) Engine \<Rightarrow> SemanticMatch \<Rightarrow> SemanticResult" where
  "result_of e m =
     (case Evaluate_result (sm_atom m) e of
        (v, pf) \<Rightarrow> \<lparr>sr_atom = sm_atom m, sr_similarity = sm_similarity m, sr_truth = v, sr_proof = pf\<rparr>)"

lemma Evaluate_result_cong:
  "e_beliefs e = e_beliefs e' \<Longrightarrow> e_derivations e = e_derivations e' \<Longrightarrow> Evaluate_result a e = Evaluate_result a e'"
  by (simp only: Evaluate_result_def)

lemma Evaluate_result_core: "core e = core e' \<Longrightarrow> Evaluate_result a e = Evaluate_result a e'"
  by (rule Evaluate_result_cong) (simp_all add: core_def)

lemma evaluate_matches_result:
  "fst (evaluate_matches ms e) = map (result_of e) ms \<and> core (snd (evaluate_matches ms e)) = core e \<and>
    e_log (snd (evaluate_matches ms e)) = e_log e \<and>
    (engine_ok e \<longrightarrow> engine_ok (snd (evaluate_matches ms e)))"
proof (induction ms arbitrary: e)
  case (Cons m ms)
  let ?e1 = "snd (Evaluate (sm_atom m) e)"
  have same: "result_of ?e1 = result_of e"
    by (simp add: result_of_def fun_eq_iff Evaluate_result_core [OF Evaluate_fields(1)])
  obtain v pf where ev: "Evaluate (sm_atom m) e = ((v, pf), ?e1)" and "Evaluate_result (sm_atom m) e = (v, pf)"
    using Evaluate_fields(3) [of "sm_atom m" e] by (metis prod.collapse)
  then have "evaluate_matches (m # ms) e =
      (result_of e m # fst (evaluate_matches ms ?e1), snd (evaluate_matches ms ?e1))"
    by (subst evaluate_matches.simps, subst ev) (simp add: result_of_def split_beta)
  then show ?case
    using Cons.IH [of ?e1] engine_ok_Evaluate [of e "sm_atom m"] by (simp add: same)
qed simp

definition cached :: "SemanticIndex \<Rightarrow> ('l, 'i) Engine \<Rightarrow> ('l, 'i) Engine" where
  "cached si e = e\<lparr>e_semantic := si\<rparr>"

lemma SemanticQuery_result:
  "fst (SemanticQuery a t e) = sort_slice semantic_less (map (result_of e) (fst (Similar a t (e_semantic e))))"
  "core (snd (SemanticQuery a t e)) = core (cached (snd (Similar a t (e_semantic e))) e)"
  "e_log (snd (SemanticQuery a t e)) = e_log e"
proof -
  let ?e = "cached (snd (Similar a t (e_semantic e))) e"
  have "result_of ?e = result_of e"
    using Evaluate_result_cong [of ?e e] by (simp add: result_of_def fun_eq_iff cached_def)
  then show "fst (SemanticQuery a t e) = sort_slice semantic_less (map (result_of e) (fst (Similar a t (e_semantic e))))"
    "core (snd (SemanticQuery a t e)) = core ?e" "e_log (snd (SemanticQuery a t e)) = e_log e"
    using evaluate_matches_result [of "fst (Similar a t (e_semantic e))" ?e]
    by (simp_all add: SemanticQuery_def split_beta Let_def cached_def)
qed

lemma cached_ok:
  assumes "engine_ok e" and "index_ok si" and "indexed si = indexed (e_semantic e)"
  shows "engine_ok (cached si e) \<and> (synced (cached si e) \<longleftrightarrow> synced e)"
  using assms
  by (simp add: engine_ok_def cached_def synced_def facts_of_def held_facts_def beliefs_of_def resolvedFalse_def)

lemma engine_ok_SemanticQuery:
  assumes "engine_ok e"
  shows "engine_ok (snd (SemanticQuery a t e)) \<and> (synced e \<longrightarrow> synced (snd (SemanticQuery a t e)))"
proof -
  let ?e = "cached (snd (Similar a t (e_semantic e))) e"
  have ok: "engine_ok ?e \<and> (synced ?e \<longleftrightarrow> synced e)"
    using assms index_ok_Similar [OF engine_okD(5) [OF assms]] by (intro cached_ok) simp_all
  moreover have "engine_ok (snd (SemanticQuery a t e))"
    using evaluate_matches_result [of "fst (Similar a t (e_semantic e))" ?e] ok
    by (simp add: SemanticQuery_def split_beta Let_def cached_def)
  moreover have "synced (snd (SemanticQuery a t e)) = synced ?e"
    by (rule core_abs(5)) (rule SemanticQuery_result)
  ultimately show ?thesis by simp
qed

end
