(* ===== verification/Text_Input.thy ===== *)
theory Text_Input
  imports Prelude
begin

text \<open>
  What the bulk loaders use of the standard library: the lines of \<open>bufio.Scanner\<close>, \<open>strings.TrimSpace\<close>,
  \<open>strings.Split\<close> at tabs, and \<open>Read\<close> of package \<open>encoding/csv\<close> in its default configuration. An
  \<open>io.Reader\<close> is the bytes it delivers before its error; \<open>rerr\<close> is that error, \<open>io.EOF\<close> for a
  reader that comes to its end.
\<close>

section \<open>Strings\<close>

text \<open>The white space of \<open>unicode.IsSpace\<close>, each rune as its UTF-8 bytes.\<close>

definition space_runes :: "string list" where
  "space_runes =
     [[CHR 0x09], [CHR 0x0A], [CHR 0x0B], [CHR 0x0C], [CHR 0x0D], [CHR 0x20],
      [CHR 0xC2, CHR 0x85], [CHR 0xC2, CHR 0xA0], [CHR 0xE1, CHR 0x9A, CHR 0x80],
      [CHR 0xE2, CHR 0x80, CHR 0x80], [CHR 0xE2, CHR 0x80, CHR 0x81], [CHR 0xE2, CHR 0x80, CHR 0x82],
      [CHR 0xE2, CHR 0x80, CHR 0x83], [CHR 0xE2, CHR 0x80, CHR 0x84], [CHR 0xE2, CHR 0x80, CHR 0x85],
      [CHR 0xE2, CHR 0x80, CHR 0x86], [CHR 0xE2, CHR 0x80, CHR 0x87], [CHR 0xE2, CHR 0x80, CHR 0x88],
      [CHR 0xE2, CHR 0x80, CHR 0x89], [CHR 0xE2, CHR 0x80, CHR 0x8A], [CHR 0xE2, CHR 0x80, CHR 0xA8],
      [CHR 0xE2, CHR 0x80, CHR 0xA9], [CHR 0xE2, CHR 0x80, CHR 0xAF], [CHR 0xE2, CHR 0x81, CHR 0x9F],
      [CHR 0xE3, CHR 0x80, CHR 0x80]]"

text \<open>The length of the rune in \<open>ws\<close> that \<open>s\<close> starts with, or zero.\<close>

definition rune_at :: "string list \<Rightarrow> string \<Rightarrow> nat" where
  "rune_at ws s = (case find (\<lambda>w. take (length w) s = w) ws of None \<Rightarrow> 0 | Some w \<Rightarrow> length w)"

function trim_runes :: "string list \<Rightarrow> string \<Rightarrow> string" where
  "trim_runes ws s = (if s = [] \<or> rune_at ws s = 0 then s else trim_runes ws (drop (rune_at ws s) s))"
  by pat_completeness auto

termination
  by (relation "measure (\<lambda>(ws, s). length s)") auto

declare trim_runes.simps [simp del]

definition TrimSpace :: "string \<Rightarrow> string" where
  "TrimSpace s = rev (trim_runes (map rev space_runes) (rev (trim_runes space_runes s)))"

fun split_at :: "char \<Rightarrow> string \<Rightarrow> string list" where
  "split_at c [] = [[]]"
| "split_at c (x # xs) = (if x = c then [] # split_at c xs else (x # hd (split_at c xs)) # tl (split_at c xs))"

abbreviation tab :: char where "tab \<equiv> CHR 0x09"
abbreviation newline :: char where "newline \<equiv> CHR 0x0A"
abbreviation return :: char where "return \<equiv> CHR 0x0D"
abbreviation quote :: char where "quote \<equiv> CHR 0x22"
abbreviation comma :: char where "comma \<equiv> CHR 0x2C"

definition drop_cr :: "string \<Rightarrow> string" where
  "drop_cr s = (if s \<noteq> [] \<and> last s = return then butlast s else s)"

section \<open>Lines\<close>

text \<open>
  The buffer of a \<open>Scanner\<close> holds at most 65536 bytes: \<open>Scan\<close> returns false at the first line that does
  not fit with its newline, and for the rest of the input.
\<close>

lemma length_dropWhile_less: "s \<noteq> [] \<Longrightarrow> length (drop 1 (dropWhile P s)) < length s"
  using length_dropWhile_le [of P s] by (cases s) (simp_all add: less_Suc_eq_le le_diff_conv)

function scan_lines :: "string \<Rightarrow> string list" where
  "scan_lines [] = []"
| "scan_lines (c # s) =
     (let line = takeWhile (\<lambda>c. c \<noteq> newline) (c # s);
          rest = dropWhile (\<lambda>c. c \<noteq> newline) (c # s)
      in if length line > 65535 then []
         else drop_cr line # scan_lines (drop 1 rest))"
  by pat_completeness auto

termination
  by (relation "measure length") (simp_all only: in_measure wf_measure length_dropWhile_less list.distinct not_False_eq_True)

section \<open>Comma-separated values\<close>

text \<open>\<open>readLine\<close>: the next line with its newline, what is left, and the error.\<close>

definition csv_readLine :: "go_error \<Rightarrow> string \<Rightarrow> string \<times> string \<times> go_error option" where
  "csv_readLine rerr s =
     (let line = takeWhile (\<lambda>c. c \<noteq> newline) s;
          rest = dropWhile (\<lambda>c. c \<noteq> newline) s
      in if rest \<noteq> [] then (drop_cr line @ [newline], tl rest, None)
         else if line \<noteq> [] \<and> rerr = ErrEOF then (drop_cr line, [], None)
         else (line, [], Some rerr))"

lemma length_drop_cr: "length (drop_cr l) \<le> length l"
  by (simp add: drop_cr_def)

lemma csv_readLine_length:
  assumes "csv_readLine rerr s = (line, rest, er)"
  shows "length line + length rest \<le> length s"
proof -
  let ?l = "takeWhile (\<lambda>c. c \<noteq> newline) s" and ?r = "dropWhile (\<lambda>c. c \<noteq> newline) s"
  have "length ?l + length ?r = length s"
    by (metis length_append takeWhile_dropWhile_id)
  then show ?thesis
    using assms length_drop_cr [of ?l]
    by (cases "?r = []"; cases ?r) (auto simp: csv_readLine_def Let_def split: if_splits)
qed

lemma csv_readLine_shorter:
  assumes "csv_readLine rerr s = (line, rest, None)"
  shows "length rest < length s"
proof -
  have "s \<noteq> []"
    using assms by (auto simp: csv_readLine_def)
  then show ?thesis
    using assms length_dropWhile_less [of s "\<lambda>c. c \<noteq> newline"]
    by (auto simp: csv_readLine_def Let_def drop_Suc split: if_splits)
qed

text \<open>The first line that is not empty; at the end of the input, \<open>readLine\<close> reports the error.\<close>

definition line_break :: "string \<Rightarrow> bool" where
  "line_break line \<longleftrightarrow> line = [] \<or> line = [newline]"

function csv_next :: "go_error \<Rightarrow> string \<Rightarrow> string \<times> string \<times> go_error option" where
  "csv_next rerr [] = csv_readLine rerr []"
| "csv_next rerr (c # s) =
     (case csv_readLine rerr (c # s) of
        (line, rest, None) \<Rightarrow> if line_break line then csv_next rerr rest else (line, rest, None)
      | (line, rest, Some err) \<Rightarrow> (line, rest, Some err))"
  by pat_completeness auto

termination
  by (relation "measure (\<lambda>(rerr, s). length s)") (auto dest: csv_readLine_shorter [OF sym])

declare csv_next.simps [simp del]

lemma tl_dropWhile_less: "dropWhile P s \<noteq> [] \<Longrightarrow> length (tl (dropWhile P s)) < length s"
  using length_dropWhile_le [of P s] by (cases "dropWhile P s") auto

lemma length_tl_less: "s \<noteq> [] \<Longrightarrow> length (tl s) < length s"
  by simp

lemma dropWhile_mem: "c \<in> set s \<Longrightarrow> dropWhile (\<lambda>x. x \<noteq> c) s \<noteq> []"
  by (induction s) auto

lemma tl_tl_dropWhile_less:
  "c \<in> set s \<Longrightarrow> length (tl (tl (dropWhile (\<lambda>x. x \<noteq> c) s))) < length s"
  using tl_dropWhile_less [OF dropWhile_mem, of c s] by simp

text \<open>
  The fields of a record from a line on, after the fields in \<open>fs\<close>; \<open>buf\<close> is what has been read of a
  quoted field, which may go on over several lines. \<open>er\<close> is the error of the last \<open>readLine\<close>.
\<close>

function csv_fields :: "go_error \<Rightarrow> string option \<Rightarrow> string list \<Rightarrow> string \<Rightarrow> string \<Rightarrow> go_error option \<Rightarrow>
    string list \<times> go_error option \<times> string" where
  "csv_fields rerr None fs line rest er =
     (if line \<noteq> [] \<and> hd line = quote then csv_fields rerr (Some []) fs (tl line) rest er
      else
        let field = takeWhile (\<lambda>c. c \<noteq> comma) line;
            more = dropWhile (\<lambda>c. c \<noteq> comma) line;
            field' = (if more = [] \<and> field \<noteq> [] \<and> last field = newline then butlast field else field)
        in if quote \<in> set field' then (fs, Some ErrBareQuote, rest)
           else if more = [] then (fs @ [field'], er, rest)
           else csv_fields rerr None (fs @ [field']) (tl more) rest er)"
| "csv_fields rerr (Some buf) fs line rest er =
     (if quote \<in> set line then
        let pre = takeWhile (\<lambda>c. c \<noteq> quote) line;
            line' = tl (dropWhile (\<lambda>c. c \<noteq> quote) line)
        in if line' \<noteq> [] \<and> hd line' = quote then
             csv_fields rerr (Some (buf @ pre @ [quote])) fs (tl line') rest er
           else if line' \<noteq> [] \<and> hd line' = comma then csv_fields rerr None (fs @ [buf @ pre]) (tl line') rest er
           else if line_break line' then (fs @ [buf @ pre], er, rest)
           else (fs, Some ErrQuote, rest)
      else if line \<noteq> [] then
        (if er \<noteq> None then (fs, er, rest)
         else
           case csv_readLine rerr rest of
             (line', rest', er') \<Rightarrow>
               csv_fields rerr (Some (buf @ line)) fs line' rest' (if er' = Some ErrEOF then None else er'))
      else if er = None then (fs, Some ErrQuote, rest)
      else (fs @ [buf], er, rest))"
  by pat_completeness auto

termination
  by (relation "measure (\<lambda>(rerr, buf, fs, line, rest, er). length line + length rest)")
    (auto simp: tl_dropWhile_less tl_tl_dropWhile_less length_tl_less simp del: length_tl
      dest!: csv_readLine_length [OF sym] intro: le_less_trans)

declare csv_fields.simps [simp del]

text \<open>
  \<open>Read\<close>: the record and the error, the number of fields that the first record fixes, and what is
  left of the input.
\<close>

definition csv_Read :: "go_error \<Rightarrow> nat \<Rightarrow> string \<Rightarrow> go_error option \<times> string list \<times> nat \<times> string" where
  "csv_Read rerr perRecord s =
     (case csv_next rerr s of
        (line, rest, er) \<Rightarrow>
          if er = Some ErrEOF then (er, [], perRecord, rest)
          else
            case csv_fields rerr None [] line rest er of
              (fs, err, rest') \<Rightarrow>
                if perRecord > 0 then
                  (if length fs \<noteq> perRecord \<and> err = None then Some ErrFieldCount else err, fs, perRecord, rest')
                else (err, fs, length fs, rest'))"

end
