(* ===== verification/Bulk.thy ===== *)
theory Bulk
  imports Engine_Steps Text_Input
begin

text \<open>
  \<open>bulk.go\<close>: loading triples from tab-separated lines, from CSV and from JSON. The three loops do the
  same for each triple, \<open>bulk_ingest\<close>, and drop what the log reports. The decoder of package
  \<open>encoding/json\<close> is an argument: the triples it delivers, or its error. The loop over CSV records
  ends at \<open>io.EOF\<close> only, so it is a partial function; \<open>BulkResult.String\<close> only formats.
\<close>

section \<open>One triple\<close>

record BulkResult =
  br_total :: int
  br_ingested :: int
  br_contradictions :: int
  br_errors :: int
  br_duration :: int

definition empty_result :: BulkResult where
  "empty_result = \<lparr>br_total = 0, br_ingested = 0, br_contradictions = 0, br_errors = 0, br_duration = 0\<rparr>"

definition bulk_error :: "BulkResult \<Rightarrow> BulkResult" where
  "bulk_error r = r\<lparr>br_errors := br_errors r + 1\<rparr>"

definition bulk_ingest :: "('l, 'i) env \<Rightarrow> Belief \<Rightarrow> ('l, 'i) Engine \<times> BulkResult \<Rightarrow> ('l, 'i) Engine \<times> BulkResult" where
  "bulk_ingest env b st =
     (let (e, r) = st in
      case ingestNoLog b e of
        (Inl err, e1) \<Rightarrow> (e1, bulk_error r)
      | (Inr c, e1) \<Rightarrow>
          let e2 = (case e_log e1 of
                      None \<Rightarrow> e1
                    | Some l \<Rightarrow>
                        (case encodeBelief b of
                           Inl _ \<Rightarrow> e1
                         | Inr payload \<Rightarrow>
                             e1\<lparr>e_log := Some (snd (log_Append env \<lparr>recType = EventFactAdded, recPayload = payload\<rparr> l))\<rparr>))
          in (e2, r\<lparr>br_ingested := br_ingested r + 1,
                   br_contradictions := br_contradictions r + (if c \<noteq> None then 1 else 0)\<rparr>))"

text \<open>The rules once at the end, the duration, and the counter.\<close>

definition bulk_finish :: "int \<Rightarrow> ('l, 'i) Engine \<times> BulkResult \<Rightarrow> BulkResult \<times> ('l, 'i) Engine" where
  "bulk_finish t0 st =
     (let (e, r) = st;
          (t1, e1) = engine_Now (ApplyRules 10000 e);
          r1 = r\<lparr>br_duration := t1 - t0\<rparr>
      in (r1, on_metrics (\<lambda>m. m\<lparr>IngestCount := IngestCount m + word_of_int (br_ingested r1)\<rparr>) e1))"

section \<open>Tab-separated lines\<close>

definition columns_belief :: "string \<Rightarrow> string list \<Rightarrow> Belief" where
  "columns_belief source parts =
     \<lparr>bAtom = mk_atom (TrimSpace (parts ! 0)) (TrimSpace (parts ! 1)) (TrimSpace (parts ! 2)),
      bPolarity = (if length parts \<ge> 4 \<and> parts ! 3 = ''-'' then PolarityNegative else PolarityPositive),
      bSource = source, bUnixNano = 0\<rparr>"

definition bulk_line :: "('l, 'i) env \<Rightarrow> string \<Rightarrow> string \<Rightarrow> ('l, 'i) Engine \<times> BulkResult \<Rightarrow> ('l, 'i) Engine \<times> BulkResult" where
  "bulk_line env source txt st =
     (let line = TrimSpace txt in
      if line = [] \<or> has_prefix line ''#'' then st
      else
        let (e, r) = st;
            r1 = r\<lparr>br_total := br_total r + 1\<rparr>;
            parts = split_at tab line
        in if length parts < 3 then (e, bulk_error r1)
           else bulk_ingest env (columns_belief source parts) (e, r1))"

definition BulkIngestTriples :: "('l, 'i) env \<Rightarrow> string \<Rightarrow> string \<Rightarrow> ('l, 'i) Engine \<Rightarrow> BulkResult \<times> ('l, 'i) Engine" where
  "BulkIngestTriples env content source e =
     (let (t0, e0) = engine_Now e
      in bulk_finish t0 (fold (bulk_line env source) (scan_lines content) (e0, empty_result)))"

section \<open>CSV\<close>

definition bulk_row :: "('l, 'i) env \<Rightarrow> string \<Rightarrow> string list \<Rightarrow> ('l, 'i) Engine \<times> BulkResult \<Rightarrow> ('l, 'i) Engine \<times> BulkResult" where
  "bulk_row env source record st =
     (let (e, r) = st;
          r1 = r\<lparr>br_total := br_total r + 1\<rparr>
      in if length record < 3 then (e, bulk_error r1)
         else bulk_ingest env (columns_belief source record) (e, r1))"

partial_function (option) csv_loop :: "('l, 'i) env \<Rightarrow> string \<Rightarrow> go_error \<Rightarrow> nat \<Rightarrow> string \<Rightarrow>
    ('l, 'i) Engine \<times> BulkResult \<Rightarrow> (('l, 'i) Engine \<times> BulkResult) option" where
  "csv_loop env source rerr perRecord s st =
     (case csv_Read rerr perRecord s of
        (err, record, perRecord', s') \<Rightarrow>
          if err = Some ErrEOF then Some st
          else if err \<noteq> None then csv_loop env source rerr perRecord' s' (fst st, bulk_error (snd st))
          else csv_loop env source rerr perRecord' s' (bulk_row env source record st))"

definition BulkIngestCSV :: "('l, 'i) env \<Rightarrow> go_error \<Rightarrow> string \<Rightarrow> string \<Rightarrow> ('l, 'i) Engine \<Rightarrow>
    (BulkResult \<times> ('l, 'i) Engine) option" where
  "BulkIngestCSV env rerr content source e =
     (let (t0, e0) = engine_Now e
      in map_option (bulk_finish t0) (csv_loop env source rerr 0 content (e0, empty_result)))"

section \<open>JSON\<close>

record jsonTriple =
  jt_from :: string
  jt_predicate :: string
  jt_to :: string
  jt_polarity :: string

definition json_belief :: "string \<Rightarrow> jsonTriple \<Rightarrow> Belief" where
  "json_belief source tr =
     \<lparr>bAtom = mk_atom (jt_from tr) (jt_predicate tr) (jt_to tr),
      bPolarity = (if jt_polarity tr = ''-'' then PolarityNegative else PolarityPositive),
      bSource = source, bUnixNano = 0\<rparr>"

definition bulk_json :: "('l, 'i) env \<Rightarrow> string \<Rightarrow> jsonTriple \<Rightarrow> ('l, 'i) Engine \<times> BulkResult \<Rightarrow> ('l, 'i) Engine \<times> BulkResult" where
  "bulk_json env source tr st =
     (let (e, r) = st
      in bulk_ingest env (json_belief source tr) (e, r\<lparr>br_total := br_total r + 1\<rparr>))"

definition BulkIngestJSON :: "('l, 'i) env \<Rightarrow> go_error + jsonTriple list \<Rightarrow> string \<Rightarrow> ('l, 'i) Engine \<Rightarrow>
    BulkResult \<times> ('l, 'i) Engine" where
  "BulkIngestJSON env decoded source e =
     (let (t0, e0) = engine_Now e in
      case decoded of
        Inl err \<Rightarrow>
          (let (t1, e1) = engine_Now e0
           in ((bulk_error empty_result)\<lparr>br_duration := t1 - t0\<rparr>, e1))
      | Inr triples \<Rightarrow> bulk_finish t0 (fold (bulk_json env source) triples (e0, empty_result)))"

section \<open>The loops as lists of items\<close>

text \<open>
  What a loop does with a line, a record or a triple: nothing for a blank line or a comment, an error
  where \<open>Read\<close> reports one, a counted error for too few columns, or a triple to ingest.
\<close>

datatype bulk_item = Skip | Refused | Malformed | Triple Belief

fun do_item :: "('l, 'i) env \<Rightarrow> bulk_item \<Rightarrow> ('l, 'i) Engine \<times> BulkResult \<Rightarrow> ('l, 'i) Engine \<times> BulkResult" where
  "do_item env Skip st = st"
| "do_item env Refused st = (fst st, bulk_error (snd st))"
| "do_item env Malformed st = (fst st, bulk_error ((snd st)\<lparr>br_total := br_total (snd st) + 1\<rparr>))"
| "do_item env (Triple b) st = bulk_ingest env b (fst st, (snd st)\<lparr>br_total := br_total (snd st) + 1\<rparr>)"

definition line_item :: "string \<Rightarrow> string \<Rightarrow> bulk_item" where
  "line_item source txt =
     (let line = TrimSpace txt; parts = split_at tab line
      in if line = [] \<or> has_prefix line ''#'' then Skip
         else if length parts < 3 then Malformed
         else Triple (columns_belief source parts))"

definition row_item :: "string \<Rightarrow> string list \<Rightarrow> bulk_item" where
  "row_item source record = (if length record < 3 then Malformed else Triple (columns_belief source record))"

lemma bulk_line_item: "bulk_line env source txt = do_item env (line_item source txt)"
  by (auto simp: fun_eq_iff bulk_line_def line_item_def Let_def)

lemma bulk_row_item: "bulk_row env source record = do_item env (row_item source record)"
  by (auto simp: fun_eq_iff bulk_row_def row_item_def Let_def)

lemma bulk_json_item: "bulk_json env source tr = do_item env (Triple (json_belief source tr))"
  by (auto simp: fun_eq_iff bulk_json_def)

lemma fold_items: "(\<And>x. f x = do_item env (g x)) \<Longrightarrow> fold f xs = fold (do_item env) (map g xs)"
proof -
  assume "\<And>x. f x = do_item env (g x)"
  then have "f = (\<lambda>x. do_item env (g x))" by blast
  then show ?thesis by (simp add: fold_map comp_def)
qed

text \<open>Reading CSV comes to its end if the reader does.\<close>

lemma csv_next_shorter:
  "csv_next ErrEOF s = (line, rest, er) \<Longrightarrow> er \<noteq> Some ErrEOF \<Longrightarrow> length rest < length s"
proof (induction ErrEOF s rule: csv_next.induct)
  case 1
  then show ?case by (auto simp: csv_next.simps csv_readLine_def)
next
  case (2 c s)
  obtain l r er' where rl: "csv_readLine ErrEOF (c # s) = (l, r, er')" by (metis prod_cases3)
  show ?case
  proof (cases er')
    case None
    then have "length r < length (c # s)"
      using csv_readLine_shorter [of ErrEOF "c # s" l r] rl by simp
    with 2 rl None show ?thesis
      by (fastforce simp: csv_next.simps(2) split: if_splits)
  next
    case (Some x)
    then have "x = ErrEOF"
      using rl by (auto simp: csv_readLine_def Let_def split: if_splits)
    with 2 rl Some show ?thesis by (simp add: csv_next.simps(2))
  qed
qed

lemma csv_fields_rest: "csv_fields rerr q fs line rest er = (gs, err, rest') \<Longrightarrow> length rest' \<le> length rest"
proof (induction rerr q fs line rest er arbitrary: gs err rest' rule: csv_fields.induct)
  case (1 rerr fs line rest er)
  let ?pre = "takeWhile (\<lambda>c. c \<noteq> comma) line" and ?more = "dropWhile (\<lambda>c. c \<noteq> comma) line"
  have ih: "csv_fields rerr None (fs @ [?pre]) (tl ?more) rest er = (gs, err, rest') \<Longrightarrow> length rest' \<le> length rest"
    if "?more \<noteq> []" "\<not> (line \<noteq> [] \<and> hd line = quote)" "quote \<notin> set ?pre"
  proof -
    have "(if ?more = [] \<and> ?pre \<noteq> [] \<and> last ?pre = newline then butlast ?pre else ?pre) = ?pre"
      by (simp only: that(1) simp_thms if_False)
    note ih = 1(2) [OF that(2) refl refl refl, unfolded this, of gs err rest']
    show "csv_fields rerr None (fs @ [?pre]) (tl ?more) rest er = (gs, err, rest') \<Longrightarrow> length rest' \<le> length rest"
      by (rule ih [OF that(3,1)])
  qed
  show ?case
    using 1(3) by (subst (asm) csv_fields.simps) (auto simp: Let_def split: if_splits dest: 1(1) [rotated -1] intro: ih [OF dropWhile_mem])
next
  case (2 rerr buf fs line rest er)
  show ?case
  proof (cases "quote \<in> set line \<or> line = [] \<or> er \<noteq> None")
    case True
    then show ?thesis
      using 2(4) by (subst (asm) csv_fields.simps) (auto simp: Let_def split: if_splits dest: 2(1,2) [rotated -1])
  next
    case False
    obtain l r er' where rl: "csv_readLine rerr rest = (l, r, er')" by (metis prod_cases3)
    have "length rest' \<le> length r"
      using 2(3) [OF _ _ _ rl [symmetric] refl] False 2(4) rl by (subst (asm) csv_fields.simps) auto
    then show ?thesis
      using csv_readLine_length [OF rl] by simp
  qed
qed

lemma csv_Read_shorter:
  assumes "csv_Read ErrEOF n s = (err, fs, n', s')" and "err \<noteq> Some ErrEOF"
  shows "length s' < length s"
proof -
  obtain line rest er where nx: "csv_next ErrEOF s = (line, rest, er)" by (metis prod_cases3)
  show ?thesis
  proof (cases "er = Some ErrEOF")
    case True
    with assms nx show ?thesis by (simp add: csv_Read_def)
  next
    case False
    obtain gs e r where f: "csv_fields ErrEOF None [] line rest er = (gs, e, r)" by (metis prod_cases3)
    have "s' = r"
      using assms(1) nx f False by (auto simp: csv_Read_def split: if_splits)
    then show ?thesis
      using csv_next_shorter [OF nx False] csv_fields_rest [OF f] by simp
  qed
qed

text \<open>The records of a CSV input, \<open>None\<close> where \<open>Read\<close> reports an error, and their items.\<close>

function csv_records :: "nat \<Rightarrow> string \<Rightarrow> string list option list" where
  "csv_records perRecord s =
     (case csv_Read ErrEOF perRecord s of
        (err, record, perRecord', s') \<Rightarrow>
          if err = Some ErrEOF then []
          else (if err = None then Some record else None) # csv_records perRecord' s')"
  by pat_completeness auto

termination
  by (relation "measure (\<lambda>(n, s). length s)") (auto dest: csv_Read_shorter [OF sym])

declare csv_records.simps [simp del]

definition record_item :: "string \<Rightarrow> string list option \<Rightarrow> bulk_item" where
  "record_item source rc = (case rc of None \<Rightarrow> Refused | Some record \<Rightarrow> row_item source record)"

lemma csv_loop_items:
  "csv_loop env source ErrEOF n s st = Some (fold (do_item env) (map (record_item source) (csv_records n s)) st)"
proof (induction n s arbitrary: st rule: csv_records.induct)
  case (1 n s)
  obtain err rc n' s' where r: "csv_Read ErrEOF n s = (err, rc, n', s')" by (metis prod_cases4)
  show ?case
  proof (cases "err = Some ErrEOF")
    case True
    then show ?thesis by (simp add: csv_loop.simps [of env source ErrEOF n s] csv_records.simps [of n s] r)
  next
    case False
    note ih = 1 [OF r [symmetric] refl refl False]
    show ?thesis
      using False
      by (simp add: csv_loop.simps [of env source ErrEOF n s] csv_records.simps [of n s] r ih bulk_row_item record_item_def)
  qed
qed

text \<open>A reader that fails keeps the loop going for ever.\<close>

lemma csv_fields_error:
  "csv_fields rerr q fs line rest er = (gs, err, rest') \<Longrightarrow> rerr \<noteq> ErrEOF \<Longrightarrow> er \<noteq> Some ErrEOF \<Longrightarrow> err \<noteq> Some ErrEOF"
proof (induction rerr q fs line rest er arbitrary: gs err rest' rule: csv_fields.induct)
  case (1 rerr fs line rest er)
  let ?pre = "takeWhile (\<lambda>c. c \<noteq> comma) line" and ?more = "dropWhile (\<lambda>c. c \<noteq> comma) line"
  show ?case
  proof (cases "line \<noteq> [] \<and> hd line = quote")
    case True
    then show ?thesis
      using 1(3) by (subst (asm) csv_fields.simps) (use 1(1) [OF True] 1(4,5) in simp)
  next
    case False
    note ih = 1(2) [OF False refl refl refl]
    show ?thesis
      using 1(3-5) ih False by (subst (asm) csv_fields.simps) (auto simp: Let_def split: if_splits)
  qed
next
  case (2 rerr buf fs line rest er)
  let ?pre = "takeWhile (\<lambda>c. c \<noteq> quote) line" and ?l = "tl (dropWhile (\<lambda>c. c \<noteq> quote) line)"
  note eq = csv_fields.simps(2) [of rerr buf fs line rest er]
  consider (quoted) "quote \<in> set line" "?l \<noteq> [] \<and> hd ?l = quote"
    | (field) "quote \<in> set line" "\<not> (?l \<noteq> [] \<and> hd ?l = quote)" "?l \<noteq> [] \<and> hd ?l = comma"
    | (finish) "quote \<in> set line" "\<not> (?l \<noteq> [] \<and> hd ?l = quote)" "\<not> (?l \<noteq> [] \<and> hd ?l = comma)"
    | (next_line) "quote \<notin> set line" "line \<noteq> []" "er = None"
    | (stop) "quote \<notin> set line" "line = [] \<or> er \<noteq> None"
    by blast
  then show ?case
  proof cases
    case quoted
    then have "csv_fields rerr (Some (buf @ ?pre @ [quote])) fs (tl ?l) rest er = (gs, err, rest')"
      using 2(4) by (simp add: eq)
    then show ?thesis by (rule 2(1) [OF quoted(1) refl refl quoted(2) _ 2(5,6)])
  next
    case field
    then have "csv_fields rerr None (fs @ [buf @ ?pre]) (tl ?l) rest er = (gs, err, rest')"
      using 2(4) by (simp add: eq)
    then show ?thesis by (rule 2(2) [OF field(1) refl refl field(2,3) _ 2(5,6)])
  next
    case finish
    then show ?thesis
      using 2(4-6) unfolding eq Let_def by (simp only: if_True if_False split: if_splits) auto
  next
    case next_line
    obtain l r er' where rl: "csv_readLine rerr rest = (l, r, er')" by (metis prod_cases3)
    have "csv_fields rerr (Some buf) fs line rest er =
        csv_fields rerr (Some (buf @ line)) fs l r (if er' = Some ErrEOF then None else er')"
      unfolding eq using next_line by (simp add: rl)
    with 2(4) have "csv_fields rerr (Some (buf @ line)) fs l r (if er' = Some ErrEOF then None else er') = (gs, err, rest')"
      by (simp only:)
    moreover have "(if er' = Some ErrEOF then None else er') \<noteq> Some ErrEOF" by simp
    ultimately show ?thesis
      using 2(3) [OF next_line(1,2) _ rl [symmetric] refl] next_line(3) 2(5) by blast
  next
    case stop
    then show ?thesis
      using 2(4-6) unfolding eq by (simp only: if_True if_False split: if_splits) auto
  qed
qed

lemma csv_next_error: "rerr \<noteq> ErrEOF \<Longrightarrow> csv_next rerr s = (line, rest, er) \<Longrightarrow> er \<noteq> Some ErrEOF"
proof (induction rerr s rule: csv_next.induct)
  case (1 rerr)
  then show ?case by (auto simp: csv_next.simps csv_readLine_def)
next
  case (2 rerr c s)
  obtain l r er' where rl: "csv_readLine rerr (c # s) = (l, r, er')" by (metis prod_cases3)
  then have "er' = None \<or> er' = Some rerr"
    by (auto simp: csv_readLine_def Let_def split: if_splits)
  then show ?case
    using 2(1) [OF rl [symmetric] refl] 2(2,3) rl by (auto simp: csv_next.simps(2) split: if_splits)
qed

lemma csv_Read_error: "rerr \<noteq> ErrEOF \<Longrightarrow> csv_Read rerr n s = (err, fs, n', s') \<Longrightarrow> err \<noteq> Some ErrEOF"
proof -
  assume r: "rerr \<noteq> ErrEOF" "csv_Read rerr n s = (err, fs, n', s')"
  obtain line rest er where nx: "csv_next rerr s = (line, rest, er)" by (metis prod_cases3)
  obtain gs e s'' where f: "csv_fields rerr None [] line rest er = (gs, e, s'')" by (metis prod_cases3)
  have "er \<noteq> Some ErrEOF" by (rule csv_next_error [OF r(1) nx])
  with csv_fields_error [OF f r(1)] r(2) nx f show ?thesis
    by (auto simp: csv_Read_def split: if_splits)
qed

lemma csv_loop_diverges: "csv_loop env source rerr n s st = Some st' \<Longrightarrow> rerr = ErrEOF"
proof (rule csv_loop.raw_induct [where P = "\<lambda>env source rerr n s st st'. rerr = ErrEOF"])
  fix f :: "('l, 'i) env \<Rightarrow> string \<Rightarrow> go_error \<Rightarrow> nat \<Rightarrow> string \<Rightarrow> ('l, 'i) Engine \<times> BulkResult \<Rightarrow> (('l, 'i) Engine \<times> BulkResult) option"
  fix env source rerr n s st y
  assume "\<And>env source rerr n s st y. f env source rerr n s st = Some y \<Longrightarrow> rerr = ErrEOF"
    and "(case csv_Read rerr n s of (err, record, n', s') \<Rightarrow>
        if err = Some ErrEOF then Some st
        else if err \<noteq> None then f env source rerr n' s' (fst st, bulk_error (snd st))
        else f env source rerr n' s' (bulk_row env source record st)) = Some y"
  then show "rerr = ErrEOF"
    using csv_Read_error [of rerr n s] by (cases "csv_Read rerr n s") (auto split: if_splits)
qed

section \<open>What a sequence of items does\<close>

fun item_belief :: "bulk_item \<Rightarrow> Belief list" where
  "item_belief (Triple b) = [b]"
| "item_belief item = []"

definition bulk_beliefs :: "bulk_item list \<Rightarrow> Belief list" where
  "bulk_beliefs items = concat (map item_belief items)"

lemma bulk_beliefs_simps [simp]:
  "bulk_beliefs [] = []" "bulk_beliefs (i # is) = item_belief i @ bulk_beliefs is"
  by (simp_all add: bulk_beliefs_def)

definition log_all :: "('l, 'i) env \<Rightarrow> Belief list \<Rightarrow> 'l option \<Rightarrow> 'l option" where
  "log_all env bs lo = fold (\<lambda>b lo. snd (log_write env EventFactAdded (encodeBelief b) lo)) bs lo"

lemma bulk_ingest_result:
  "bulk_ingest env b (e, r) =
     (if valid_belief b then
        ((snd (ingestNoLog b e))\<lparr>e_log := snd (log_write env EventFactAdded (encodeBelief b) (e_log e))\<rparr>,
         r\<lparr>br_ingested := br_ingested r + 1,
           br_contradictions := br_contradictions r + (if fst (ingestNoLog b e) = Inr None then 0 else 1)\<rparr>)
      else (snd (ingestNoLog b e), bulk_error r))"
proof (cases "valid_belief b")
  case True
  then obtain c where "fst (ingestNoLog b e) = Inr c"
    using Add_Inr_iff [of b "e_beliefs e"] ingestNoLog_result [of b e] by metis
  then obtain e1 where e1: "ingestNoLog b e = (Inr c, e1)" by (metis prod.collapse)
  then have "e_log e1 = e_log e"
    using ingestNoLog_fields(1) [of b e] by simp
  with True e1 show ?thesis
    by (auto simp: bulk_ingest_def log_write_def Let_def split: option.split sum.split)
next
  case False
  then obtain err where "fst (ingestNoLog b e) = Inl err"
    using Add_Inr_iff [of b "e_beliefs e"] ingestNoLog_result [of b e] by (metis sum.exhaust)
  then obtain e1 where "ingestNoLog b e = (Inl err, e1)" by (metis prod.collapse)
  with False show ?thesis by (simp add: bulk_ingest_def)
qed

text \<open>The engine: the core that ingesting the beliefs gives, and the log with the valid ones.\<close>

lemma ingest_all_Cons: "ingest_all (b # bs) e = ingest_all bs (snd (ingestNoLog b e))"
  by (simp add: ingest_all_def)

lemma core_ingest_all: "core e1 = core e2 \<Longrightarrow> core (ingest_all bs e1) = core (ingest_all bs e2)"
  for e1 e2 :: "('l, 'i) Engine"
  by (subst core_frame [of e1 e2]) (simp_all add: ingest_all_frame)

lemma do_item_engine:
  fixes e :: "('l, 'i) Engine"
  shows "core (fst (do_item env i (e, r))) = core (ingest_all (item_belief i) e) \<and>
    e_metrics (fst (do_item env i (e, r))) = e_metrics e \<and>
    e_log (fst (do_item env i (e, r))) = log_all env (filter valid_belief (item_belief i)) (e_log e)"
proof (cases i)
  case (Triple b)
  have "core (x\<lparr>e_log := l\<rparr>) = core x" for x :: "('l, 'i) Engine" and l
    by (simp add: core_def)
  with Triple show ?thesis
    by (simp add: bulk_ingest_result ingest_all_def log_all_def)
qed (simp_all add: ingest_all_def log_all_def)

lemma do_items_engine:
  fixes e :: "('l, 'i) Engine"
  shows "core (fst (fold (do_item env) items (e, r))) = core (ingest_all (bulk_beliefs items) e) \<and>
    e_metrics (fst (fold (do_item env) items (e, r))) = e_metrics e \<and>
    e_log (fst (fold (do_item env) items (e, r))) = log_all env (filter valid_belief (bulk_beliefs items)) (e_log e)"
proof (induction items arbitrary: e r)
  case Nil
  then show ?case by (simp add: ingest_all_def log_all_def)
next
  case (Cons i items)
  obtain e1 r1 where i: "do_item env i (e, r) = (e1, r1)" by force
  note 1 = do_item_engine [of env i e r, unfolded i fst_conv]
  have "core (ingest_all (bulk_beliefs items) e1) = core (ingest_all (bulk_beliefs items) (ingest_all (item_belief i) e))"
    using 1 by (intro core_ingest_all) simp
  also have "ingest_all (bulk_beliefs items) (ingest_all (item_belief i) e) = ingest_all (bulk_beliefs (i # items)) e"
    by (simp add: ingest_all_def)
  finally show ?case
    using Cons.IH [of e1 r1] 1 by (simp add: i log_all_def)
qed

text \<open>The counts.\<close>

definition count_items :: "(bulk_item \<Rightarrow> bool) \<Rightarrow> bulk_item list \<Rightarrow> int" where
  "count_items P items = int (length (filter P items))"

definition counted_item :: "bulk_item \<Rightarrow> bool" where
  "counted_item i \<longleftrightarrow> i \<noteq> Skip \<and> i \<noteq> Refused"

definition good_item :: "bulk_item \<Rightarrow> bool" where
  "good_item i \<longleftrightarrow> (case i of Triple b \<Rightarrow> valid_belief b | _ \<Rightarrow> False)"

definition bad_item :: "bulk_item \<Rightarrow> bool" where
  "bad_item i \<longleftrightarrow> i \<noteq> Skip \<and> \<not> good_item i"

lemma do_items_counts:
  "br_total (snd (fold (do_item env) items (e, r))) = br_total r + count_items counted_item items \<and>
   br_ingested (snd (fold (do_item env) items (e, r))) = br_ingested r + count_items good_item items \<and>
   br_errors (snd (fold (do_item env) items (e, r))) = br_errors r + count_items bad_item items \<and>
   br_contradictions r \<le> br_contradictions (snd (fold (do_item env) items (e, r))) \<and>
   br_contradictions (snd (fold (do_item env) items (e, r))) \<le> br_contradictions r + count_items good_item items"
proof (induction items arbitrary: e r)
  case (Cons i items)
  obtain e1 r1 where i: "do_item env i (e, r) = (e1, r1)" by force
  then have "br_total r1 = br_total r + (if counted_item i then 1 else 0) \<and>
      br_ingested r1 = br_ingested r + (if good_item i then 1 else 0) \<and>
      br_errors r1 = br_errors r + (if bad_item i then 1 else 0) \<and>
      br_contradictions r \<le> br_contradictions r1 \<and>
      br_contradictions r1 \<le> br_contradictions r + (if good_item i then 1 else 0)"
    by (cases i) (auto simp: bulk_ingest_result counted_item_def good_item_def bad_item_def bulk_error_def split: if_splits)
  with Cons.IH [of e1 r1] i show ?case
    by (cases "good_item i") (auto simp: count_items_def)
qed (simp add: count_items_def)

section \<open>The loaders\<close>

definition bulk_run :: "('l, 'i) env \<Rightarrow> bulk_item list \<Rightarrow> ('l, 'i) Engine \<Rightarrow> BulkResult \<times> ('l, 'i) Engine" where
  "bulk_run env items e =
     (let (t0, e0) = engine_Now e in bulk_finish t0 (fold (do_item env) items (e0, empty_result)))"

lemma BulkIngestTriples_run:
  "BulkIngestTriples env content source e = bulk_run env (map (line_item source) (scan_lines content)) e"
  using fold_items [of "bulk_line env source" env "line_item source"]
  by (simp add: BulkIngestTriples_def bulk_run_def bulk_line_item)

lemma BulkIngestCSV_run:
  "BulkIngestCSV env ErrEOF content source e = Some (bulk_run env (map (record_item source) (csv_records 0 content)) e)"
  by (simp add: BulkIngestCSV_def bulk_run_def csv_loop_items split: prod.split)

lemma BulkIngestJSON_run:
  "BulkIngestJSON env (Inr triples) source e = bulk_run env (map (\<lambda>tr. Triple (json_belief source tr)) triples) e"
  using fold_items [of "bulk_json env source" env "\<lambda>tr. Triple (json_belief source tr)"]
  by (simp add: BulkIngestJSON_def bulk_run_def bulk_json_item)

lemma BulkIngestCSV_Some: "BulkIngestCSV env rerr content source e = Some r \<Longrightarrow> rerr = ErrEOF"
  by (auto simp: BulkIngestCSV_def split: prod.splits dest: csv_loop_diverges)

lemma bulk_sources:
  "b \<in> set (bulk_beliefs (map (line_item source) ls)) \<Longrightarrow> bSource b = source"
  "b \<in> set (bulk_beliefs (map (\<lambda>tr. Triple (json_belief source tr)) ts)) \<Longrightarrow> bSource b = source"
  "b \<in> set (bulk_beliefs (map (record_item source) rs)) \<Longrightarrow> bSource b = source"
  by (auto simp: bulk_beliefs_def line_item_def record_item_def row_item_def Let_def columns_belief_def json_belief_def
      split: if_splits option.splits)

text \<open>What a run does to the engine and what it counts.\<close>

lemma bulk_run_engine:
  fixes e :: "('l, 'i) Engine"
  shows "core (snd (bulk_run env items e)) = core (ApplyRules 10000 (ingest_all (bulk_beliefs items) e))"
    "e_log (snd (bulk_run env items e)) = log_all env (filter valid_belief (bulk_beliefs items)) (e_log e)"
    "trace_ok (e_metrics e) \<Longrightarrow> trace_ok (e_metrics (snd (bulk_run env items e)))"
proof -
  let ?e0 = "snd (engine_Now e)"
  let ?st = "fold (do_item env) items (?e0, empty_result)"
  have e0: "core ?e0 = core e" "e_log ?e0 = e_log e" by simp_all
  have m: "core (x\<lparr>e_metrics := m\<rparr>) = core x" for x :: "('l, 'i) Engine" and m
    by (simp add: core_def)
  have fin: "core (snd (bulk_finish t (x, r))) = core (ApplyRules 10000 x)"
      "e_log (snd (bulk_finish t (x, r))) = e_log (ApplyRules 10000 x)"
      "e_metrics (snd (bulk_finish t (x, r))) =
         (let m = snd (time_Now (e_metrics (ApplyRules 10000 x)))
          in m\<lparr>IngestCount := IngestCount m + word_of_int (br_ingested r)\<rparr>)"
    for t r and x :: "('l, 'i) Engine"
    by (simp_all add: bulk_finish_def split_beta Let_def on_metrics_def engine_Now_def m)
  have run: "bulk_run env items e = bulk_finish (fst (engine_Now e)) (fst ?st, snd ?st)"
    by (simp add: bulk_run_def split_beta)
  note items = do_items_engine [of env items ?e0 empty_result]
  have "core (ingest_all (bulk_beliefs items) ?e0) = core (ingest_all (bulk_beliefs items) e)"
    by (rule core_ingest_all) simp
  then show "core (snd (bulk_run env items e)) = core (ApplyRules 10000 (ingest_all (bulk_beliefs items) e))"
    unfolding run fin(1) using items by (intro core_ApplyRules) simp
  show "e_log (snd (bulk_run env items e)) = log_all env (filter valid_belief (bulk_beliefs items)) (e_log e)"
    unfolding run fin(2) using items e0 by simp
  show "trace_ok (e_metrics (snd (bulk_run env items e)))" if "trace_ok (e_metrics e)"
    unfolding run fin(3) using that items by (simp add: Let_def)
qed

lemma engine_ok_ingest_all: "engine_ok e \<Longrightarrow> engine_ok (ingest_all bs e)"
  by (induction bs arbitrary: e) (simp_all add: ingest_all_def engine_ok_ingest)

lemma engine_ok_bulk:
  fixes e :: "('l, 'i) Engine"
  assumes "engine_ok e"
  shows "engine_ok (snd (bulk_run env items e)) \<and> (synced e \<longrightarrow> synced (snd (bulk_run env items e)))"
proof -
  let ?e = "ingest_all (bulk_beliefs items) e"
  have ok: "engine_ok ?e" by (rule engine_ok_ingest_all [OF assms])
  have c: "core (ApplyRules 10000 ?e) = core (snd (bulk_run env items e))"
    by (rule bulk_run_engine(1) [symmetric])
  have "engine_ok (snd (bulk_run env items e))"
    using engine_ok_core [OF c engine_ok_ApplyRules [OF ok] bulk_run_engine(3)] engine_okD(7) [OF assms] by blast
  moreover have "synced (snd (bulk_run env items e))" if "synced e"
    using core_abs(5) [OF c] ingest_all_ok [OF assms that, of "bulk_beliefs items"] by (simp add: synced_ApplyRules)
  ultimately show ?thesis by blast
qed

lemma bulk_run_counts:
  "br_total (fst (bulk_run env items e)) = count_items counted_item items"
  "br_ingested (fst (bulk_run env items e)) = count_items good_item items"
  "br_errors (fst (bulk_run env items e)) = count_items bad_item items"
  "0 \<le> br_contradictions (fst (bulk_run env items e))"
  "br_contradictions (fst (bulk_run env items e)) \<le> count_items good_item items"
  using do_items_counts [of env items "snd (engine_Now e)" empty_result]
  by (simp_all add: bulk_run_def bulk_finish_def split_beta Let_def empty_result_def)

end
