(* ===== verification/Engine_Reach.thy ===== *)
theory Engine_Reach
  imports Semantic_Query Bulk
begin

text \<open>
  The engines that a client can reach: made by \<open>New\<close>, then changed by any sequence of calls. The
  invariants of the engine hold in all of them.
\<close>

section \<open>The engines that a client can reach\<close>

text \<open>
  A call of the engine, in success and in failure. \<open>told\<close> limits the beliefs that the client ingests
  himself. A call has one of three effects. \<open>Resolve\<close> and \<open>ReplayFromLog\<close> that succeed rebuild the engine
  from what it was told. Where the log refuses the record, \<open>Resolve\<close> returns with the resolution set and
  nothing rebuilt, and a \<open>ReplayFromLog\<close> that fails returns in the middle of the records: these unsettle
  the engine, whose graph may disagree with its beliefs from then on, until a call that rebuilds it.
  Every other call, a refused one included, keeps the graph in step with the beliefs if it was.
\<close>

datatype effect = Keeps | Rebuilds | Unsettles

definition resolve_effect :: "('l, 'i) env \<Rightarrow> Resolution \<Rightarrow> ('l, 'i) Engine \<Rightarrow> effect" where
  "resolve_effect env r e =
     (if fst (Resolve env r e) = None then Rebuilds else if valid_resolution r then Unsettles else Keeps)"

definition replay_effect :: "('l, 'i) env \<Rightarrow> ('l, 'i) Engine \<Rightarrow> effect" where
  "replay_effect env e =
     (if fst (ReplayFromLog env e) = None then Rebuilds else if e_log e = None then Keeps else Unsettles)"

inductive engine_step :: "('l, 'i) env \<Rightarrow> (Belief \<Rightarrow> bool) \<Rightarrow> ('l, 'i) Engine \<Rightarrow> effect \<Rightarrow> ('l, 'i) Engine \<Rightarrow> bool"
  for env and told where
  step_ingest: "told b \<Longrightarrow> engine_step env told e Keeps (snd (Ingest env b e))"
| step_resolve: "engine_step env told e (resolve_effect env r e) (snd (Resolve env r e))"
| step_add_rule: "engine_step env told e Keeps (snd (AddRule env ru e))"
| step_apply: "engine_step env told e Keeps (ApplyRules n e)"
| step_evaluate: "engine_step env told e Keeps (snd (Evaluate a e))"
| step_replay: "engine_step env told e (replay_effect env e) (snd (ReplayFromLog env e))"
| step_semantic: "engine_step env told e Keeps (snd (SemanticQuery a t e))"
| step_bulk_lines: "\<forall>b. bSource b = source \<longrightarrow> told b \<Longrightarrow>
    engine_step env told e Keeps (snd (BulkIngestTriples env content source e))"
| step_bulk_csv: "\<forall>b. bSource b = source \<longrightarrow> told b \<Longrightarrow> BulkIngestCSV env rerr content source e = Some (res, e') \<Longrightarrow>
    engine_step env told e Keeps e'"
| step_bulk_json: "\<forall>b. bSource b = source \<longrightarrow> told b \<Longrightarrow>
    engine_step env told e Keeps (snd (BulkIngestJSON env decoded source e))"

inductive_cases rebuildsE: "engine_step env told e Rebuilds e'"
inductive_cases unsettlesE: "engine_step env told e Unsettles e'"

text \<open>All engines that a client can reach, and those of them that are settled.\<close>

inductive reachable :: "('l, 'i) env \<Rightarrow> (Belief \<Rightarrow> bool) \<Rightarrow> ('l, 'i) Engine \<Rightarrow> bool" for env and told where
  reach_new: "set opts \<subseteq> range WithLog \<union> range WithInducer \<Longrightarrow> New clock opts = Inr e \<Longrightarrow> reachable env told e"
| reach_step: "reachable env told e \<Longrightarrow> engine_step env told e x e' \<Longrightarrow> reachable env told e'"

inductive settled :: "('l, 'i) env \<Rightarrow> (Belief \<Rightarrow> bool) \<Rightarrow> ('l, 'i) Engine \<Rightarrow> bool" for env and told where
  settled_new: "set opts \<subseteq> range WithLog \<union> range WithInducer \<Longrightarrow> New clock opts = Inr e \<Longrightarrow> settled env told e"
| settled_keep: "settled env told e \<Longrightarrow> engine_step env told e Keeps e' \<Longrightarrow> settled env told e'"
| settled_rebuild: "reachable env told e \<Longrightarrow> engine_step env told e Rebuilds e' \<Longrightarrow> settled env told e'"

lemma settled_reachable: "settled env told e \<Longrightarrow> reachable env told e"
  by (induction rule: settled.induct) (blast intro: reach_new reach_step)+

text \<open>A bulk load is a run of items, or a document that the decoder refused.\<close>

definition bulk_step :: "('l, 'i) env \<Rightarrow> (Belief \<Rightarrow> bool) \<Rightarrow> ('l, 'i) Engine \<Rightarrow> ('l, 'i) Engine \<Rightarrow> bool" where
  "bulk_step env told e e' \<longleftrightarrow>
     (\<exists>items. (\<forall>b \<in> set (bulk_beliefs items). told b) \<and> e' = snd (bulk_run env items e)) \<or>
     core e' = core e \<and> trace_ok (e_metrics e') = trace_ok (e_metrics e)"

lemma bulk_steps:
  assumes "\<forall>b. bSource b = source \<longrightarrow> told b"
  shows "bulk_step env told e (snd (BulkIngestTriples env content source e))"
    and "BulkIngestCSV env rerr content source e = Some (res, e') \<Longrightarrow> bulk_step env told e e'"
    and "bulk_step env told e (snd (BulkIngestJSON env decoded source e))"
proof -
  show "bulk_step env told e (snd (BulkIngestTriples env content source e))"
    unfolding bulk_step_def BulkIngestTriples_run using assms bulk_sources(1) by blast
  show "bulk_step env told e e'" if "BulkIngestCSV env rerr content source e = Some (res, e')"
  proof -
    have "rerr = ErrEOF" by (rule BulkIngestCSV_Some [OF that])
    with that have "e' = snd (bulk_run env (map (record_item source) (csv_records 0 content)) e)"
      by (simp add: BulkIngestCSV_run)
    then show ?thesis
      unfolding bulk_step_def using assms bulk_sources(3) by blast
  qed
  show "bulk_step env told e (snd (BulkIngestJSON env decoded source e))"
  proof (cases decoded)
    case (Inl err)
    then have "snd (BulkIngestJSON env decoded source e) = snd (engine_Now (snd (engine_Now e)))"
      by (simp add: BulkIngestJSON_def split_beta Let_def)
    then show ?thesis by (simp add: bulk_step_def)
  next
    case (Inr triples)
    show ?thesis
      unfolding bulk_step_def Inr BulkIngestJSON_run using assms bulk_sources(2) by blast
  qed
qed

lemma bulk_step_ok:
  assumes "bulk_step env told e e'" and "engine_ok e"
  shows "engine_ok e' \<and> (synced e \<longrightarrow> synced e')"
  using assms(1) unfolding bulk_step_def
proof (elim disjE conjE exE)
  show "engine_ok e' \<and> (synced e \<longrightarrow> synced e')" if "e' = snd (bulk_run env items e)" for items
    using engine_ok_bulk assms(2) that by blast
  show "engine_ok e' \<and> (synced e \<longrightarrow> synced e')"
    if "core e' = core e" "trace_ok (e_metrics e') = trace_ok (e_metrics e)"
    using that engine_ok_core [OF that(1) [symmetric]] engine_okD(7) [of e] core_abs(5) [OF that(1)] assms(2) by simp
qed

text \<open>A refused \<open>Resolve\<close> whose resolution is not valid, or a replay without a log, changes no belief.\<close>

lemma refused_Resolve:
  fixes e :: "('l, 'i) Engine"
  assumes "fst (Resolve env r e) \<noteq> None" and "\<not> valid_resolution r"
  shows "core (snd (Resolve env r e)) = core e"
proof -
  have "set_resolution r e = e"
    using assms(2) by (auto simp: set_resolution_def SetResolution_def valid_resolution_def)
  then show ?thesis using assms(1) by (auto simp: Resolve_core)
qed

lemma effect_cases:
  "resolve_effect env r e = Keeps \<longleftrightarrow> fst (Resolve env r e) \<noteq> None \<and> \<not> valid_resolution r"
  "resolve_effect env r e = Rebuilds \<longleftrightarrow> fst (Resolve env r e) = None"
  "replay_effect env e = Keeps \<longleftrightarrow> e_log e = None"
  "replay_effect env e = Rebuilds \<longleftrightarrow> fst (ReplayFromLog env e) = None"
  by (auto simp: resolve_effect_def replay_effect_def ReplayFromLog_def)

lemma engine_step_ok:
  assumes "engine_step env told e x e'" and "engine_ok e"
  shows "engine_ok e' \<and> (x = Keeps \<longrightarrow> synced e \<longrightarrow> synced e') \<and> (x = Rebuilds \<longrightarrow> synced e')"
  using assms(1)
proof (cases rule: engine_step.cases)
  case (step_resolve r)
  then show ?thesis
    using engine_ok_Resolve [OF assms(2), of env r] refused_Resolve [of env r e] core_abs(5) [of e' e]
      effect_cases(1,2) [of env r e] by auto
next
  case step_replay
  then show ?thesis
    using engine_ok_Replay [OF assms(2), of env] effect_cases(3,4) [of env e] by (auto simp: ReplayFromLog_def)
qed (simp_all add: assms(2) engine_ok_Ingest engine_ok_AddRule engine_ok_Evaluate engine_ok_ApplyRules
    synced_ApplyRules engine_ok_SemanticQuery bulk_step_ok [OF bulk_steps(1)] bulk_step_ok [OF bulk_steps(2)]
    bulk_step_ok [OF bulk_steps(3)])

lemma empty_engine_ok: "engine_ok (empty_engine clock) \<and> synced (empty_engine clock)"
  by (simp add: empty_engine_def engine_ok_def synced_def facts_of_def held_facts_def beliefs_of_def trace_ok_New)

lemma apply_options_ok:
  "set opts \<subseteq> range WithLog \<union> range WithInducer \<Longrightarrow> apply_options opts e = Inr e' \<Longrightarrow>
    engine_ok e \<and> synced e \<Longrightarrow> engine_ok e' \<and> synced e'"
proof (induction opts arbitrary: e)
  case (Cons opt opts)
  obtain e1 where 1: "opt e = Inr e1" "apply_options opts e1 = Inr e'"
    using Cons.prems(2) by (auto split: sum.splits)
  have "core e = core e1 \<and> e_metrics e = e_metrics e1"
    using Cons.prems(1) 1(1) by (auto simp: WithLog_def WithInducer_def core_def split: option.splits)
  then have "engine_ok e1 \<and> synced e1"
    using Cons.prems(3) core_abs(5) [of e e1] engine_ok_core [of e e1] engine_okD(7) [of e] by auto
  with Cons 1 show ?case by simp
qed simp

lemma new_engine_ok:
  "set opts \<subseteq> range WithLog \<union> range WithInducer \<Longrightarrow> New clock opts = Inr e \<Longrightarrow> engine_ok e \<and> synced e"
  using apply_options_ok [OF _ _ empty_engine_ok] by (simp add: New_def)

lemma reachable_ok: "reachable env told e \<Longrightarrow> engine_ok e"
  by (induction rule: reachable.induct) (use new_engine_ok engine_step_ok in blast)+

lemma settled_ok: "settled env told e \<Longrightarrow> engine_ok e \<and> synced e"
  by (induction rule: settled.induct) (use new_engine_ok engine_step_ok reachable_ok in blast)+

end
