(* ===== verification/Engine_Props.thy ===== *)
theory Engine_Props
  imports Engine_Correct Engine_Reach
begin

text \<open>
  Induction over the engines that a client can reach, and the properties of their facts, verdicts and
  proofs.
\<close>

section \<open>Invariants of the reachable engines\<close>

text \<open>
  A call that keeps the graph in step with the beliefs keeps every invariant of the core of an engine
  that ingestion, the application of rules and the addition of a rule keep.
\<close>

lemma keeping_step:
  fixes e e' :: "('l, 'i) Engine"
  assumes "engine_step env told e Keeps e'" and "engine_ok e" and "P e"
    and cong: "\<And>e1 e2 :: ('l, 'i) Engine. core e1 = core e2 \<Longrightarrow> P e1 \<Longrightarrow> P e2"
    and ingest: "\<And>b (e :: ('l, 'i) Engine). told b \<Longrightarrow> engine_ok e \<Longrightarrow> P e \<Longrightarrow> P (snd (ingestNoLog b e))"
    and rules: "\<And>n (e :: ('l, 'i) Engine). engine_ok e \<Longrightarrow> P e \<Longrightarrow> P (ApplyRules n e)"
    and add: "\<And>r (e :: ('l, 'i) Engine). engine_ok e \<Longrightarrow> P e \<Longrightarrow> P (add_rule r e)"
    and cache: "\<And>si (e :: ('l, 'i) Engine). indexed si = indexed (e_semantic e) \<Longrightarrow> P e \<Longrightarrow> P (cached si e)"
  shows "P e'"
proof -
  have bulk: "P x" if "bulk_step env told e x" for x
    using that unfolding bulk_step_def
  proof (elim disjE conjE exE)
    fix items assume told: "\<forall>b \<in> set (bulk_beliefs items). told b" and x: "x = snd (bulk_run env items e)"
    have "engine_ok e \<Longrightarrow> P e \<Longrightarrow> \<forall>b \<in> set bs. told b \<Longrightarrow> P (ingest_all bs e)" for bs and e :: "('l, 'i) Engine"
      by (induction bs arbitrary: e) (auto simp: ingest_all_def ingest engine_ok_ingest)
    from rules [OF engine_ok_ingest_all [OF assms(2)] this [OF assms(2,3) told]] show ?thesis
      using cong [OF bulk_run_engine(1) [symmetric]] x by blast
  qed (use cong [OF _ assms(3)] in simp)
  show ?thesis
    using assms(1)
  proof (cases rule: engine_step.cases)
    case (step_ingest b)
    have P: "P (snd (ingestNoLog b e))" "P (ApplyRules 1000 (snd (ingestNoLog b e)))"
      using ingest [OF step_ingest(2) assms(2,3)] rules engine_ok_ingest [OF assms(2)] by blast+
    show ?thesis
      using cong [OF _ P(1), of e'] cong [OF _ P(2), of e']
      by (cases "fst (Ingest env b e)") (simp_all add: step_ingest(1) Ingest_core)
  next
    case (step_resolve r)
    then show ?thesis
      using cong [OF _ assms(3), of e'] refused_Resolve effect_cases(1) by metis
  next
    case (step_add_rule r)
    have P: "P (add_rule r e)" "P (ApplyRules 1000 (add_rule r e))"
      using add [OF assms(2,3)] rules assms(2) by simp_all
    show ?thesis
      using cong [OF _ P(1), of e'] cong [OF _ P(2), of e'] cong [OF _ assms(3), of e']
      by (cases "valid_rule r"; cases "fst (AddRule env r e)") (simp_all add: step_add_rule AddRule_core)
  next
    case (step_apply n)
    then show ?thesis using rules assms by simp
  next
    case (step_evaluate a)
    then show ?thesis
      using cong [OF _ assms(3), of e'] by simp
  next
    case step_replay
    then have "e_log e = None"
      using effect_cases(3) by metis
    then show ?thesis
      using step_replay(2) assms(3) by (simp add: ReplayFromLog_def)
  next
    case (step_semantic a t)
    then show ?thesis
      using cong [OF SemanticQuery_result(2) [symmetric] cache [OF _ assms(3)]]
        index_ok_Similar [OF engine_okD(5) [OF assms(2)]] by simp
  next
    case (step_bulk_lines source content)
    then show ?thesis using bulk [OF bulk_steps(1) [OF step_bulk_lines(2)]] by simp
  next
    case (step_bulk_csv source rerr content res)
    show ?thesis by (rule bulk [OF bulk_steps(2) [OF step_bulk_csv]])
  next
    case (step_bulk_json source decoded)
    then show ?thesis using bulk [OF bulk_steps(3) [OF step_bulk_json(2)]] by simp
  qed
qed

text \<open>What a replay has in hand when it comes to the records \<open>rs\<close>.\<close>

definition replayed :: "Record list \<Rightarrow> go_error option \<Rightarrow> ('l, 'i) Engine \<Rightarrow> ('l, 'i) Engine" where
  "replayed rs err e = snd (replay_records replay_event rs err (wiped e))"

lemma engine_ok_replayed: "engine_ok e \<Longrightarrow> engine_ok (replayed rs err e)"
  using replay_records_ok [OF engine_ok_wiped, of e] by (simp add: replayed_def)

lemma replay_ends:
  fixes e :: "('l, 'i) Engine"
  assumes "e_log e = Some l"
  obtains "snd (ReplayFromLog env e) = recompute (replayed (fst (log_Replay env l)) (snd (log_Replay env l)) e)"
      "fst (ReplayFromLog env e) = None"
  | "snd (ReplayFromLog env e) = replayed (fst (log_Replay env l)) (snd (log_Replay env l)) e"
      "fst (ReplayFromLog env e) \<noteq> None"
proof -
  obtain er e2 where r: "replay_records replay_event (fst (log_Replay env l)) (snd (log_Replay env l)) (wiped e) = (er, e2)"
    by fastforce
  show ?thesis
    using that assms r by (cases er) (simp_all add: ReplayFromLog_cases replayed_def)
qed

text \<open>A call that rebuilds the engine, and what is left of a call that unsettles it.\<close>

lemma rebuilding_step:
  fixes e e' :: "('l, 'i) Engine"
  assumes "engine_step env told e Rebuilds e'" and "engine_ok e"
  obtains e0 :: "('l, 'i) Engine" where "engine_ok e0" "core (recompute e0) = core e'"
proof (rule rebuildsE [OF assms(1)])
  fix r
  assume "e' = snd (Resolve env r e)" and "Rebuilds = resolve_effect env r e"
  then have "core (recompute (set_resolution r e)) = core e'"
    using effect_cases(2) [of env r e] by (simp add: Resolve_core)
  with that engine_ok_set_resolution [OF assms(2)] show thesis by blast
next
  assume e': "e' = snd (ReplayFromLog env e)" and "Rebuilds = replay_effect env e"
  then have ok: "fst (ReplayFromLog env e) = None"
    using effect_cases(4) by metis
  then obtain l where "e_log e = Some l"
    by (cases "e_log e") (simp_all add: ReplayFromLog_def)
  then have "e' = recompute (replayed (fst (log_Replay env l)) (snd (log_Replay env l)) e)"
    using e' ok by (cases rule: replay_ends [where env = env]) simp_all
  with that engine_ok_replayed [OF assms(2)] show thesis by blast
qed

lemma unsettling_step:
  fixes e e' :: "('l, 'i) Engine"
  assumes "engine_step env told e Unsettles e'"
  obtains r where "core (set_resolution r e) = core e'" | rs err where "e' = replayed rs err e"
proof (rule unsettlesE [OF assms])
  fix r
  assume e': "e' = snd (Resolve env r e)" and "Unsettles = resolve_effect env r e"
  then obtain er where "fst (Resolve env r e) = Some er"
    using effect_cases(2) [of env r e] by fastforce
  then show thesis
    using that(1) [of r] e' by (simp add: Resolve_core)
next
  assume e': "e' = snd (ReplayFromLog env e)" and "Unsettles = replay_effect env e"
  then obtain l where "e_log e = Some l" and "fst (ReplayFromLog env e) \<noteq> None"
    using effect_cases(3,4) [of env e] by (cases "e_log e") fastforce+
  then show thesis
    using e' that(2) by (cases rule: replay_ends [where env = env]) simp_all
qed

lemma apply_options_core:
  "set opts \<subseteq> range WithLog \<union> range WithInducer \<Longrightarrow> apply_options opts e = Inr e' \<Longrightarrow> core e = core e'"
proof (induction opts arbitrary: e)
  case (Cons opt opts)
  obtain e1 where 1: "opt e = Inr e1" "apply_options opts e1 = Inr e'"
    using Cons.prems(2) by (auto split: sum.splits)
  have "core e = core e1"
    using Cons.prems(1) 1(1) by (auto simp: WithLog_def WithInducer_def core_def split: option.splits)
  with Cons 1 show ?case by simp
qed simp

lemma new_core:
  fixes e :: "('l, 'i) Engine"
  assumes "set opts \<subseteq> range WithLog \<union> range WithInducer" and "New clock opts = Inr e"
  shows "core (empty_engine clock :: ('l, 'i) Engine) = core e"
  using apply_options_core [OF assms(1)] assms(2) by (simp add: New_def)

text \<open>
  Two principles: for the engines that are settled, whatever they went through before they were last
  rebuilt, and for all engines, where an invariant has to survive a resolution without a rebuild, and
  a replay, wherever it stops.
\<close>

lemma settled_induct:
  fixes e :: "('l, 'i) Engine"
  assumes "settled env told e"
    and start: "\<And>clock. P (empty_engine clock :: ('l, 'i) Engine)"
    and cong: "\<And>e1 e2 :: ('l, 'i) Engine. core e1 = core e2 \<Longrightarrow> P e1 \<Longrightarrow> P e2"
    and ingest: "\<And>b (e :: ('l, 'i) Engine). told b \<Longrightarrow> engine_ok e \<Longrightarrow> P e \<Longrightarrow> P (snd (ingestNoLog b e))"
    and rules: "\<And>n (e :: ('l, 'i) Engine). engine_ok e \<Longrightarrow> P e \<Longrightarrow> P (ApplyRules n e)"
    and add: "\<And>r (e :: ('l, 'i) Engine). engine_ok e \<Longrightarrow> P e \<Longrightarrow> P (add_rule r e)"
    and cache: "\<And>si (e :: ('l, 'i) Engine). indexed si = indexed (e_semantic e) \<Longrightarrow> P e \<Longrightarrow> P (cached si e)"
    and rebuild: "\<And>e :: ('l, 'i) Engine. engine_ok e \<Longrightarrow> P (recompute e)"
  shows "P e"
  using assms(1)
proof (induction rule: settled.induct)
  case (settled_new opts clock e)
  then show ?case
    using cong [OF new_core start] by blast
next
  case (settled_keep e e')
  show ?case
    by (rule keeping_step [where P = P, OF settled_keep(2) settled_ok [OF settled_keep(1), THEN conjunct1]
          settled_keep(3) cong ingest rules add cache])
next
  case (settled_rebuild e e')
  then show ?case
    using rebuilding_step [OF settled_rebuild(2) reachable_ok] cong rebuild by metis
qed

lemma reachable_induct:
  fixes e :: "('l, 'i) Engine"
  assumes "reachable env told e"
    and start: "\<And>clock. P (empty_engine clock :: ('l, 'i) Engine)"
    and cong: "\<And>e1 e2 :: ('l, 'i) Engine. core e1 = core e2 \<Longrightarrow> P e1 \<Longrightarrow> P e2"
    and ingest: "\<And>b (e :: ('l, 'i) Engine). engine_ok e \<Longrightarrow> P e \<Longrightarrow> P (snd (ingestNoLog b e))"
    and rules: "\<And>n (e :: ('l, 'i) Engine). engine_ok e \<Longrightarrow> P e \<Longrightarrow> P (ApplyRules n e)"
    and add: "\<And>r (e :: ('l, 'i) Engine). engine_ok e \<Longrightarrow> P e \<Longrightarrow> P (add_rule r e)"
    and cache: "\<And>si (e :: ('l, 'i) Engine). indexed si = indexed (e_semantic e) \<Longrightarrow> P e \<Longrightarrow> P (cached si e)"
    and rebuild: "\<And>e :: ('l, 'i) Engine. engine_ok e \<Longrightarrow> P (recompute e)"
    and resolve: "\<And>r (e :: ('l, 'i) Engine). engine_ok e \<Longrightarrow> P e \<Longrightarrow> P (set_resolution r e)"
    and wipe: "\<And>e :: ('l, 'i) Engine. engine_ok e \<Longrightarrow> P (wiped e)"
  shows "P e"
  using assms(1)
proof (induction rule: reachable.induct)
  case (reach_new opts clock e)
  then show ?case
    using cong [OF new_core start] by blast
next
  case (reach_step e x e')
  note ok = reachable_ok [OF reach_step(1)]
  have event: "P (snd (replay_event r e))" if "engine_ok e" "P e" for r and e :: "('l, 'i) Engine"
    by (rule replay_event_cases [of r e]) (simp_all add: that ingest resolve add)
  have "P (snd (replay_records replay_event rs err e))" if "engine_ok e" "P e" for rs err and e :: "('l, 'i) Engine"
    using that
  proof (induction rs arbitrary: e)
    case (Cons r rs)
    then show ?case
      using event [of e r] replay_event_ok [of e r] by (auto split: prod.split option.split)
  qed simp
  then have replayed: "P (replayed rs err e)" for rs err
    using wipe [OF ok] engine_ok_wiped [OF ok] by (simp add: replayed_def)
  show ?case
  proof (cases x)
    case Keeps
    show ?thesis
      by (rule keeping_step [where P = P, OF reach_step(2) [unfolded Keeps] ok reach_step(3) cong ingest rules add cache])
  next
    case Rebuilds
    then show ?thesis
      using rebuilding_step [OF _ ok] reach_step(2) cong rebuild by metis
  next
    case Unsettles
    then show ?thesis
      using unsettling_step [of env told e e'] reach_step(2) cong [OF _ resolve [OF ok reach_step(3)]] replayed
      by metis
  qed
qed

lemma reachable_explained: "reachable env told e \<Longrightarrow> explained e"
proof (erule reachable_induct [where P = explained])
  show "explained (empty_engine clock)" for clock
    by (simp add: explained_def empty_engine_def)
  show "explained e \<Longrightarrow> explained (cached si e)" "explained e \<Longrightarrow> explained (set_resolution r e)" "explained (wiped e)"
    for si r and e :: "('l, 'i) Engine"
    by (simp_all add: explained_def cached_def set_resolution_def wiped_def facts_of_def)
qed (use justified_cong ingest_explained ApplyRules_justified(2) add_rule_justified(2) recompute_justified(2) in blast)+

lemma settled_justified:
  assumes "settled env (\<lambda>b. \<not> has_prefix (bSource b) derivedSourcePrefix) e"
  shows "justified e"
  using assms
proof (rule settled_induct [where P = justified])
  show "justified (empty_engine clock)" for clock
    by (simp add: justified_def empty_engine_def facts_of_def)
  show "justified e \<Longrightarrow> justified (cached si e)" for si and e :: "('l, 'i) Engine"
    by (simp add: justified_def cached_def beliefs_of_def facts_of_def base_beliefs_def resolvedFalse_def)
qed (use justified_cong ingest_justified ApplyRules_justified(1) add_rule_justified(1) recompute_justified(1) in blast)+

text \<open>What holds of the graph even where the engine is not settled: no edge without a belief.\<close>

definition drawn :: "('l, 'i) Engine \<Rightarrow> bool" where
  "drawn e \<longleftrightarrow>
     (\<forall>a. atom_triple a \<in> facts_of e \<longrightarrow>
        a \<in> indexed (e_semantic e) \<and> (\<exists>b \<in> beliefs_of e. bAtom b = a \<and> bPolarity b = PolarityPositive))"

lemma drawn_ingest: "engine_ok e \<Longrightarrow> drawn e \<Longrightarrow> drawn (snd (ingestNoLog b e))"
  by (auto simp: drawn_def facts_of_ingest beliefs_of_ingest indexed_ingest)

lemma synced_drawn: "synced e \<Longrightarrow> drawn e"
  by (auto simp: drawn_def synced_def held_facts_def)

lemma drawn_derive: "engine_ok e \<Longrightarrow> drawn e \<Longrightarrow> drawn (derive_step r d e)"
  unfolding derive_step_def
  by (intro drawn_ingest engine_ok_add_derivation) (simp_all add: drawn_def)

lemma drawn_core: "core e1 = core e2 \<Longrightarrow> drawn e1 = drawn e2"
  for e1 e2 :: "('l, 'i) Engine"
  by (simp add: drawn_def core_def facts_of_def beliefs_of_def)

lemma reachable_drawn: "reachable env told e \<Longrightarrow> drawn e"
proof (erule reachable_induct [where P = drawn])
  show "drawn (empty_engine clock)" for clock
    using empty_engine_ok synced_drawn by blast
  show "drawn (ApplyRules n e)" if "engine_ok e" "drawn e" for n and e :: "('l, 'i) Engine"
    using ApplyRules_induct [of e drawn n] that drawn_derive by blast
  show "drawn (wiped e)" "drawn e \<Longrightarrow> drawn (set_resolution r e)" "drawn e \<Longrightarrow> drawn (add_rule ru e)"
      "indexed si = indexed (e_semantic e) \<Longrightarrow> drawn e \<Longrightarrow> drawn (cached si e)"
    for r ru si and e :: "('l, 'i) Engine"
    by (simp_all add: drawn_def wiped_def set_resolution_def add_rule_def cached_def facts_of_def beliefs_of_def
        SetResolution_beliefs)
qed (use drawn_core drawn_ingest synced_drawn recompute_ok(2) in blast)+

text \<open>A belief of this polarity on the atom.\<close>

definition believed_as :: "Polarity \<Rightarrow> Atom \<Rightarrow> ('l, 'i) Engine \<Rightarrow> bool" where
  "believed_as pol a e \<longleftrightarrow> (\<exists>b \<in> set (Snapshot a (e_beliefs e)). bPolarity b = pol)"

lemma believed_as_iff:
  "engine_ok e \<Longrightarrow> believed_as pol a e \<longleftrightarrow> (\<exists>b \<in> beliefs_of e. bAtom b = a \<and> bPolarity b = pol)"
  using engine_okD(2) [of e] by (auto simp: believed_as_def beliefs_of_def mem_Snapshot)

lemma synced_graph:
  assumes "engine_ok e" and "synced e"
  shows "set (map edge_atom (EdgesAll (e_graph e))) = {a. believed_as PolarityPositive a e \<and> \<not> resolvedFalse a e}"
    "indexed (e_semantic e) = set (map edge_atom (EdgesAll (e_graph e)))"
  unfolding edge_atoms [OF assms(1)] using assms by (auto simp: synced_def held_facts_def believed_as_iff)

lemma Evaluate_verdict_cases:
  "fst (Evaluate_result a e) =
     (case Resolution_of a (e_beliefs e) of
        Some r \<Rightarrow> (if rPolarity r = PolarityPositive then TruthTrue else TruthFalse)
      | None \<Rightarrow>
          (case (believed_as PolarityPositive a e, believed_as PolarityNegative a e) of
             (True, True) \<Rightarrow> TruthBoth | (True, False) \<Rightarrow> TruthTrue
           | (False, True) \<Rightarrow> TruthFalse | (False, False) \<Rightarrow> TruthUnknown))"
  by (simp add: believed_as_def Evaluate_result_def Let_def split: option.split)

section \<open>A running example\<close>

definition ex_env :: "(unit, unit) env" where
  "ex_env = \<lparr>log_Append = (\<lambda>_ l. (None, l)), log_Replay = (\<lambda>_. ([], None)), ind_Observe = (\<lambda>_ i. ([], i))\<rparr>"

definition ex_fact :: "string \<Rightarrow> string \<Rightarrow> Belief" where
  "ex_fact x y = \<lparr>bAtom = mk_atom x ''isa'' y, bPolarity = PolarityPositive, bSource = ''zoo'', bUnixNano = 7\<rparr>"

definition ex_start :: "(unit, unit) Engine" where
  "ex_start = empty_engine (\<lambda>_. 0)"

definition ex_told :: "(unit, unit) Engine" where
  "ex_told = snd (Ingest ex_env (ex_fact ''a'' ''b'') ex_start)"

lemma ex_fact_simps [simp]:
  "bAtom (ex_fact x y) = mk_atom x ''isa'' y" "bPolarity (ex_fact x y) = PolarityPositive"
  "bSource (ex_fact x y) = ''zoo''"
  by (simp_all add: ex_fact_def)

lemma ex_fact_valid: "x \<noteq> [] \<Longrightarrow> y \<noteq> [] \<Longrightarrow> valid_belief (ex_fact x y)"
  by (simp add: valid_belief_def check_fields_def)

lemma ex_plain_source: "\<not> has_prefix (bSource (ex_fact x y)) derivedSourcePrefix"
  by (simp add: has_prefix_def derivedSourcePrefix_def)

lemma ex_start_settled: "settled env told ex_start"
  by (rule settled_new [where opts = "[]" and clock = "\<lambda>_. 0"]) (simp_all add: New_def ex_start_def)

lemma ex_told_settled:
  "settled ex_env (\<lambda>b. \<not> has_prefix (bSource b) derivedSourcePrefix) ex_told"
  unfolding ex_told_def
  by (rule settled_keep [OF ex_start_settled]) (rule step_ingest, rule ex_plain_source)

lemmas ex_start_reachable = ex_start_settled [THEN settled_reachable]
lemmas ex_told_reachable = ex_told_settled [THEN settled_reachable]

lemma ex_start_fields:
  "engine_ok ex_start" "beliefs_of ex_start = {}" "facts_of ex_start = {}" "Resolution_of a (e_beliefs ex_start) = None"
  "resolvedFalse a ex_start = False" "e_rules ex_start = []" "e_log ex_start = None"
proof -
  show "engine_ok ex_start"
    by (simp add: ex_start_def empty_engine_ok)
  show "beliefs_of ex_start = {}" "facts_of ex_start = {}" "e_rules ex_start = []" "e_log ex_start = None"
    by (simp_all add: ex_start_def empty_engine_def beliefs_of_def facts_of_def)
  show "Resolution_of a (e_beliefs ex_start) = None"
    by (simp add: ex_start_def empty_engine_def Resolution_of_def NewStore_def)
  then show "resolvedFalse a ex_start = False"
    by (simp add: resolvedFalse_def)
qed

lemma ApplyRules_no_rules: "e_rules e = [] \<Longrightarrow> ApplyRules n e = e"
  by (simp add: ApplyRules_def apply_loop.simps [of n e] apply_round_def Let_def)

lemma ex_told_core: "core ex_told = core (snd (ingestNoLog (ex_fact ''a'' ''b'') ex_start))"
  unfolding ex_told_def
  by (simp add: Ingest_core ApplyRules_no_rules ex_start_fields split: sum.split)

lemma ex_told_fields:
  "beliefs_of ex_told = {ex_fact ''a'' ''b''}" "facts_of ex_told = {(''a'', ''isa'', ''b'')}"
  "resolvedFalse a ex_told = False" "e_rules ex_told = []"
  using core_abs(1,2,4,6) [OF ex_told_core] ex_fact_valid [of "''a''" "''b''"] ex_start_fields
  by (simp_all add: beliefs_of_ingest facts_of_ingest)

lemma ex_told_log: "e_log ex_told = None"
proof -
  obtain c where "fst (Add (ex_fact ''a'' ''b'') (e_beliefs ex_start)) = Inr c"
    using Add_Inr_iff ex_fact_valid [of "''a''" "''b''"] by blast
  from Ingest_log [OF ex_start_fields(1) this] show ?thesis
    by (simp add: ex_told_def ex_start_fields log_write_def)
qed

text \<open>The same engine with a rule, and what the rule derives.\<close>

definition ex_inverse :: Rule where
  "ex_inverse = \<lparr>rName = ''inverse'', rIf = [mk_pat ''?x'' ''isa'' ''?y''], rThen = mk_pat ''?y'' ''has'' ''?x''\<rparr>"

definition ex_derivation :: Derivation where
  "ex_derivation = \<lparr>dThen = mk_pat ''b'' ''has'' ''a'', dPremises = [mk_pat ''a'' ''isa'' ''b'']\<rparr>"

definition ex_ruled :: "(unit, unit) Engine" where
  "ex_ruled = add_rule ex_inverse ex_told"

definition ex_derived :: "(unit, unit) Engine" where
  "ex_derived = snd (AddRule ex_env ex_inverse ex_told)"

lemma ex_rule_simps:
  "dThen ex_derivation = mk_pat ''b'' ''has'' ''a''" "dPremises ex_derivation = [mk_pat ''a'' ''isa'' ''b'']"
  "rName ex_inverse = ''inverse''" "pat_atom (mk_pat x p y) = mk_atom x p y"
  by (simp_all add: ex_derivation_def ex_inverse_def pat_atom_def)

lemma ex_derivations_two:
  "EvaluateRuleDerivations ex_inverse [mk_edge ''a'' ''isa'' ''b''] 1000 = [ex_derivation]"
  "EvaluateRuleDerivations ex_inverse [mk_edge ''a'' ''isa'' ''b'', mk_edge ''b'' ''has'' ''a''] 999 = [ex_derivation]"
  "EvaluateRuleDerivations ex_inverse [mk_edge ''a'' ''isa'' ''b'', mk_edge ''b'' ''has'' ''a''] 1000 = [ex_derivation]"
  by code_simp+

lemma ex_ruled_fields:
  "engine_ok ex_ruled" "synced ex_ruled" "beliefs_of ex_ruled = {ex_fact ''a'' ''b''}"
  "facts_of ex_ruled = {(''a'', ''isa'', ''b'')}" "resolvedFalse a ex_ruled = False" "e_rules ex_ruled = [ex_inverse]"
  using settled_ok [OF ex_told_settled] by (simp_all add: ex_ruled_def ex_told_fields)

lemma ex_step_fields:
  "engine_ok (derive_step ex_inverse ex_derivation ex_ruled)" "synced (derive_step ex_inverse ex_derivation ex_ruled)"
  "known (derive_step ex_inverse ex_derivation ex_ruled) ex_inverse ex_derivation"
  "\<not> known ex_ruled ex_inverse ex_derivation"
  "facts_of (derive_step ex_inverse ex_derivation ex_ruled) = {(''a'', ''isa'', ''b''), (''b'', ''has'', ''a'')}"
  using ex_ruled_fields
  by (auto simp: engine_ok_derive synced_derive known_def derive_beliefs derive_facts valid_pat_def ex_derivation_def
      rule_belief_def ex_fact_def derivedSourcePrefix_def)

lemma facts_edges:
  "engine_ok e \<Longrightarrow> facts_of e = F \<Longrightarrow> EdgesAll (e_graph e) = map triple_edge (sorted_list_of_set F)"
  using EdgesAll_list [of "e_graph e"] by (simp add: engine_okD facts_of_def)

lemma ex_edges_two:
  "EdgesAll (e_graph ex_ruled) = [mk_edge ''a'' ''isa'' ''b'']"
  "EdgesAll (e_graph (derive_step ex_inverse ex_derivation ex_ruled)) =
     [mk_edge ''a'' ''isa'' ''b'', mk_edge ''b'' ''has'' ''a'']"
proof -
  have "sorted_list_of_set {(''a'', ''isa'', ''b''), (''b'', ''has'', ''a'')} =
      [(''a'', ''isa'', ''b''), (''b'', ''has'', ''a'')]"
    by code_simp
  then show "EdgesAll (e_graph ex_ruled) = [mk_edge ''a'' ''isa'' ''b'']"
    "EdgesAll (e_graph (derive_step ex_inverse ex_derivation ex_ruled)) =
       [mk_edge ''a'' ''isa'' ''b'', mk_edge ''b'' ''has'' ''a'']"
    using facts_edges [OF ex_ruled_fields(1,4)] facts_edges [OF ex_step_fields(1,5)]
    by (simp_all add: triple_edge_def)
qed

lemma ex_ApplyRules:
  "ApplyRules 1000 ex_ruled =
     derive_step ex_inverse ex_derivation (derive_step ex_inverse ex_derivation ex_ruled)"
proof -
  have 1: "apply_round ex_ruled 1000 = (derive_step ex_inverse ex_derivation ex_ruled, 999, 1)"
    by (simp add: apply_round_def Let_def ex_ruled_fields ex_edges_two EvaluateRuleDerivationsIndexed_eq
        ex_derivations_two apply_derivations_known ex_step_fields)
  have 2: "apply_round (derive_step ex_inverse ex_derivation ex_ruled) 999 =
      (derive_step ex_inverse ex_derivation (derive_step ex_inverse ex_derivation ex_ruled), 999, 0)"
    by (simp add: apply_round_def Let_def ex_ruled_fields ex_edges_two EvaluateRuleDerivationsIndexed_eq
        ex_derivations_two apply_derivations_known ex_step_fields)
  show ?thesis
    by (simp add: ApplyRules_def apply_loop.simps [of 1000 ex_ruled] 1
        apply_loop.simps [of 999 "derive_step ex_inverse ex_derivation ex_ruled"] 2)
qed

lemma ex_derived_core: "core ex_derived = core (ApplyRules 1000 ex_ruled)"
proof -
  show ?thesis
    by (simp add: ex_derived_def ex_ruled_def AddRule_core AddRule_result valid_rule_def ex_inverse_def log_write_def ex_told_log)
qed

lemma ex_derived_settled:
  "settled ex_env (\<lambda>b. \<not> has_prefix (bSource b) derivedSourcePrefix) ex_derived"
  unfolding ex_derived_def by (rule settled_keep [OF ex_told_settled]) (rule step_add_rule)

lemmas ex_derived_reachable = ex_derived_settled [THEN settled_reachable]

lemma ex_derived_proofs:
  "e_derivations ex_derived =
     [(mk_atom ''b'' ''has'' ''a'', [\<lparr>dpRule = ''inverse'', dpPremises = [mk_atom ''a'' ''isa'' ''b'']\<rparr>])]"
  "derivationsFor (mk_atom ''b'' ''has'' ''a'') (e_derivations ex_derived) =
     [\<lparr>dpRule = ''inverse'', dpPremises = [mk_atom ''a'' ''isa'' ''b'']\<rparr>]"
proof -
  have "e_derivations ex_told = []"
    using core_abs(9) [OF ex_told_core] by (simp add: ex_start_def empty_engine_def)
  then have "e_derivations ex_derived =
      addDerivation (mk_atom ''b'' ''has'' ''a'') \<lparr>dpRule = ''inverse'', dpPremises = [mk_atom ''a'' ''isa'' ''b'']\<rparr>
        (addDerivation (mk_atom ''b'' ''has'' ''a'') \<lparr>dpRule = ''inverse'', dpPremises = [mk_atom ''a'' ''isa'' ''b'']\<rparr> [])"
    using core_abs(9) [OF ex_derived_core]
    by (simp add: ex_ApplyRules derive_step_def ex_rule_simps) (simp add: ex_ruled_def add_rule_def)
  moreover have "addDerivation (mk_atom ''b'' ''has'' ''a'') \<lparr>dpRule = ''inverse'', dpPremises = [mk_atom ''a'' ''isa'' ''b'']\<rparr>
        (addDerivation (mk_atom ''b'' ''has'' ''a'') \<lparr>dpRule = ''inverse'', dpPremises = [mk_atom ''a'' ''isa'' ''b'']\<rparr> []) =
      [(mk_atom ''b'' ''has'' ''a'', [\<lparr>dpRule = ''inverse'', dpPremises = [mk_atom ''a'' ''isa'' ''b'']\<rparr>])]"
    by code_simp
  ultimately show e: "e_derivations ex_derived =
      [(mk_atom ''b'' ''has'' ''a'', [\<lparr>dpRule = ''inverse'', dpPremises = [mk_atom ''a'' ''isa'' ''b'']\<rparr>])]"
    by simp
  show "derivationsFor (mk_atom ''b'' ''has'' ''a'') (e_derivations ex_derived) =
      [\<lparr>dpRule = ''inverse'', dpPremises = [mk_atom ''a'' ''isa'' ''b'']\<rparr>]"
    by (simp add: e derivationsFor_def go_index_def)
qed

lemma ex_derived_fields:
  "beliefs_of ex_derived = {rule_belief ex_inverse (mk_atom ''b'' ''has'' ''a''), ex_fact ''a'' ''b''}"
  "EdgesAll (e_graph ex_derived) = [mk_edge ''a'' ''isa'' ''b'', mk_edge ''b'' ''has'' ''a'']"
  "e_rules ex_derived = [ex_inverse]"
proof -
  note c = core_abs [OF ex_derived_core]
  have "facts_of ex_derived = facts_of (derive_step ex_inverse ex_derivation ex_ruled)"
    using c(2) by (simp add: ex_ApplyRules derive_facts [of "derive_step _ _ _"] ex_step_fields ex_rule_simps insert_absorb)
  then show "EdgesAll (e_graph ex_derived) = [mk_edge ''a'' ''isa'' ''b'', mk_edge ''b'' ''has'' ''a'']"
    using EdgesAll_det [of "e_graph ex_derived" "e_graph (derive_step ex_inverse ex_derivation ex_ruled)"]
      reachable_ok [OF ex_derived_reachable] ex_step_fields(1)
    by (simp add: engine_okD facts_of_def ex_edges_two)
  show "beliefs_of ex_derived = {rule_belief ex_inverse (mk_atom ''b'' ''has'' ''a''), ex_fact ''a'' ''b''}"
    using c(1) ex_ruled_fields(1,3)
    by (simp add: ex_ApplyRules derive_beliefs ex_step_fields valid_pat_def ex_rule_simps)
  show "e_rules ex_derived = [ex_inverse]"
    using c(6) by (simp add: ex_ApplyRules ex_ruled_fields)
qed

lemma ex_derived_verdict:
  "Resolution_of x (e_beliefs ex_derived) = None"
  "believed_as PolarityPositive (mk_atom ''b'' ''has'' ''a'') ex_derived"
  "\<not> believed_as PolarityNegative (mk_atom ''b'' ''has'' ''a'') ex_derived"
proof -
  have ok: "engine_ok ex_derived"
    using reachable_ok [OF ex_derived_reachable] by simp
  show "believed_as PolarityPositive (mk_atom ''b'' ''has'' ''a'') ex_derived"
    "\<not> believed_as PolarityNegative (mk_atom ''b'' ''has'' ''a'') ex_derived"
    by (auto simp: believed_as_iff [OF ok] ex_derived_fields)
  have "Resolution_of x (e_beliefs ex_told) = None"
    using core_abs(7) [OF ex_told_core] by (simp add: engine_simps Resolution_of_Add engine_okD ex_start_fields)
  then show "Resolution_of x (e_beliefs ex_derived) = None"
    using core_abs(7) [OF ex_derived_core] ex_ruled_fields(1)
    by (simp add: ex_ApplyRules ex_step_fields) (simp add: ex_ruled_def)
qed

section \<open>Properties\<close>

text \<open>
  C1: In every settled engine the edges of the graph, and the atoms of the semantic index, are exactly
  the atoms with a positive belief that no resolution denies. An engine is settled when it is new, after
  any call of \<open>Resolve\<close> or \<open>ReplayFromLog\<close> that succeeds, whatever went wrong before it, and from then on
  until one of these two fails. In every other engine that a client can reach, one whose \<open>Resolve\<close> was
  refused by the log or whose replay stopped half way, each edge still has a positive belief and a place
  in the index.
\<close>

theorem graph_holds_beliefs:
  assumes "reachable env told e"
  shows "set (map edge_atom (EdgesAll (e_graph e))) \<subseteq> {a. believed_as PolarityPositive a e} \<inter> indexed (e_semantic e) \<and>
    (settled env told e \<longrightarrow>
       set (map edge_atom (EdgesAll (e_graph e))) = {a. believed_as PolarityPositive a e \<and> \<not> resolvedFalse a e} \<and>
       indexed (e_semantic e) = set (map edge_atom (EdgesAll (e_graph e))))"
proof -
  have ok: "engine_ok e" by (rule reachable_ok [OF assms])
  have "set (map edge_atom (EdgesAll (e_graph e))) = {a. believed_as PolarityPositive a e \<and> \<not> resolvedFalse a e} \<and>
      indexed (e_semantic e) = set (map edge_atom (EdgesAll (e_graph e)))" if "settled env told e"
    using synced_graph [OF ok] settled_ok [OF that] by blast
  then show ?thesis
    using reachable_drawn [OF assms] unfolding edge_atoms [OF ok] drawn_def believed_as_iff [OF ok] by blast
qed

theorem graph_holds_beliefs_witness:
  "indexed (e_semantic ex_told) = {mk_atom ''a'' ''isa'' ''b''} \<and>
   believed_as PolarityPositive (mk_atom ''a'' ''isa'' ''b'') ex_told"
proof -
  have "set (map edge_atom (EdgesAll (e_graph ex_told))) = {mk_atom ''a'' ''isa'' ''b''}"
    using edge_atoms [of ex_told] reachable_ok [OF ex_told_reachable] ex_told_fields(2)
    by (auto simp: atom_triple_def)
  then show ?thesis
    using graph_holds_beliefs [OF ex_told_reachable] ex_told_settled by blast
qed

text \<open>
  C3: The engine never invents a fact. If the client ingests no belief whose source carries the mark
  of derived beliefs, every edge of the graph of a settled engine follows, by the rules of the engine, from the positive
  beliefs that are not derived, with no step through an atom that is resolved to false.
\<close>

theorem facts_follow:
  assumes "settled env (\<lambda>b. \<not> has_prefix (bSource b) derivedSourcePrefix) e"
    and "edge \<in> set (EdgesAll (e_graph e))"
  shows "derivable (e_rules e) (base_beliefs e) (\<lambda>a. resolvedFalse a e) (edge_atom edge)"
proof -
  have ok: "engine_ok e"
    using settled_ok [OF assms(1)] by simp
  have "edge_atom edge \<in> set (map edge_atom (EdgesAll (e_graph e)))"
    using assms(2) by simp
  then show ?thesis
    using settled_justified [OF assms(1)] unfolding edge_atoms [OF ok] by (simp add: justified_def)
qed

theorem facts_follow_witness:
  "derivable [] (base_beliefs ex_told) (\<lambda>_. False) (mk_atom ''a'' ''isa'' ''b'')"
proof -
  have "mk_edge ''a'' ''isa'' ''b'' \<in> set (EdgesAll (e_graph ex_told))"
    using reachable_ok [OF ex_told_reachable] ex_told_fields(2)
    by (simp add: mem_EdgesAll engine_okD facts_of_def edge_triple_def)
  from facts_follow [OF ex_told_settled this] show ?thesis
    by (simp add: edge_atom_def ex_told_fields)
qed

text \<open>
  C7: The proofs that \<open>Evaluate\<close> returns can be checked. Every derivation in one is an instance of a
  rule of the engine, named by the derivation, whose premises are edges of the graph and whose
  conclusion is the atom in question.
\<close>

theorem proofs_check:
  assumes "reachable env told e"
    and "d \<in> set (pf_derivations (snd (fst (Evaluate a e))))"
  shows "\<exists>r \<in> set (e_rules e). rName r = dpRule d \<and>
    (\<exists>prems t. rule_instance r (edge_pats (EdgesAll (e_graph e))) prems t \<and>
       pat_atom t = a \<and> map pat_atom prems = dpPremises d)"
proof -
  have ok: "engine_ok e"
    using reachable_ok [OF assms(1)] by simp
  have "d \<in> set (derivationsFor a (e_derivations e))"
    using assms(2) by (auto simp: Evaluate_result_def Let_def split: option.splits if_splits)
  then have "rule_proof (e_rules e) (facts_of e) a d"
    using reachable_explained [OF assms(1)] by (auto simp: explained_def mem_derivationsFor)
  then show ?thesis
    unfolding rule_proof_def edge_pats_facts [OF ok] .
qed

theorem proofs_check_witness:
  "\<exists>r \<in> set (e_rules ex_derived). rName r = ''inverse'' \<and>
    (\<exists>prems t. rule_instance r (edge_pats (EdgesAll (e_graph ex_derived))) prems t \<and>
       pat_atom t = mk_atom ''b'' ''has'' ''a'' \<and> map pat_atom prems = [mk_atom ''a'' ''isa'' ''b''])"
proof -
  let ?d = "\<lparr>dpRule = ''inverse'', dpPremises = [mk_atom ''a'' ''isa'' ''b'']\<rparr>"
  have "?d \<in> set (pf_derivations (snd (fst (Evaluate (mk_atom ''b'' ''has'' ''a'') ex_derived))))"
    using ex_derived_verdict by (simp add: Evaluate_result_def Let_def believed_as_def ex_derived_proofs(2))
  from proofs_check [OF ex_derived_reachable this] show ?thesis by simp
qed

text \<open>
  C6: The verdicts of \<open>Evaluate\<close>. A resolution decides; without one, the polarities of the beliefs on
  the atom do, and the verdict is unknown exactly if there are none. Without a resolution an edge
  of the graph is true or both, and in a settled engine what is true or both is an edge; evaluation
  changes nothing but the metrics.
\<close>

theorem Evaluate_verdict:
  assumes "reachable env told e"
  shows "fst (fst (Evaluate a e)) =
      (case Resolution_of a (e_beliefs e) of
         Some r \<Rightarrow> (if rPolarity r = PolarityPositive then TruthTrue else TruthFalse)
       | None \<Rightarrow>
           (case (believed_as PolarityPositive a e, believed_as PolarityNegative a e) of
              (True, True) \<Rightarrow> TruthBoth | (True, False) \<Rightarrow> TruthTrue
            | (False, True) \<Rightarrow> TruthFalse | (False, False) \<Rightarrow> TruthUnknown)) \<and>
    (fst (fst (Evaluate a e)) = TruthUnknown \<longleftrightarrow>
       Resolution_of a (e_beliefs e) = None \<and> Snapshot a (e_beliefs e) = []) \<and>
    (Resolution_of a (e_beliefs e) = None \<longrightarrow>
       (a \<in> set (map edge_atom (EdgesAll (e_graph e))) \<longrightarrow> fst (fst (Evaluate a e)) \<in> {TruthTrue, TruthBoth}) \<and>
       (settled env told e \<longrightarrow>
          (a \<in> set (map edge_atom (EdgesAll (e_graph e))) \<longleftrightarrow> fst (fst (Evaluate a e)) \<in> {TruthTrue, TruthBoth}))) \<and>
    core (snd (Evaluate a e)) = core e"
    (is "?verdict \<and> ?unknown \<and> ?edges \<and> ?same")
proof (intro conjI)
  have ok: "engine_ok e" by (rule reachable_ok [OF assms])
  show v: ?verdict
    by (simp add: Evaluate_verdict_cases)
  have "bPolarity b = PolarityPositive \<or> bPolarity b = PolarityNegative" if "b \<in> set (Snapshot a (e_beliefs e))" for b
    using that valid_polarity store_beliefs_valid engine_okD(2) [OF ok] by (auto simp: mem_Snapshot)
  then have "Snapshot a (e_beliefs e) = [] \<longleftrightarrow>
      \<not> believed_as PolarityPositive a e \<and> \<not> believed_as PolarityNegative a e"
    unfolding believed_as_def by (cases "Snapshot a (e_beliefs e)") auto
  then show ?unknown
    unfolding v by (simp split: option.split bool.split)
  have "a \<in> set (map edge_atom (EdgesAll (e_graph e))) \<Longrightarrow> believed_as PolarityPositive a e"
    using reachable_drawn [OF assms] unfolding edge_atoms [OF ok] drawn_def believed_as_iff [OF ok] by blast
  moreover have "settled env told e \<Longrightarrow>
      a \<in> set (map edge_atom (EdgesAll (e_graph e))) \<longleftrightarrow> believed_as PolarityPositive a e \<and> \<not> resolvedFalse a e"
    using synced_graph(1) [OF ok] settled_ok by blast
  ultimately show ?edges
    unfolding v by (auto simp: resolvedFalse_def split: bool.split)
qed simp

theorem Evaluate_verdict_witness:
  "fst (fst (Evaluate (mk_atom ''b'' ''isa'' ''a'') ex_told)) = TruthUnknown \<and>
   fst (fst (Evaluate (mk_atom ''a'' ''isa'' ''b'') ex_told)) = TruthTrue"
proof -
  have ok: "engine_ok ex_told"
    using reachable_ok [OF ex_told_reachable] by simp
  have "Resolution_of x (e_beliefs ex_told) = Resolution_of x (e_beliefs ex_start)" for x
    using core_abs(7) [OF ex_told_core] by (simp add: engine_simps Resolution_of_Add engine_okD ex_start_fields)
  then have "Resolution_of x (e_beliefs ex_told) = None" for x
    by (simp add: ex_start_fields)
  moreover have "believed_as pol x ex_told \<longleftrightarrow> x = mk_atom ''a'' ''isa'' ''b'' \<and> pol = PolarityPositive" for pol x
    using ok by (auto simp: believed_as_iff ex_told_fields)
  ultimately show ?thesis
    using Evaluate_verdict [OF ex_told_reachable, of "mk_atom ''b'' ''isa'' ''a''", THEN conjunct1]
      Evaluate_verdict [OF ex_told_reachable, of "mk_atom ''a'' ''isa'' ''b''", THEN conjunct1]
    by simp
qed

text \<open>
  C5: A resolution that is accepted rebuilds the engine around it. The beliefs that are not derived,
  the rules and the other resolutions stay; every derived belief left is the conclusion of a rule of
  the engine; the graph follows the new resolution, and holds nothing that does not follow from the
  beliefs that are not derived, whatever their sources were called.
\<close>

theorem Resolve_rebuilds:
  assumes "reachable env told e" and "Resolve env r e = (None, e')"
  shows "base_beliefs e' = base_beliefs e \<and> e_rules e' = e_rules e \<and>
    (\<forall>a. Resolution_of a (e_beliefs e') = (if a = rAtom r then Some r else Resolution_of a (e_beliefs e))) \<and>
    (\<forall>b \<in> beliefs_of e'. b \<in> base_beliefs e \<or> (\<exists>ru \<in> set (e_rules e). b = rule_belief ru (bAtom b))) \<and>
    (\<forall>a \<in> set (map edge_atom (EdgesAll (e_graph e'))).
       derivable (e_rules e) (base_beliefs e) (\<lambda>a. resolvedFalse a e') a)"
proof (intro conjI)
  have ok: "engine_ok e"
    using reachable_ok [OF assms(1)] by simp
  then have ok1: "engine_ok (set_resolution r e)" by (rule engine_ok_set_resolution)
  have e': "fst (Resolve env r e) = None" "snd (Resolve env r e) = e'"
    using assms(2) by simp_all
  then have core: "core e' = core (recompute (set_resolution r e))"
    using Resolve_core [of env r e] by simp
  note c = core_abs [OF core] and rec = recompute_fields [OF ok1]
  have accepted: "valid_resolution r"
    using e'(1) by (simp add: Resolve_result SetResolution_result valid_resolution_def split: option.splits)
  show base: "base_beliefs e' = base_beliefs e" and rules: "e_rules e' = e_rules e"
    using c(3,6) rec(2,8) by simp_all
  show "\<forall>a. Resolution_of a (e_beliefs e') = (if a = rAtom r then Some r else Resolution_of a (e_beliefs e))"
    using c(7) rec(6) accepted by (simp add: SetResolution_lookup)
  show "\<forall>b \<in> beliefs_of e'. b \<in> base_beliefs e \<or> (\<exists>ru \<in> set (e_rules e). b = rule_belief ru (bAtom b))"
    using c(1) recompute_beliefs [OF ok1] by (simp add: rule_made_def)
  have "engine_ok e'" and "justified e'"
    using engine_ok_Resolve [OF ok, of env r] justified_cong [OF core] recompute_justified(1) [OF ok1] e'(2)
    by simp_all
  then show "\<forall>a \<in> set (map edge_atom (EdgesAll (e_graph e'))).
      derivable (e_rules e) (base_beliefs e) (\<lambda>a. resolvedFalse a e') a"
    unfolding edge_atoms [OF \<open>engine_ok e'\<close>] by (simp add: justified_def base rules)
qed

definition ex_denial :: Resolution where
  "ex_denial = \<lparr>rAtom = mk_atom ''a'' ''isa'' ''b'', rPolarity = PolarityNegative, rSource = ''judge'', rUnixNano = 9\<rparr>"

theorem Resolve_rebuilds_witness:
  "base_beliefs (snd (Resolve ex_env ex_denial ex_told)) = {ex_fact ''a'' ''b''} \<and>
   Resolution_of (mk_atom ''a'' ''isa'' ''b'') (e_beliefs (snd (Resolve ex_env ex_denial ex_told))) = Some ex_denial"
proof -
  have "fst (Resolve ex_env ex_denial ex_told) = None"
    by (simp add: Resolve_result SetResolution_result check_fields_def ex_denial_def log_write_def ex_told_log)
  then have "Resolve ex_env ex_denial ex_told = (None, snd (Resolve ex_env ex_denial ex_told))"
    by (simp add: prod_eq_iff)
  from Resolve_rebuilds [OF ex_told_reachable this] ex_plain_source show ?thesis
    by (auto simp: ex_denial_def base_beliefs_def [of ex_told] ex_told_fields)
qed

text \<open>
  C2: What a client can reach is well formed. Every belief and every resolution has its fields and a
  polarity, a resolution is kept under its own atom, every edge has its three names and occurs once,
  the counters are the numbers of beliefs and of edges, every indexed vector is one of the concept
  space with no bits beyond its dimensions, and the trace log keeps to its limit.
\<close>

theorem reachable_well_formed:
  assumes "reachable env told e"
  shows "(\<forall>b \<in> beliefs_of e. valid_belief b) \<and> Count (e_beliefs e) = int (card (beliefs_of e)) \<and>
    (\<forall>a r. Resolution_of a (e_beliefs e) = Some r \<longrightarrow> rAtom r = a \<and> valid_resolution r) \<and>
    (\<forall>x \<in> set (EdgesAll (e_graph e)). eFrom x \<noteq> [] \<and> ePred x \<noteq> [] \<and> eTo x \<noteq> []) \<and>
    distinct (EdgesAll (e_graph e)) \<and> FactsCount (e_graph e) = int (length (EdgesAll (e_graph e))) \<and>
    (\<forall>(a, v) \<in> set (si_tuples (e_semantic e)). vec_ok v \<and> v_bits v = sp_dims (si_space (e_semantic e))) \<and>
    int (length (m_traceLog (e_metrics e))) \<le> m_traceLogMax (e_metrics e)"
proof -
  have ok: "engine_ok e" using reachable_ok [OF assms] by simp
  note d = engine_okD [OF ok]
  have "Count (e_beliefs e) = int (card (beliefs_of e))"
    using d(1) by (simp add: store_ok_def Count_def beliefs_of_def)
  moreover have "eFrom x \<noteq> [] \<and> ePred x \<noteq> [] \<and> eTo x \<noteq> []" if "x \<in> set (EdgesAll (e_graph e))" for x
    using that d(4) by (auto simp: mem_EdgesAll graph_facts_def graph_ok_def edge_triple_def)
  moreover have "vec_ok v \<and> v_bits v = sp_dims (si_space (e_semantic e))" if "(a, v) \<in> set (si_tuples (e_semantic e))" for a v
    using that d(5) atom_vector_ok [OF index_dims_pos [OF d(5)]] by (auto simp: index_ok_def)
  moreover have "int (length (m_traceLog (e_metrics e))) \<le> m_traceLogMax (e_metrics e)"
    using d(7) by (simp add: trace_ok_def)
  ultimately show ?thesis
    using store_beliefs_valid [OF d(2)] Resolution_of_valid [OF d(3)] distinct_EdgesAll [OF d(4)] length_EdgesAll [OF d(4)]
    by (auto simp: beliefs_of_def)
qed

theorem reachable_well_formed_witness: "Count (e_beliefs ex_told) = 1"
  using reachable_well_formed [OF ex_told_reachable] by (simp add: ex_told_fields)

end
