(* ===== verification/Engine_Limits.thy ===== *)
theory Engine_Limits
  imports Engine_Props
begin

text \<open>
  The limits of the engine: how many beliefs an application of rules may add, what is complete below
  the limit and what is lost at it, and what an operation leaves behind when the log refuses a record.
\<close>

section \<open>An engine whose log refuses every record\<close>

definition ex_fail_env :: "(unit, unit) env" where
  "ex_fail_env = ex_env\<lparr>log_Append := (\<lambda>_ l. (Some (ErrExternal ''disk full''), l))\<rparr>"

definition ex_logged :: "(unit, unit) Engine" where
  "ex_logged = ex_start\<lparr>e_log := Some ()\<rparr>"

lemma ex_logged_settled: "settled env told ex_logged"
  by (rule settled_new [where opts = "[WithLog (Some ())]" and clock = "\<lambda>_. 0"])
    (simp_all add: New_def WithLog_def ex_logged_def ex_start_def)

lemma ex_logged_core: "core ex_logged = core ex_start"
  by (simp add: ex_logged_def core_def)

lemma ex_fail_write: "fst (log_write ex_fail_env ty p (Some l)) \<noteq> None"
  by (simp add: log_write_def ex_fail_env_def split: sum.split)

text \<open>The rule and two facts are told, the log fails each time, and no rule is applied.\<close>

definition ex_unlogged :: "(unit, unit) Engine" where
  "ex_unlogged =
     snd (Ingest ex_fail_env (ex_fact ''c'' ''d'')
       (snd (Ingest ex_fail_env (ex_fact ''a'' ''b'') (snd (AddRule ex_fail_env ex_inverse ex_logged)))))"

lemma failed_Ingest:
  assumes "valid_belief b" and "fst (log_write env EventFactAdded (encodeBelief b) (e_log e)) = Some err"
  shows "fst (Ingest env b e) = Inl err" "core (snd (Ingest env b e)) = core (snd (ingestNoLog b e))"
proof -
  obtain c where "fst (Add b (e_beliefs e)) = Inr c"
    using Add_Inr_iff assms(1) by blast
  then show "fst (Ingest env b e) = Inl err"
    using assms(2) by (simp add: Ingest_result)
  then show "core (snd (Ingest env b e)) = core (snd (ingestNoLog b e))"
    by (simp add: Ingest_core)
qed

lemma ex_fail_keeps_log: "snd (log_write ex_fail_env ty p (Some ())) = Some ()"
  by (simp add: log_write_def ex_fail_env_def split: sum.split)

lemma ex_fail_Ingest:
  assumes "engine_ok e" and "e_log e = Some ()" and "x \<noteq> []" and "y \<noteq> []"
  shows "core (snd (Ingest ex_fail_env (ex_fact x y) e)) = core (snd (ingestNoLog (ex_fact x y) e))"
    "e_log (snd (Ingest ex_fail_env (ex_fact x y) e)) = Some ()"
proof -
  obtain err where "fst (log_write ex_fail_env EventFactAdded (encodeBelief (ex_fact x y)) (e_log e)) = Some err"
    using ex_fail_write assms(2) by auto
  then show "core (snd (Ingest ex_fail_env (ex_fact x y) e)) = core (snd (ingestNoLog (ex_fact x y) e))"
    using failed_Ingest(2) ex_fact_valid assms by blast
  obtain c where "fst (Add (ex_fact x y) (e_beliefs e)) = Inr c"
    using Add_Inr_iff ex_fact_valid assms by blast
  then show "e_log (snd (Ingest ex_fail_env (ex_fact x y) e)) = Some ()"
    using Ingest_log [OF assms(1), of "ex_fact x y" c ex_fail_env] by (simp add: assms(2) ex_fail_keeps_log)
qed

lemma ex_unlogged_settled:
  "settled ex_fail_env (\<lambda>b. \<not> has_prefix (bSource b) derivedSourcePrefix) ex_unlogged"
  unfolding ex_unlogged_def
  by (intro settled_keep [OF settled_keep [OF settled_keep [OF ex_logged_settled step_add_rule] step_ingest] step_ingest]
      ex_plain_source)

lemma ex_unlogged_log: "e_log ex_unlogged = Some ()"
proof -
  have "engine_ok (snd (AddRule ex_fail_env ex_inverse ex_logged))"
    using settled_ok [OF settled_keep [OF ex_logged_settled step_add_rule], of ex_fail_env ex_inverse] by simp
  moreover have "e_log (snd (AddRule ex_fail_env ex_inverse ex_logged)) = Some ()"
    using ex_fail_write [of EventRuleAdded "encodeRule ex_inverse" "()"]
      ex_fail_keeps_log [of EventRuleAdded "encodeRule ex_inverse"]
    by (auto simp: AddRule_def log_event_write ex_logged_def ex_inverse_def split: option.split)
  ultimately show ?thesis
    by (simp add: ex_unlogged_def ex_fail_Ingest engine_ok_Ingest)
qed

lemma ex_unlogged_core:
  "core ex_unlogged =
     core (snd (ingestNoLog (ex_fact ''c'' ''d'') (snd (ingestNoLog (ex_fact ''a'' ''b'') (add_rule ex_inverse ex_start)))))"
proof -
  define e1 where "e1 = snd (AddRule ex_fail_env ex_inverse ex_logged)"
  define e2 where "e2 = snd (Ingest ex_fail_env (ex_fact ''a'' ''b'') e1)"
  have rule: "valid_rule ex_inverse"
    by (simp add: valid_rule_def ex_inverse_def)
  obtain err where "fst (AddRule ex_fail_env ex_inverse ex_logged) = Some err"
    using ex_fail_write [of EventRuleAdded "encodeRule ex_inverse" "()"] rule
    by (auto simp: AddRule_result ex_logged_def valid_rule_def)
  then have "core e1 = core (add_rule ex_inverse ex_logged)"
    using rule by (simp add: e1_def AddRule_core)
  moreover have "core (add_rule ex_inverse ex_logged) = core (add_rule ex_inverse ex_start)"
    by (simp add: add_rule_def ex_logged_def core_def)
  ultimately have c1: "core e1 = core (add_rule ex_inverse ex_start)" by simp
  have ok1: "engine_ok e1" "e_log e1 = Some ()"
    using settled_ok [OF settled_keep [OF ex_logged_settled step_add_rule], of ex_fail_env ex_inverse] rule
      ex_fail_write [of EventRuleAdded "encodeRule ex_inverse" "()"] ex_fail_keeps_log [of EventRuleAdded "encodeRule ex_inverse"]
    by (auto simp: e1_def AddRule_def log_event_write ex_logged_def valid_rule_def split: option.split)
  note c2 = ex_fail_Ingest [OF ok1, of "''a''" "''b''", folded e2_def]
  have ok2: "engine_ok e2"
    using engine_ok_Ingest [OF ok1(1)] by (simp add: e2_def)
  have "core ex_unlogged = core (snd (ingestNoLog (ex_fact ''c'' ''d'') e2))"
    using ex_fail_Ingest(1) [OF ok2, of "''c''" "''d''"] c2 by (simp add: ex_unlogged_def e1_def e2_def)
  also have "\<dots> = core (snd (ingestNoLog (ex_fact ''c'' ''d'') (snd (ingestNoLog (ex_fact ''a'' ''b'') e1))))"
    using c2 by (intro core_ingest) simp
  also have "\<dots> = core (snd (ingestNoLog (ex_fact ''c'' ''d'') (snd (ingestNoLog (ex_fact ''a'' ''b'') (add_rule ex_inverse ex_start)))))"
    using c1 by (intro core_ingest)
  finally show ?thesis .
qed

lemma ex_unlogged_fields:
  "engine_ok ex_unlogged" "synced ex_unlogged" "beliefs_of ex_unlogged = {ex_fact ''a'' ''b'', ex_fact ''c'' ''d''}"
  "facts_of ex_unlogged = {(''a'', ''isa'', ''b''), (''c'', ''isa'', ''d'')}" "resolvedFalse a ex_unlogged = False"
  "e_rules ex_unlogged = [ex_inverse]"
proof -
  have ok: "engine_ok (add_rule ex_inverse ex_start)" "engine_ok (snd (ingestNoLog (ex_fact ''a'' ''b'') (add_rule ex_inverse ex_start)))"
    using ex_start_fields by (simp_all add: engine_ok_ingest)
  show "engine_ok ex_unlogged" "synced ex_unlogged"
    using settled_ok [OF ex_unlogged_settled] by simp_all
  show "beliefs_of ex_unlogged = {ex_fact ''a'' ''b'', ex_fact ''c'' ''d''}"
    "facts_of ex_unlogged = {(''a'', ''isa'', ''b''), (''c'', ''isa'', ''d'')}" "resolvedFalse a ex_unlogged = False"
    "e_rules ex_unlogged = [ex_inverse]"
    using core_abs(1,2,4,6) [OF ex_unlogged_core] ok ex_fact_valid ex_start_fields
    by (auto simp: beliefs_of_ingest facts_of_ingest)
qed

definition ex_stalled :: "(unit, unit) Engine" where
  "ex_stalled = ApplyRules 1 ex_unlogged"

lemma ex_stall_derivations:
  "EvaluateRuleDerivations ex_inverse [mk_edge ''a'' ''isa'' ''b'', mk_edge ''c'' ''isa'' ''d''] 1 = [ex_derivation]"
  "EvaluateRuleDerivations ex_inverse
     [mk_edge ''a'' ''isa'' ''b'', mk_edge ''b'' ''has'' ''a'', mk_edge ''c'' ''isa'' ''d''] 1 = [ex_derivation]"
  by code_simp+

lemma ex_stalled_fields:
  "settled ex_fail_env (\<lambda>b. \<not> has_prefix (bSource b) derivedSourcePrefix) ex_stalled"
  "EdgesAll (e_graph ex_stalled) =
     [mk_edge ''a'' ''isa'' ''b'', mk_edge ''b'' ''has'' ''a'', mk_edge ''c'' ''isa'' ''d'']"
  "rule_belief ex_inverse (pat_atom (dThen ex_derivation)) \<in> beliefs_of ex_stalled" "e_rules ex_stalled = [ex_inverse]"
proof -
  show "settled ex_fail_env (\<lambda>b. \<not> has_prefix (bSource b) derivedSourcePrefix) ex_stalled"
    unfolding ex_stalled_def by (rule settled_keep [OF ex_unlogged_settled step_apply])
  have sorted: "sorted_list_of_set {(''a'', ''isa'', ''b''), (''c'', ''isa'', ''d'')} =
      [(''a'', ''isa'', ''b''), (''c'', ''isa'', ''d'')]"
    "sorted_list_of_set {(''b'', ''has'', ''a''), (''a'', ''isa'', ''b''), (''c'', ''isa'', ''d'')} =
      [(''a'', ''isa'', ''b''), (''b'', ''has'', ''a''), (''c'', ''isa'', ''d'')]"
    by code_simp+
  have edges: "EdgesAll (e_graph ex_unlogged) = [mk_edge ''a'' ''isa'' ''b'', mk_edge ''c'' ''isa'' ''d'']"
    using facts_edges [OF ex_unlogged_fields(1,4)] by (simp add: sorted triple_edge_def)
  have "\<not> known ex_unlogged ex_inverse ex_derivation"
    by (simp add: known_def ex_unlogged_fields valid_pat_def ex_rule_simps rule_belief_def ex_fact_def)
  then have st: "ex_stalled = derive_step ex_inverse ex_derivation ex_unlogged"
    by (simp add: ex_stalled_def ApplyRules_def apply_loop.simps [of 1 ex_unlogged] apply_round_def Let_def edges
        ex_unlogged_fields EvaluateRuleDerivationsIndexed_eq ex_stall_derivations apply_derivations_known)
  show "e_rules ex_stalled = [ex_inverse]"
    by (simp add: st ex_unlogged_fields)
  show "rule_belief ex_inverse (pat_atom (dThen ex_derivation)) \<in> beliefs_of ex_stalled"
    by (simp add: st derive_beliefs ex_unlogged_fields valid_pat_def ex_rule_simps)
  have "facts_of ex_stalled = {(''b'', ''has'', ''a''), (''a'', ''isa'', ''b''), (''c'', ''isa'', ''d'')}"
    by (simp add: st derive_facts ex_unlogged_fields valid_pat_def ex_rule_simps)
  from facts_edges [OF _ this] show "EdgesAll (e_graph ex_stalled) =
     [mk_edge ''a'' ''isa'' ''b'', mk_edge ''b'' ''has'' ''a'', mk_edge ''c'' ''isa'' ''d'']"
    using engine_ok_derive [OF ex_unlogged_fields(1)] by (simp add: st sorted triple_edge_def)
qed

section \<open>What is complete below the limit\<close>

text \<open>
  The evaluator reaches every instance of the rule over these edges within the limit \<open>n\<close>: the
  conclusion has no variables of its own, no string holds the separator of the keys by which instances
  are told apart, and there are fewer of them than \<open>n\<close>.
\<close>

definition within_limit :: "Rule \<Rightarrow> Edge list \<Rightarrow> int \<Rightarrow> bool" where
  "within_limit r edges n \<longleftrightarrow>
     safe_rule r \<and> plain_pat (rThen r) \<and> (\<forall>q \<in> edge_pats edges. plain_pat q) \<and>
     int (length (EvaluateRuleDerivations r edges n)) < n"

lemma ApplyRules_closed:
  assumes "engine_ok e" and "synced e" and "0 < n"
  defines "e' \<equiv> ApplyRules n e"
  defines "left \<equiv> n - (count_of e' - count_of e)"
  assumes "0 < left" and "r \<in> set (e_rules e)" and "within_limit r (EdgesAll (e_graph e')) left"
    and "rule_instance r (edge_pats (EdgesAll (e_graph e'))) prems t" and "valid_pat t"
  shows "rule_belief r (pat_atom t) \<in> beliefs_of e'"
    "\<not> resolvedFalse (pat_atom t) e' \<Longrightarrow> pat_triple t \<in> facts_of e'"
proof -
  note c = ApplyRules_counted [OF assms(1-3), folded e'_def, folded left_def]
  have "\<lparr>dThen = t, dPremises = prems\<rparr> \<in> set (EvaluateRuleDerivations r (EdgesAll (e_graph e')) left)"
    using assms(8,9) by (intro derivations_complete) (simp_all add: within_limit_def)
  moreover have "all_known e' (EdgesAll (e_graph e')) left"
    using c(3) assms(6) by (simp add: left_def)
  ultimately show b: "rule_belief r (pat_atom t) \<in> beliefs_of e'"
    using assms(1,7,10) by (force simp: all_known_def known_def e'_def)
  show "pat_triple t \<in> facts_of e'" if "\<not> resolvedFalse (pat_atom t) e'"
    using that b synced_ApplyRules [OF assms(1,2), of n, folded e'_def]
    by (force simp: synced_def held_facts_def)
qed

section \<open>Properties\<close>

text \<open>
  C4: On a settled engine \<open>ApplyRules\<close> adds at most as many beliefs as its limit says, and while it adds
  fewer it ends in a fixpoint: another run with what is left of the limit adds no belief and no edge.
  There every instance of a rule over the edges that remain has its conclusion believed and, unless it
  is resolved to false, drawn, provided the conclusion of the rule has variables of its premises only,
  no string holds the separator, and the instances of the rule fit in what is left of the limit.
\<close>

theorem ApplyRules_complete:
  assumes "settled env told e" and "0 < n"
  defines "e' \<equiv> ApplyRules n e"
  defines "left \<equiv> n - (Count (e_beliefs e') - Count (e_beliefs e))"
  shows "0 \<le> left \<and>
    (0 < left \<longrightarrow> beliefs_of (ApplyRules left e') = beliefs_of e' \<and>
       EdgesAll (e_graph (ApplyRules left e')) = EdgesAll (e_graph e')) \<and>
    (0 < left \<and> r \<in> set (e_rules e) \<and> within_limit r (EdgesAll (e_graph e')) left \<and>
     rule_instance r (edge_pats (EdgesAll (e_graph e'))) prems t \<and> valid_pat t \<longrightarrow>
       believed_as PolarityPositive (pat_atom t) e' \<and>
       (resolvedFalse (pat_atom t) e' \<or> pat_atom t \<in> set (map edge_atom (EdgesAll (e_graph e')))))"
proof -
  have ok: "engine_ok e" "synced e"
    using settled_ok [OF assms(1)] by simp_all
  have ok': "engine_ok e'" "synced e'"
    using ok by (simp_all add: e'_def engine_ok_ApplyRules synced_ApplyRules)
  have left: "left = n - (count_of e' - count_of e)"
    using ok(1) ok'(1) by (simp add: left_def count_of_Count)
  note c = ApplyRules_counted [OF ok assms(2), folded e'_def, folded left]
  note closed = ApplyRules_closed [OF ok assms(2), of r prems t, folded e'_def, folded left]
  have "believed_as PolarityPositive (pat_atom t) e'" if "rule_belief r (pat_atom t) \<in> beliefs_of e'"
    unfolding believed_as_iff [OF ok'(1)] by (rule bexI [OF _ that]) simp
  moreover have "all_known e' (EdgesAll (e_graph e')) left" if "0 < left"
    using c(3) that left by simp
  ultimately show ?thesis
    using c(2) ApplyRules_stall [OF ok'] closed unfolding edge_atoms [OF ok'(1)] by auto
qed

theorem ApplyRules_complete_witness:
  "believed_as PolarityPositive (mk_atom ''b'' ''has'' ''a'') (ApplyRules 1000 ex_derived)"
proof -
  have ok: "engine_ok ex_derived" "synced ex_derived"
    using settled_ok [OF ex_derived_settled] by simp_all
  have "all_known ex_derived (EdgesAll (e_graph ex_derived)) 1000"
    by (simp add: all_known_def ex_derived_fields ex_derivations_two known_def ex_rule_simps)
  from ApplyRules_stall [OF ok this] have same:
    "beliefs_of (ApplyRules 1000 ex_derived) = beliefs_of ex_derived"
    "EdgesAll (e_graph (ApplyRules 1000 ex_derived)) = [mk_edge ''a'' ''isa'' ''b'', mk_edge ''b'' ''has'' ''a'']"
    by (simp_all add: ex_derived_fields)
  have count: "Count (e_beliefs (ApplyRules 1000 ex_derived)) = Count (e_beliefs ex_derived)"
    using same(1) ok(1) by (simp add: count_of_Count engine_ok_ApplyRules count_of_def)
  have inst: "rule_instance ex_inverse (edge_pats [mk_edge ''a'' ''isa'' ''b'', mk_edge ''b'' ''has'' ''a''])
      [mk_pat ''a'' ''isa'' ''b''] (mk_pat ''b'' ''has'' ''a'')"
    unfolding rule_instance_def
    by (rule exI [of _ "[''?x'' \<mapsto> ''a'', ''?y'' \<mapsto> ''b'']"])
      (simp add: ex_inverse_def Apply_def apply_field_def isVar_def edge_pats_def edge_pat_def)
  have plain: "safe_rule ex_inverse" "plain_pat (rThen ex_inverse)"
    "\<forall>q \<in> edge_pats [mk_edge ''a'' ''isa'' ''b'', mk_edge ''b'' ''has'' ''a'']. plain_pat q"
    by code_simp+
  show ?thesis
    using ApplyRules_complete [OF ex_derived_settled, of 1000 ex_inverse "[mk_pat ''a'' ''isa'' ''b'']"
        "mk_pat ''b'' ''has'' ''a''"] inst plain
    by (simp add: same(2) count ex_derived_fields ex_derivations_two valid_pat_def ex_rule_simps within_limit_def)
qed

text \<open>
  C19: The limit also stalls, because it counts the derivations that are looked at, the believed ones
  among them. If the first derivations of each rule, as many as the limit, have their conclusions
  believed already, \<open>ApplyRules\<close> with this limit adds nothing to a settled engine, however often it is
  called and whatever other instances of the rules remain.
\<close>

theorem ApplyRules_stalls:
  assumes "settled env told e"
    and "\<forall>r \<in> set (e_rules e). \<forall>d \<in> set (EvaluateRuleDerivations r (EdgesAll (e_graph e)) n).
      rule_belief r (pat_atom (dThen d)) \<in> beliefs_of e"
  shows "beliefs_of ((ApplyRules n ^^ k) e) = beliefs_of e \<and>
    EdgesAll (e_graph ((ApplyRules n ^^ k) e)) = EdgesAll (e_graph e)"
proof -
  have "engine_ok ((ApplyRules n ^^ k) e) \<and> synced ((ApplyRules n ^^ k) e) \<and>
      e_rules ((ApplyRules n ^^ k) e) = e_rules e \<and> beliefs_of ((ApplyRules n ^^ k) e) = beliefs_of e \<and>
      EdgesAll (e_graph ((ApplyRules n ^^ k) e)) = EdgesAll (e_graph e)"
  proof (induction k)
    case 0
    then show ?case using settled_ok [OF assms(1)] by simp
  next
    case (Suc k)
    then have "all_known ((ApplyRules n ^^ k) e) (EdgesAll (e_graph ((ApplyRules n ^^ k) e))) n"
      using assms(2) by (auto simp: all_known_def known_def)
    with Suc show ?case
      using ApplyRules_stall [of "(ApplyRules n ^^ k) e" n] by (simp add: engine_ok_ApplyRules synced_ApplyRules)
  qed
  then show ?thesis by blast
qed

theorem ApplyRules_stalls_witness:
  "rule_instance ex_inverse (edge_pats (EdgesAll (e_graph ex_stalled))) [mk_pat ''c'' ''isa'' ''d''] (mk_pat ''d'' ''has'' ''c'') \<and>
   (\<forall>k. mk_edge ''d'' ''has'' ''c'' \<notin> set (EdgesAll (e_graph ((ApplyRules 1 ^^ k) ex_stalled))))"
proof
  show "\<forall>k. mk_edge ''d'' ''has'' ''c'' \<notin> set (EdgesAll (e_graph ((ApplyRules 1 ^^ k) ex_stalled)))"
  proof
    fix k
    have "EdgesAll (e_graph ((ApplyRules 1 ^^ k) ex_stalled)) = EdgesAll (e_graph ex_stalled)"
      using ApplyRules_stalls [OF ex_stalled_fields(1), of 1 k] ex_stalled_fields
      by (simp add: ex_stall_derivations)
    then show "mk_edge ''d'' ''has'' ''c'' \<notin> set (EdgesAll (e_graph ((ApplyRules 1 ^^ k) ex_stalled)))"
      by (simp add: ex_stalled_fields)
  qed
  show "rule_instance ex_inverse (edge_pats (EdgesAll (e_graph ex_stalled))) [mk_pat ''c'' ''isa'' ''d''] (mk_pat ''d'' ''has'' ''c'')"
    unfolding rule_instance_def
    by (rule exI [of _ "[''?x'' \<mapsto> ''c'', ''?y'' \<mapsto> ''d'']"])
      (simp add: ex_inverse_def Apply_def apply_field_def isVar_def edge_pats_def edge_pat_def ex_stalled_fields)
qed

text \<open>
  C20: An operation whose record the log refuses reports the error and is not undone. The belief stays
  in the store and the rule in the list; the resolution stays too, but the graph is not rebuilt, so an
  atom resolved to false can remain an edge. None of the three would be replayed.
\<close>

theorem refused_record_not_undone:
  assumes "reachable env told e" and "e_log e = Some l"
    and "\<And>rec. fst (log_Append env rec l) \<noteq> None"
    and "valid_belief b" and "valid_resolution r" and "valid_rule ru"
  shows "(\<exists>err. fst (Ingest env b e) = Inl err) \<and> b \<in> beliefs_of (snd (Ingest env b e)) \<and>
    fst (AddRule env ru e) \<noteq> None \<and> e_rules (snd (AddRule env ru e)) = e_rules e @ [ru] \<and>
    fst (Resolve env r e) \<noteq> None \<and> Resolution_of (rAtom r) (e_beliefs (snd (Resolve env r e))) = Some r \<and>
    e_graph (snd (Resolve env r e)) = e_graph e"
proof -
  have ok: "engine_ok e" by (rule reachable_ok [OF assms(1)])
  have refused: "\<exists>err. fst (log_write env ty p (e_log e)) = Some err" for ty p
    using assms(2,3) by (cases p) (auto simp: log_write_def)
  obtain err1 where i: "fst (Ingest env b e) = Inl err1" "core (snd (Ingest env b e)) = core (snd (ingestNoLog b e))"
    using refused failed_Ingest [OF assms(4)] by blast
  have "b \<in> beliefs_of (snd (Ingest env b e))"
    using core_abs(1) [OF i(2)] ok assms(4) by (simp add: beliefs_of_ingest)
  moreover obtain err2 where a: "fst (AddRule env ru e) = Some err2"
    using refused [of EventRuleAdded "encodeRule ru"] assms(6) by (auto simp: AddRule_result valid_rule_def)
  then have "core (snd (AddRule env ru e)) = core (add_rule ru e)"
    using assms(6) by (simp add: AddRule_core)
  then have "e_rules (snd (AddRule env ru e)) = e_rules e @ [ru]"
    using core_abs(6) by fastforce
  moreover obtain err3 where r: "fst (Resolve env r e) = Some err3"
    using refused [of EventResolutionSet "encodeResolution r"] assms(5)
    by (auto simp: Resolve_result SetResolution_result valid_resolution_def)
  then have c: "core (snd (Resolve env r e)) = core (set_resolution r e)"
    by (simp add: Resolve_core)
  have "Resolution_of (rAtom r) (e_beliefs (snd (Resolve env r e))) = Some r \<and>
      e_graph (snd (Resolve env r e)) = e_graph e"
    using core_abs(7,8) [OF c] assms(5) by (simp add: SetResolution_lookup)
  ultimately show ?thesis using i(1) a r by simp
qed

theorem refused_record_not_undone_witness:
  "fst (Resolve ex_fail_env ex_denial ex_unlogged) \<noteq> None \<and>
   resolvedFalse (mk_atom ''a'' ''isa'' ''b'') (snd (Resolve ex_fail_env ex_denial ex_unlogged)) \<and>
   mk_edge ''a'' ''isa'' ''b'' \<in> set (EdgesAll (e_graph (snd (Resolve ex_fail_env ex_denial ex_unlogged))))"
proof -
  have "fst (log_Append ex_fail_env rec ()) \<noteq> None" for rec
    by (simp add: ex_fail_env_def)
  moreover have "valid_resolution ex_denial" "valid_rule ex_inverse"
    by (simp_all add: valid_resolution_def check_fields_def ex_denial_def valid_rule_def ex_inverse_def)
  ultimately have "fst (Resolve ex_fail_env ex_denial ex_unlogged) \<noteq> None \<and>
      Resolution_of (rAtom ex_denial) (e_beliefs (snd (Resolve ex_fail_env ex_denial ex_unlogged))) = Some ex_denial \<and>
      e_graph (snd (Resolve ex_fail_env ex_denial ex_unlogged)) = e_graph ex_unlogged"
    using refused_record_not_undone [OF settled_reachable [OF ex_unlogged_settled] ex_unlogged_log, of "ex_fact ''x'' ''y''" ex_denial ex_inverse]
      ex_fact_valid [of "''x''" "''y''"] by blast
  then show ?thesis
    using ex_unlogged_fields(1,4)
    by (auto simp: resolvedFalse_def ex_denial_def mem_EdgesAll engine_okD facts_of_def edge_triple_def)
qed

end
