(* ===== verification/Engine_Loss.thy ===== *)
theory Engine_Loss
  imports Engine_Limits
begin

text \<open>
  The limit of \<open>recompute\<close>, and what a resolution loses by it. The example is an engine with 1001 facts
  and a rule that derives one belief from each.
\<close>

section \<open>An engine with more than a thousand derived beliefs\<close>

definition herd_size :: nat where "herd_size = 1001"

definition herd_name :: "nat \<Rightarrow> string" where
  "herd_name i = replicate (Suc i) CHR ''x''"

definition herd_fact :: "nat \<Rightarrow> Belief" where
  "herd_fact i = json_belief ''zoo'' \<lparr>jt_from = herd_name i, jt_predicate = ''isa'', jt_to = ''b'', jt_polarity = ''+''\<rparr>"

definition herd_pat :: "nat \<Rightarrow> AtomPattern" where
  "herd_pat i = mk_pat (herd_name i) ''isa'' ''b''"

definition member_pat :: "nat \<Rightarrow> AtomPattern" where
  "member_pat i = mk_pat ''b'' ''has'' (herd_name i)"

definition member_belief :: "nat \<Rightarrow> Belief" where
  "member_belief i = rule_belief ex_inverse (pat_atom (member_pat i))"

definition ex_ready :: "(unit, unit) Engine" where
  "ex_ready = snd (AddRule ex_env ex_inverse ex_start)"

definition ex_grown :: "(unit, unit) Engine" where
  "ex_grown = snd (BulkIngestJSON ex_env
     (Inr (map (\<lambda>i. \<lparr>jt_from = herd_name i, jt_predicate = ''isa'', jt_to = ''b'', jt_polarity = ''+''\<rparr>) [0..<herd_size]))
     ''zoo'' ex_ready)"

lemma herd_name_inject: "inj_on herd_name I"
  by (rule inj_onI) (metis herd_name_def length_replicate nat.inject)

lemma herd_fields [simp]:
  "bAtom (herd_fact i) = mk_atom (herd_name i) ''isa'' ''b''" "bPolarity (herd_fact i) = PolarityPositive"
  "bSource (herd_fact i) = ''zoo''" "bAtom (member_belief i) = mk_atom ''b'' ''has'' (herd_name i)"
  "bSource (member_belief i) = derivedSourcePrefix @ ''inverse''"
  by (simp_all add: herd_fact_def json_belief_def member_belief_def member_pat_def pat_atom_def ex_inverse_def)

lemma herd_triple: "(herd_name i, ''isa'', ''b'') = pat_triple (herd_pat i)"
  by (simp add: pat_triple_def herd_pat_def)

lemma herd_inject: "inj_on herd_fact I" "inj_on member_belief I"
proof -
  show "inj_on herd_fact I"
    using herd_name_inject by (rule inj_on_imageI2 [of "\<lambda>b. aFrom (bAtom b)", OF inj_on_cong [THEN iffD1, rotated]]) simp
  show "inj_on member_belief I"
    using herd_name_inject by (rule inj_on_imageI2 [of "\<lambda>b. aTo (bAtom b)", OF inj_on_cong [THEN iffD1, rotated]]) simp
qed

lemma herd_valid: "valid_belief (herd_fact i)" "valid_pat (member_pat i)" "plain (herd_name i)"
  by (auto simp: valid_belief_def check_fields_def valid_pat_def member_pat_def plain_def herd_name_def)

lemma herd_plain: "plain_pat (herd_pat i)" "plain_pat (member_pat i)"
  using herd_valid(3) [of i] by (simp_all add: plain_pat_def herd_pat_def member_pat_def plain_def)

lemma herd_base: "\<not> has_prefix (bSource (herd_fact i)) derivedSourcePrefix" "has_prefix (bSource (member_belief i)) derivedSourcePrefix"
  by (simp_all add: has_prefix_def derivedSourcePrefix_def)

lemma inverse_instance:
  "rule_instance ex_inverse E prems t \<longleftrightarrow>
     (\<exists>q \<in> E. pPred q = ''isa'' \<and> prems = [q] \<and> t = mk_pat (pTo q) ''has'' (pFrom q))"
proof
  assume "rule_instance ex_inverse E prems t"
  then obtain \<sigma> q where "Apply \<sigma> (mk_pat ''?x'' ''isa'' ''?y'') = Some q" "prems = [q]" "q \<in> E"
      "Apply \<sigma> (mk_pat ''?y'' ''has'' ''?x'') = Some t"
    by (auto simp: rule_instance_def ex_inverse_def)
  then show "\<exists>q \<in> E. pPred q = ''isa'' \<and> prems = [q] \<and> t = mk_pat (pTo q) ''has'' (pFrom q)"
    by (cases t) (auto simp: Apply_Some_iff apply_field_def isVar_def)
next
  assume "\<exists>q \<in> E. pPred q = ''isa'' \<and> prems = [q] \<and> t = mk_pat (pTo q) ''has'' (pFrom q)"
  then obtain q where q: "q \<in> E" "pPred q = ''isa''" "prems = [q]" "t = mk_pat (pTo q) ''has'' (pFrom q)" by blast
  show "rule_instance ex_inverse E prems t"
    unfolding rule_instance_def
    by (rule exI [of _ "[''?x'' \<mapsto> pFrom q, ''?y'' \<mapsto> pTo q]"])
      (use q in \<open>auto simp: ex_inverse_def Apply_Some_iff apply_field_def isVar_def\<close>)
qed

text \<open>The engine never holds more than the herd and its members.\<close>

definition herded :: "(unit, unit) Engine \<Rightarrow> bool" where
  "herded e \<longleftrightarrow> e_rules e = [ex_inverse] \<and>
     facts_of e \<subseteq> pat_triple ` (herd_pat ` {..<herd_size} \<union> member_pat ` {..<herd_size}) \<and>
     beliefs_of e \<subseteq> herd_fact ` {..<herd_size} \<union> member_belief ` {..<herd_size}"

lemma herded_instance:
  assumes "herded e" and "rule_instance ex_inverse {p. pat_triple p \<in> facts_of e} prems t"
  shows "\<exists>i < herd_size. prems = [herd_pat i] \<and> t = member_pat i"
proof -
  obtain q where q: "pat_triple q \<in> facts_of e" "pPred q = ''isa''" "prems = [q]" "t = mk_pat (pTo q) ''has'' (pFrom q)"
    using assms(2) unfolding inverse_instance by blast
  then obtain p where "pat_triple q = pat_triple p" "p \<in> herd_pat ` {..<herd_size} \<union> member_pat ` {..<herd_size}"
    using assms(1) unfolding herded_def by blast
  then have "q \<in> herd_pat ` {..<herd_size} \<union> member_pat ` {..<herd_size}"
    using inj_eq [OF inj_pat_triple] by blast
  with q show ?thesis by (auto simp: herd_pat_def member_pat_def)
qed

lemma herded_ApplyRules:
  assumes "engine_ok e" and "herded e"
  shows "herded (ApplyRules n e)"
proof -
  have "engine_ok (ApplyRules n e) \<and> herded (ApplyRules n e)"
  proof (rule ApplyRules_induct [where P = herded, OF assms])
    fix e0 e :: "(unit, unit) Engine" and r d m
    assume ok: "engine_ok e0" "herded e0" "engine_ok e" "herded e" "facts_of e0 \<subseteq> facts_of e"
      and r: "r \<in> set (e_rules e0)" and d: "d \<in> set (EvaluateRuleDerivations r (EdgesAll (e_graph e0)) m)"
    have "r = ex_inverse"
      using ok(2) r by (simp add: herded_def)
    then obtain i where "i < herd_size" "dThen d = member_pat i"
      using herded_instance [OF ok(4)] derived_instance [OF ok(1,5) d] by blast
    then show "herded (derive_step r d e)"
      using ok(3,4) herd_valid(2) [of i] \<open>r = ex_inverse\<close> by (auto simp: herded_def derive_facts derive_beliefs member_belief_def)
  qed
  then show ?thesis by simp
qed

lemma ex_ready_fields:
  "settled ex_env told ex_ready" "engine_ok ex_ready" "synced ex_ready" "e_rules ex_ready = [ex_inverse]"
  "beliefs_of ex_ready = {}" "facts_of ex_ready = {}" "resolvedFalse a ex_ready = False" "e_log ex_ready = None"
  "Resolution_of a (e_beliefs ex_ready) = None"
proof -
  show sett: "settled ex_env told ex_ready" for told
    unfolding ex_ready_def by (rule settled_keep [OF ex_start_settled step_add_rule])
  show ok: "engine_ok ex_ready" "synced ex_ready"
    using settled_ok [OF sett] by simp_all
  let ?e = "add_rule ex_inverse ex_start"
  have ok1: "engine_ok ?e" "synced ?e"
    using settled_ok [OF ex_start_settled] by simp_all
  have edges: "EdgesAll (e_graph ?e) = []"
    using facts_edges [OF ok1(1), of "{}"] by (simp add: ex_start_fields)
  have "EvaluateRuleDerivations ex_inverse [] 1000 = []" by code_simp
  then have "all_known ?e (EdgesAll (e_graph ?e)) 1000"
    using edges by (simp add: all_known_def ex_start_fields)
  note stall = ApplyRules_stall [OF ok1 this]
  have core: "core ex_ready = core (ApplyRules 1000 ?e)"
    by (simp add: ex_ready_def AddRule_core AddRule_result valid_rule_def ex_inverse_def log_write_def ex_start_fields)
  note c = core_abs(1,2,4,6,7) [OF core]
  show "e_rules ex_ready = [ex_inverse]" "resolvedFalse a ex_ready = False"
      "Resolution_of a (e_beliefs ex_ready) = None"
    using ok1 by (simp_all add: c ex_start_fields)
  show bel: "beliefs_of ex_ready = {}"
    using stall by (simp add: c ex_start_fields)
  then show "facts_of ex_ready = {}"
    using ok(2) by (simp add: synced_def held_facts_def)
  show "e_log ex_ready = None"
    by (simp add: ex_ready_def AddRule_def log_event_write ex_inverse_def log_write_def ex_start_fields)
qed

definition ex_herd :: "(unit, unit) Engine" where
  "ex_herd = ingest_all (map herd_fact [0..<herd_size]) ex_ready"

lemma ex_herd_fields:
  "engine_ok ex_herd" "synced ex_herd" "e_rules ex_herd = [ex_inverse]" "beliefs_of ex_herd = herd_fact ` {..<herd_size}"
  "resolvedFalse a ex_herd = False" "herded ex_herd"
proof -
  note i = ingest_all_beliefs [OF ex_ready_fields(2), of "map herd_fact [0..<herd_size]", folded ex_herd_def]
  show "engine_ok ex_herd" and sync: "synced ex_herd"
    using ingest_all_ok [OF ex_ready_fields(2,3)] by (simp_all add: ex_herd_def)
  show rules: "e_rules ex_herd = [ex_inverse]"
    by (simp add: ex_herd_def ex_ready_fields)
  show bel: "beliefs_of ex_herd = herd_fact ` {..<herd_size}"
    using i herd_valid(1) by (auto simp: ex_ready_fields)
  show res: "resolvedFalse a ex_herd = False" for a
    using i by (simp add: resolvedFalse_def ex_ready_fields)
  have "facts_of ex_herd \<subseteq> pat_triple ` herd_pat ` {..<herd_size}"
    using sync bel by (auto simp: synced_def held_facts_def herd_triple)
  then show "herded ex_herd"
    using rules bel by (auto simp: herded_def)
qed

lemma ex_grown_core: "core ex_grown = core (ApplyRules 10000 ex_herd)"
proof -
  have "bulk_beliefs (map (\<lambda>i. Triple (herd_fact i)) xs) = map herd_fact xs" for xs
    by (induction xs) simp_all
  then show ?thesis
    by (simp add: ex_grown_def ex_herd_def BulkIngestJSON_run bulk_run_engine(1) comp_def herd_fact_def)
qed

lemma log_all_None: "log_all env bs None = None"
  unfolding log_all_def by (induction bs) (simp_all add: log_write_def)

lemma ex_grown_settled: "settled ex_env (\<lambda>_. True) ex_grown"
  unfolding ex_grown_def by (rule settled_keep [OF ex_ready_fields(1) step_bulk_json]) simp

text \<open>Every member is derived: the limit of a bulk load is high enough.\<close>

lemma herd_derivations: "herded e \<Longrightarrow> engine_ok e \<Longrightarrow> length (EvaluateRuleDerivations ex_inverse (EdgesAll (e_graph e)) n) \<le> herd_size"
proof -
  assume e: "herded e" "engine_ok e"
  let ?ds = "EvaluateRuleDerivations ex_inverse (EdgesAll (e_graph e)) n"
  have "set ?ds \<subseteq> (\<lambda>i. \<lparr>dThen = member_pat i, dPremises = [herd_pat i]\<rparr>) ` {..<herd_size}"
  proof
    fix d assume "d \<in> set ?ds"
    then obtain i where "i < herd_size" "dPremises d = [herd_pat i]" "dThen d = member_pat i"
      using herded_instance [OF e(1)] derived_instance [OF e(2) order_refl] by blast
    then show "d \<in> (\<lambda>i. \<lparr>dThen = member_pat i, dPremises = [herd_pat i]\<rparr>) ` {..<herd_size}"
      by (cases d) auto
  qed
  moreover have "distinct ?ds"
    using EvaluateRuleDerivations_keys by (simp add: distinct_map)
  ultimately show "length ?ds \<le> herd_size"
    using surj_card_le [of "{..<herd_size}" "set ?ds"] by (simp add: distinct_card)
qed

lemma herd_derived:
  assumes "i < herd_size"
  shows "member_belief i \<in> beliefs_of (ApplyRules 10000 ex_herd)"
proof -
  let ?x = "ApplyRules 10000 ex_herd"
  note h = ex_herd_fields
  have x: "engine_ok ?x" "synced ?x" "herded ?x"
    using h by (simp_all add: engine_ok_ApplyRules synced_ApplyRules herded_ApplyRules)
  note c = ApplyRules_counted(1) [OF h(1,2), of 10000]
  have "beliefs_of ?x \<subseteq> herd_fact ` {..<herd_size} \<union> member_belief ` {..<herd_size}"
    using x(3) by (simp add: herded_def)
  then have "card (beliefs_of ?x) \<le> card (herd_fact ` {..<herd_size} \<union> member_belief ` {..<herd_size})"
    by (intro card_mono) simp_all
  also have "\<dots> \<le> card (herd_fact ` {..<herd_size}) + card (member_belief ` {..<herd_size})"
    by (rule card_Un_le)
  also have "\<dots> = 2 * herd_size"
    by (simp add: card_image herd_inject)
  finally have left: "8999 \<le> 10000 - (count_of ?x - count_of ex_herd)"
    by (simp add: count_of_def h(4) card_image herd_inject herd_size_def)
  have "safe_rule ex_inverse" and "plain_pat (rThen ex_inverse)" by code_simp+
  moreover have "\<forall>q \<in> edge_pats (EdgesAll (e_graph ?x)). plain_pat q"
  proof
    fix q assume "q \<in> edge_pats (EdgesAll (e_graph ?x))"
    then have "pat_triple q \<in> pat_triple ` (herd_pat ` {..<herd_size} \<union> member_pat ` {..<herd_size})"
      using x(3) unfolding edge_pats_facts [OF x(1)] herded_def by blast
    then have "q \<in> herd_pat ` {..<herd_size} \<union> member_pat ` {..<herd_size}"
      unfolding inj_image_mem_iff [OF inj_pat_triple] .
    then show "plain_pat q" using herd_plain by blast
  qed
  ultimately have within: "within_limit ex_inverse (EdgesAll (e_graph ?x)) (10000 - (count_of ?x - count_of ex_herd))"
    using left herd_derivations [OF x(3,1), of "10000 - (count_of ?x - count_of ex_herd)"]
    by (simp add: within_limit_def herd_size_def)
  have "herd_fact i \<in> beliefs_of ?x" "\<not> resolvedFalse (bAtom (herd_fact i)) ?x"
    using c assms h by (auto simp: counted_def)
  then have "atom_triple (bAtom (herd_fact i)) \<in> facts_of ?x"
    using x(2) herd_fields(2) [of i] unfolding synced_def held_facts_def by blast
  then have "herd_pat i \<in> edge_pats (EdgesAll (e_graph ?x))"
    by (simp add: edge_pats_facts [OF x(1)] herd_triple)
  then have "rule_instance ex_inverse (edge_pats (EdgesAll (e_graph ?x))) [herd_pat i] (member_pat i)"
    unfolding inverse_instance by (rule rev_bexI) (simp add: herd_pat_def member_pat_def)
  from ApplyRules_closed(1) [OF h(1,2) _ _ _ within this herd_valid(2)] left h(3) show ?thesis
    by (simp add: member_belief_def)
qed

section \<open>Property\<close>

text \<open>
  C18: A resolution can lose beliefs. Recomputing has a limit of its own: after a resolution that was
  accepted at most a thousand beliefs are left that are not base beliefs. If the engine had derived more
  that still follow from the base beliefs by the rules under the new resolution, some of them are gone,
  although nothing speaks against them. While fewer than a thousand were derived nothing is missing:
  every instance of a rule within the limit has its conclusion believed.
\<close>

theorem Resolve_derives_bounded:
  assumes "reachable env told e" and "Resolve env r e = (None, e')"
  defines "following \<equiv> {b \<in> beliefs_of e. has_prefix (bSource b) derivedSourcePrefix \<and>
      derivable (e_rules e) (base_beliefs e) (\<lambda>a. resolvedFalse a e') (bAtom b)}"
  defines "left \<equiv> 1000 - int (card (beliefs_of e' - base_beliefs e))"
  shows "0 \<le> left \<and> (1000 < card following \<longrightarrow> (\<exists>b \<in> following. b \<notin> beliefs_of e')) \<and>
    (0 < left \<and> ru \<in> set (e_rules e) \<and> within_limit ru (EdgesAll (e_graph e')) left \<and>
     rule_instance ru (edge_pats (EdgesAll (e_graph e'))) prems t \<and> valid_pat t \<longrightarrow>
       rule_belief ru (pat_atom t) \<in> beliefs_of e')"
proof -
  have ok: "engine_ok (set_resolution r e)"
    by (rule engine_ok_set_resolution [OF reachable_ok [OF assms(1)]])
  define e1 where "e1 = ingest_all (base_list (set_resolution r e))
    (set_resolutions (Resolutions (e_beliefs (set_resolution r e))) (cleared (set_resolution r e)))"
  note b = recompute_base [OF ok, folded e1_def]
  have core: "core e' = core (ApplyRules 1000 e1)"
    using assms(2) Resolve_core [of env r e] by (simp add: recompute_cleared e1_def)
  note c = core_abs(1,2,4,8) [OF core]
  have base: "base_beliefs e = beliefs_of e1" and rules: "e_rules e1 = e_rules e"
    using b(3,6) by simp_all
  have sub: "base_beliefs e \<subseteq> beliefs_of e'"
    using ApplyRules_beliefs [OF b(1)] c(1) base by blast
  then have left: "left = 1000 - (count_of (ApplyRules 1000 e1) - count_of e1)"
    using card_mono [OF finite_beliefs_of sub] finite_subset [OF sub]
    by (simp add: left_def card_Diff_subset count_of_def c(1) base)
  have "0 \<le> left"
    using ApplyRules_counted(2) [OF b(1,2), of 1000] by (simp add: left)
  moreover have "\<exists>b \<in> following. b \<notin> beliefs_of e'" if "1000 < card following"
  proof (rule ccontr)
    assume "\<not> (\<exists>b \<in> following. b \<notin> beliefs_of e')"
    then have "following \<subseteq> beliefs_of e' - base_beliefs e"
      by (auto simp: following_def base_beliefs_def)
    then have "card following \<le> card (beliefs_of e' - base_beliefs e)"
      by (intro card_mono) simp_all
    with that \<open>0 \<le> left\<close> show False by (simp add: left_def)
  qed
  moreover have "rule_belief ru (pat_atom t) \<in> beliefs_of e'"
    if "0 < left" "ru \<in> set (e_rules e)" "within_limit ru (EdgesAll (e_graph e')) left"
      "rule_instance ru (edge_pats (EdgesAll (e_graph e'))) prems t" "valid_pat t"
    using ApplyRules_closed(1) [OF b(1,2) _ _ _ _ _ that(5), of 1000 ru prems] that
    by (simp add: left c rules)
  ultimately show ?thesis by blast
qed

definition ex_verdict :: Resolution where
  "ex_verdict = \<lparr>rAtom = mk_atom ''q'' ''isa'' ''r'', rPolarity = PolarityPositive, rSource = ''judge'', rUnixNano = 9\<rparr>"

theorem Resolve_derives_bounded_witness:
  "\<exists>i. member_belief i \<in> beliefs_of ex_grown \<and>
     derivable [ex_inverse] (base_beliefs ex_grown) (\<lambda>_. False) (bAtom (member_belief i)) \<and>
     member_belief i \<notin> beliefs_of (snd (Resolve ex_env ex_verdict ex_grown))"
proof -
  let ?e' = "snd (Resolve ex_env ex_verdict ex_grown)"
  note h = ex_herd_fields and counted = ApplyRules_counted(1) [OF ex_herd_fields(1,2), of 10000]
  have ok: "engine_ok ex_grown" using settled_ok [OF ex_grown_settled] by simp
  note g = core_abs(1,4,6) [OF ex_grown_core]
  have rules: "e_rules ex_grown = [ex_inverse]" and free: "resolvedFalse a ex_grown = False" for a
    using counted h by (simp_all add: g counted_def)
  have log: "e_log ex_grown = None"
    by (simp add: ex_grown_def BulkIngestJSON_run bulk_run_engine(2) log_all_None ex_ready_fields)
  have res: "fst (Resolve ex_env ex_verdict ex_grown) = None"
    by (simp add: Resolve_result SetResolution_result check_fields_def ex_verdict_def log_write_def log)
  then have run: "Resolve ex_env ex_verdict ex_grown = (None, ?e')"
    by (simp add: prod_eq_iff)
  have free': "resolvedFalse a ?e' = False" for a
  proof -
    have "core ?e' = core (recompute (set_resolution ex_verdict ex_grown))"
      using res by (simp add: Resolve_core)
    from core_abs(4) [OF this, of a] show ?thesis
      using free [of a] engine_ok_set_resolution [OF ok]
      by (auto simp: resolvedFalse_def SetResolution_lookup valid_resolution_def check_fields_def ex_verdict_def)
  qed
  have member: "member_belief i \<in> beliefs_of ex_grown \<and>
      derivable [ex_inverse] (base_beliefs ex_grown) (\<lambda>_. False) (bAtom (member_belief i))" if "i < herd_size" for i
  proof
    show "member_belief i \<in> beliefs_of ex_grown"
      using herd_derived [OF that] by (simp add: g)
    have "herd_fact i \<in> base_beliefs ex_grown"
      using that counted h(4) herd_base(1) [of i] by (auto simp: base_beliefs_def g counted_def)
    then have "derivable [ex_inverse] (base_beliefs ex_grown) (\<lambda>_. False) (pat_atom (herd_pat i))"
      using derivable.believed [of "herd_fact i" "base_beliefs ex_grown" "\<lambda>_. False"]
      by (simp add: pat_atom_def herd_pat_def)
    then have "derivable [ex_inverse] (base_beliefs ex_grown) (\<lambda>_. False) (pat_atom (member_pat i))"
      by (intro by_rule [of ex_inverse _ "[herd_pat i]"])
        (simp_all add: inverse_instance, simp_all add: herd_pat_def member_pat_def)
    then show "derivable [ex_inverse] (base_beliefs ex_grown) (\<lambda>_. False) (bAtom (member_belief i))"
      by (simp add: pat_atom_def member_pat_def)
  qed
  let ?D = "{b \<in> beliefs_of ex_grown. has_prefix (bSource b) derivedSourcePrefix \<and>
      derivable (e_rules ex_grown) (base_beliefs ex_grown) (\<lambda>a. resolvedFalse a ?e') (bAtom b)}"
  have "member_belief ` {..<herd_size} \<subseteq> ?D"
    using member herd_base(2) by (auto simp: rules free' simp del: herd_fields)
  then have "card (member_belief ` {..<herd_size}) \<le> card ?D"
    by (intro card_mono) simp_all
  then have "1000 < card ?D"
    by (simp add: card_image herd_inject herd_size_def)
  then obtain b where b: "b \<in> ?D" "b \<notin> beliefs_of ?e'"
    using Resolve_derives_bounded [OF settled_reachable [OF ex_grown_settled] run] by blast
  have "herded (ApplyRules 10000 ex_herd)"
    using h(1,6) by (rule herded_ApplyRules)
  then obtain i where "i < herd_size" "b = member_belief i"
    using b(1) herd_base(1) by (auto simp: herded_def g simp del: herd_fields)
  then show ?thesis using member b(2) by blast
qed

end
