(* ===== verification/Wal.thy ===== *)
theory Wal
  imports Log
begin

text \<open>
  The write-ahead log of \<open>wal.go\<close>, over a file system that maps paths to contents. What the operating
  system does is an argument of each operation: whether a write succeeds or stops after some bytes,
  whether a sync or an open fails, and which error a read reports at the end of what it can read
  (\<open>io.EOF\<close> for a sound disk). A handle keeps its offset, and whether it was opened with
  \<open>O_APPEND\<close>; a file is not renamed or removed while it is open.
\<close>

named_theorems wal_simps \<open>what the log operations do\<close>

section \<open>Files\<close>

type_synonym filesys = "string \<rightharpoonup> bytes"

record handle =
  h_append :: bool
  h_off :: nat

datatype write_outcome = Written | WriteFailed nat string

text \<open>Bytes written at an offset; a hole is filled with zeros.\<close>

definition overwrite :: "nat \<Rightarrow> bytes \<Rightarrow> bytes \<Rightarrow> bytes" where
  "overwrite off bs c = take off (c @ replicate (off - length c) 0) @ bs @ drop (off + length bs) c"

definition file_put :: "string \<Rightarrow> handle \<Rightarrow> bytes \<Rightarrow> filesys \<Rightarrow> handle \<times> filesys" where
  "file_put path h bs fs =
     (let c = (case fs path of None \<Rightarrow> [] | Some c \<Rightarrow> c);
          off = (if h_append h then length c else h_off h)
      in (h\<lparr>h_off := off + length bs\<rparr>, fs(path \<mapsto> overwrite off bs c)))"

definition file_write :: "write_outcome \<Rightarrow> string \<Rightarrow> handle \<Rightarrow> bytes \<Rightarrow> filesys \<Rightarrow>
    go_error option \<times> handle \<times> filesys" where
  "file_write out path h bs fs =
     (case out of
        Written \<Rightarrow> (None, file_put path h bs fs)
      | WriteFailed n msg \<Rightarrow> (Some (ErrExternal msg), file_put path h (take n bs) fs))"

text \<open>\<open>io.ReadFull\<close> over a reader whose last read reports \<open>rerr\<close>.\<close>

definition ReadFull_upto :: "go_error \<Rightarrow> nat \<Rightarrow> bytes \<Rightarrow> go_error + bytes \<times> bytes" where
  "ReadFull_upto rerr n r =
     (if n \<le> length r then Inr (take n r, drop n r)
      else if rerr \<noteq> ErrEOF then Inl rerr
      else if r = [] then Inl ErrEOF else Inl ErrUnexpectedEOF)"

section \<open>The write-ahead log\<close>

definition walMagic :: string where "walMagic = ''NAN1''"
definition walVersion :: byte where "walVersion = 1"
definition walHeaderSize :: nat where "walHeaderSize = 16"

record WAL =
  w_path :: string
  w_f :: "handle option"
  w_deferSync :: bool

text \<open>\<open>fail\<close> is the error with which the operating system refuses the open.\<close>

definition OpenWAL :: "string option \<Rightarrow> string \<Rightarrow> filesys \<Rightarrow> go_error + WAL \<times> filesys" where
  "OpenWAL fail path fs =
     (case fail of
        Some msg \<Rightarrow> Inl (ErrExternal msg)
      | None \<Rightarrow>
          Inr (\<lparr>w_path = path, w_f = Some \<lparr>h_append = True, h_off = 0\<rparr>, w_deferSync = False\<rparr>,
               if fs path = None then fs(path \<mapsto> []) else fs))"

definition CreateWAL :: "string option \<Rightarrow> string \<Rightarrow> filesys \<Rightarrow> go_error + WAL \<times> filesys" where
  "CreateWAL fail path fs =
     (case fail of
        Some msg \<Rightarrow> Inl (ErrExternal msg)
      | None \<Rightarrow>
          Inr (\<lparr>w_path = path, w_f = Some \<lparr>h_append = False, h_off = 0\<rparr>, w_deferSync = False\<rparr>,
               fs(path \<mapsto> [])))"

definition wal_Close :: "string option \<Rightarrow> WAL \<Rightarrow> go_error option \<times> WAL" where
  "wal_Close fail w =
     (case w_f w of None \<Rightarrow> (None, w) | Some _ \<Rightarrow> (map_option ErrExternal fail, w\<lparr>w_f := None\<rparr>))"

definition SetDeferSync :: "bool \<Rightarrow> WAL \<Rightarrow> WAL" where
  "SetDeferSync on w = w\<lparr>w_deferSync := on\<rparr>"

definition Flush :: "string option \<Rightarrow> WAL \<Rightarrow> go_error option" where
  "Flush fail w = (case w_f w of None \<Rightarrow> None | Some _ \<Rightarrow> map_option ErrExternal fail)"

definition wal_header :: "Record \<Rightarrow> bytes" where
  "wal_header r =
     to_bytes walMagic @ [walVersion, recType r] @ put_le 2 (0 :: uint16) @
     put_le 4 (word_of_nat (length (recPayload r)) :: uint32) @
     put_le 4 (ChecksumIEEE (recPayload r))"

text \<open>The two writes and the sync, with their outcomes.\<close>

record append_outcome =
  o_header :: write_outcome
  o_payload :: write_outcome
  o_sync :: "string option"

abbreviation no_fault :: append_outcome where
  "no_fault \<equiv> \<lparr>o_header = Written, o_payload = Written, o_sync = None\<rparr>"

definition wal_Append :: "append_outcome \<Rightarrow> Record \<Rightarrow> WAL \<times> filesys \<Rightarrow> go_error option \<times> WAL \<times> filesys" where
  "wal_Append out r st =
     (let (w, fs) = st in
      if recType r = EventUnknown then (Some ErrInvalidEventType, w, fs)
      else
        case w_f w of
          None \<Rightarrow> (Some ErrWalClosed, w, fs)
        | Some h \<Rightarrow>
            if length (recPayload r) > 4294967295 then (Some ErrPayloadTooLarge, w, fs)
            else
              let (err1, h1, fs1) = file_write (o_header out) (w_path w) h (wal_header r) fs in
              if err1 \<noteq> None then (err1, w\<lparr>w_f := Some h1\<rparr>, fs1)
              else
                let (err2, h2, fs2) = file_write (o_payload out) (w_path w) h1 (recPayload r) fs1 in
                if err2 \<noteq> None then (err2, w\<lparr>w_f := Some h2\<rparr>, fs2)
                else if w_deferSync w then (None, w\<lparr>w_f := Some h2\<rparr>, fs2)
                else (map_option ErrExternal (o_sync out), w\<lparr>w_f := Some h2\<rparr>, fs2))"

text \<open>
  \<open>Replay\<close>: the callback works on a state of its own and may stop the loop with an error. The loop
  ends since each record is at least its header.
\<close>

lemma ReadFull_upto_Inr: "ReadFull_upto e n r = Inr (b, r') \<longleftrightarrow> length b = n \<and> r = b @ r'"
  by (auto simp: ReadFull_upto_def)

function replay_loop :: "'s ReplayFunc option \<Rightarrow> go_error \<Rightarrow> bytes \<Rightarrow> 's \<Rightarrow> go_error option \<times> 's" where
  "replay_loop fn rerr r s =
     (case ReadFull_upto rerr walHeaderSize r of
        Inl err \<Rightarrow> (if err = ErrEOF \<or> err = ErrUnexpectedEOF then (None, s) else (Some err, s))
      | Inr (header, r1) \<Rightarrow>
          if of_bytes (take 4 header) \<noteq> walMagic then (Some ErrInvalidMagic, s)
          else if header ! 4 \<noteq> walVersion then (Some ErrUnsupportedVersion, s)
          else
            let et = header ! 5;
                ln = get_le (take 4 (drop 8 header)) :: uint32;
                wantCRC = get_le (take 4 (drop 12 header)) :: uint32
            in case ReadFull_upto rerr (unat ln) r1 of
                 Inl err \<Rightarrow> (if err = ErrEOF \<or> err = ErrUnexpectedEOF then (None, s) else (Some err, s))
               | Inr (payload, r2) \<Rightarrow>
                   if ChecksumIEEE payload \<noteq> wantCRC then (Some ErrCrcMismatch, s)
                   else
                     case fn of
                       None \<Rightarrow> replay_loop fn rerr r2 s
                     | Some f \<Rightarrow>
                         (case f \<lparr>recType = et, recPayload = payload\<rparr> s of
                            (Some err, s') \<Rightarrow> (Some err, s')
                          | (None, s') \<Rightarrow> replay_loop fn rerr r2 s'))"
  by pat_completeness auto

termination
  by (relation "measure (\<lambda>(fn, rerr, r, s). length r)")
    (auto simp: ReadFull_upto_Inr walHeaderSize_def)

declare replay_loop.simps [simp del]

definition wal_Replay :: "go_error \<Rightarrow> 's ReplayFunc option \<Rightarrow> WAL \<times> filesys \<Rightarrow> 's \<Rightarrow> go_error option \<times> 's" where
  "wal_Replay rerr fn st s =
     (case snd st (w_path (fst st)) of
        None \<Rightarrow> (Some (ErrExternal ''no such file or directory''), s)
      | Some c \<Rightarrow> replay_loop fn rerr c s)"

section \<open>One record at a time\<close>

text \<open>The next record of a log, or the way the log ends there: an error, or none for the end of the
  file and for a record that is cut short.\<close>

definition next_record :: "go_error \<Rightarrow> bytes \<Rightarrow> go_error option + Record \<times> bytes" where
  "next_record rerr r =
     (case ReadFull_upto rerr walHeaderSize r of
        Inl err \<Rightarrow> Inl (if err = ErrEOF \<or> err = ErrUnexpectedEOF then None else Some err)
      | Inr (header, r1) \<Rightarrow>
          if of_bytes (take 4 header) \<noteq> walMagic then Inl (Some ErrInvalidMagic)
          else if header ! 4 \<noteq> walVersion then Inl (Some ErrUnsupportedVersion)
          else
            case ReadFull_upto rerr (unat (get_le (take 4 (drop 8 header)) :: uint32)) r1 of
              Inl err \<Rightarrow> Inl (if err = ErrEOF \<or> err = ErrUnexpectedEOF then None else Some err)
            | Inr (payload, r2) \<Rightarrow>
                if ChecksumIEEE payload \<noteq> get_le (take 4 (drop 12 header)) then Inl (Some ErrCrcMismatch)
                else Inr (\<lparr>recType = header ! 5, recPayload = payload\<rparr>, r2))"

lemma next_record_shorter: "next_record rerr r = Inr (x, r') \<Longrightarrow> length r' < length r"
  by (auto simp: next_record_def ReadFull_upto_Inr walHeaderSize_def split: sum.splits if_splits)

function wal_scan :: "go_error \<Rightarrow> bytes \<Rightarrow> Record list \<times> go_error option" where
  "wal_scan rerr r =
     (case next_record rerr r of
        Inl e \<Rightarrow> ([], e)
      | Inr (x, r') \<Rightarrow> (case wal_scan rerr r' of (xs, e) \<Rightarrow> (x # xs, e)))"
  by pat_completeness auto

termination
  by (relation "measure (\<lambda>(rerr, r). length r)") (auto dest: next_record_shorter)

declare wal_scan.simps [simp del]

lemma replay_loop_next:
  "replay_loop (Some f) rerr r s =
     (case next_record rerr r of
        Inl e \<Rightarrow> (e, s)
      | Inr (x, r') \<Rightarrow>
          (case f x s of (Some err, s') \<Rightarrow> (Some err, s') | (None, s') \<Rightarrow> replay_loop (Some f) rerr r' s'))"
  by (subst replay_loop.simps) (auto simp: next_record_def Let_def split: sum.split)

lemma replay_loop_scan:
  "replay_loop (Some f) rerr r s = (case wal_scan rerr r of (xs, e) \<Rightarrow> replay_records f xs e s)"
proof (induction rerr r arbitrary: s rule: wal_scan.induct)
  case (1 rerr r)
  show ?case
  proof (cases "next_record rerr r")
    case (Inl e)
    then show ?thesis by (simp add: replay_loop_next wal_scan.simps [of rerr r])
  next
    case (Inr p)
    obtain x r' where p: "p = (x, r')" by force
    obtain xs e where scan: "wal_scan rerr r' = (xs, e)" by force
    have "replay_loop (Some f) rerr r' s' = replay_records f xs e s'" for s'
      using 1 [OF Inr p [symmetric]] by (simp add: scan)
    with Inr p scan show ?thesis
      by (auto simp: replay_loop_next [of f rerr r] wal_scan.simps [of rerr r] split: option.split prod.split)
  qed
qed

text \<open>Frames.\<close>

definition wal_frame :: "Record \<Rightarrow> bytes" where
  "wal_frame r = wal_header r @ recPayload r"

definition fits :: "Record \<Rightarrow> bool" where
  "fits r \<longleftrightarrow> length (recPayload r) \<le> 4294967295"

lemma length_wal_header [simp]: "length (wal_header r) = 16"
  by (simp add: wal_header_def walMagic_def)

lemma wal_header_fields:
  assumes "fits r"
  shows "of_bytes (take 4 (wal_header r)) = walMagic" "wal_header r ! 4 = walVersion"
    "wal_header r ! 5 = recType r"
    "unat (get_le (take 4 (drop 8 (wal_header r))) :: uint32) = length (recPayload r)"
    "get_le (take 4 (drop 12 (wal_header r))) = ChecksumIEEE (recPayload r)"
proof -
  have magic: "length (to_bytes walMagic) = 4"
    by (simp add: walMagic_def)
  have two: "length (put_le 2 (0 :: uint16)) = 2" by simp
  note parts = wal_header_def magic nth_append two
  show "of_bytes (take 4 (wal_header r)) = walMagic"
    using magic by (simp add: wal_header_def of_to_bytes)
  show "wal_header r ! 4 = walVersion" and "wal_header r ! 5 = recType r"
    using magic by (simp_all add: wal_header_def nth_append)
  have "take 4 (drop 8 (wal_header r)) = put_le 4 (word_of_nat (length (recPayload r)) :: uint32)"
    using magic by (simp add: wal_header_def)
  moreover have "unat (word_of_nat (length (recPayload r)) :: uint32) = length (recPayload r)"
    using assms by (intro unat_length) (simp add: fits_def)
  ultimately show "unat (get_le (take 4 (drop 8 (wal_header r))) :: uint32) = length (recPayload r)"
    by (simp add: get_put_le)
  have "take 4 (drop 12 (wal_header r)) = put_le 4 (ChecksumIEEE (recPayload r))"
    using magic by (simp add: wal_header_def)
  then show "get_le (take 4 (drop 12 (wal_header r))) = ChecksumIEEE (recPayload r)"
    by (simp add: get_put_le)
qed

lemma next_record_frame [wal_simps]:
  assumes "fits r"
  shows "next_record rerr (wal_frame r @ rest) = Inr (r, rest)"
proof -
  have "ReadFull_upto rerr walHeaderSize (wal_frame r @ rest) = Inr (wal_header r, recPayload r @ rest)"
    by (simp add: ReadFull_upto_Inr wal_frame_def walHeaderSize_def)
  moreover have "ReadFull_upto rerr (length (recPayload r)) (recPayload r @ rest) = Inr (recPayload r, rest)"
    by (simp add: ReadFull_upto_Inr)
  ultimately show ?thesis
    using wal_header_fields [OF assms] by (simp add: next_record_def)
qed

lemma next_record_torn [wal_simps]:
  assumes "fits r" and "n < length (wal_frame r)"
  shows "next_record ErrEOF (take n (wal_frame r)) = Inl None"
proof (cases "n < 16")
  case True
  then show ?thesis
    using assms(2) by (simp add: next_record_def ReadFull_upto_def walHeaderSize_def)
next
  case False
  then have "take n (wal_frame r) = wal_header r @ take (n - 16) (recPayload r)"
    by (simp add: wal_frame_def)
  moreover from this have
    "ReadFull_upto ErrEOF walHeaderSize (take n (wal_frame r)) = Inr (wal_header r, take (n - 16) (recPayload r))"
    by (simp add: ReadFull_upto_Inr walHeaderSize_def)
  moreover have "n - 16 < length (recPayload r)"
    using assms(2) False by (simp add: wal_frame_def)
  ultimately show ?thesis
    using wal_header_fields [OF assms(1)] by (simp add: next_record_def ReadFull_upto_def)
qed

definition frames :: "Record list \<Rightarrow> bytes" where
  "frames rs = concat (map wal_frame rs)"

lemma frames_simps [simp]: "frames [] = []" "frames (r # rs) = wal_frame r @ frames rs"
    "frames (rs @ rs') = frames rs @ frames rs'"
  by (simp_all add: frames_def)

lemma wal_scan_frames:
  "\<forall>r \<in> set rs. fits r \<Longrightarrow> wal_scan rerr (frames rs @ rest) = (case wal_scan rerr rest of (xs, e) \<Rightarrow> (rs @ xs, e))"
proof (induction rs)
  case (Cons r rs)
  then show ?case
    by (subst wal_scan.simps) (simp add: wal_simps split: prod.split)
qed (simp split: prod.split)

lemma wal_scan_Nil: "wal_scan ErrEOF [] = ([], None)"
  by (subst wal_scan.simps) (simp add: next_record_def ReadFull_upto_def walHeaderSize_def)

text \<open>The first \<open>n\<close> bytes of a log hold the records whose frames end within them.\<close>

fun complete :: "nat \<Rightarrow> Record list \<Rightarrow> nat" where
  "complete n [] = 0"
| "complete n (r # rs) =
     (if length (wal_frame r) \<le> n then Suc (complete (n - length (wal_frame r)) rs) else 0)"

lemma wal_scan_take:
  "\<forall>r \<in> set rs. fits r \<Longrightarrow> wal_scan ErrEOF (take n (frames rs)) = (take (complete n rs) rs, None)"
proof (induction rs arbitrary: n)
  case Nil
  then show ?case by (simp add: wal_scan_Nil)
next
  case (Cons r rs)
  show ?case
  proof (cases "length (wal_frame r) \<le> n")
    case True
    then show ?thesis
      using Cons wal_scan_frames [of "[r]" ErrEOF "take (n - length (wal_frame r)) (frames rs)"] by simp
  next
    case False
    then show ?thesis
      using Cons.prems by (subst wal_scan.simps) (simp add: wal_simps)
  qed
qed

lemma complete_spec:
  "length (frames (take (complete n rs) rs)) \<le> n \<and>
    (complete n rs < length rs \<longrightarrow> n < length (frames (take (Suc (complete n rs)) rs)))"
  by (induction n rs rule: complete.induct) auto

lemma complete_le: "complete n rs \<le> length rs"
  by (induction n rs rule: complete.induct) auto

text \<open>A tear of one to three bytes shifts the magic of the next frame.\<close>

lemma next_record_misaligned:
  assumes "0 < m" and "m < 4"
  shows "next_record rerr (take m (wal_frame r) @ wal_frame r' @ rest) = Inl (Some ErrInvalidMagic)"
proof -
  have magic: "wal_frame x = to_bytes walMagic @ drop 4 (wal_frame x)" for x
    by (simp add: wal_frame_def wal_header_def walMagic_def)
  have len: "16 \<le> length (wal_frame r')"
    by (simp add: wal_frame_def)
  define b where "b = take m (wal_frame r) @ wal_frame r' @ rest"
  have "take 4 b = take m (to_bytes walMagic) @ take (4 - m) (to_bytes walMagic)"
    unfolding b_def using assms
    by (subst (1 2) magic) (simp add: walMagic_def min_def)
  moreover have "m = 1 \<or> m = 2 \<or> m = 3"
    using assms by linarith
  ultimately have "of_bytes (take 4 b) \<noteq> walMagic"
    by (auto simp: walMagic_def to_bytes_def of_bytes_def numeral_eq_Suc)
  moreover have "16 \<le> length b"
    using len by (simp add: b_def)
  ultimately show ?thesis
    by (simp add: next_record_def ReadFull_upto_def walHeaderSize_def b_def [symmetric])
qed

text \<open>
  What a reader makes of a torn frame and the frames that were appended behind it. The header it reads
  is the beginning of the torn frame, filled up with what follows.
\<close>

definition misread_length :: "bytes \<Rightarrow> nat" where
  "misread_length b = unat (get_le (take 4 (drop 8 b)) :: uint32)"

definition misread_accepted :: "bytes \<Rightarrow> bool" where
  "misread_accepted b \<longleftrightarrow>
     misread_length b \<le> length (drop 16 b) \<and>
     ChecksumIEEE (take (misread_length b) (drop 16 b)) = get_le (take 4 (drop 12 b))"

definition tear_verdict :: "nat \<Rightarrow> bytes \<Rightarrow> go_error option" where
  "tear_verdict m b =
     (if m < 4 then Some ErrInvalidMagic else if m = 4 then Some ErrUnsupportedVersion
      else if length (drop 16 b) < misread_length b then None else Some ErrCrcMismatch)"

lemma wal_frame_magic: "wal_frame r = to_bytes walMagic @ walVersion # drop 5 (wal_frame r)"
  by (simp add: wal_frame_def wal_header_def walMagic_def)

lemma torn_header:
  assumes "4 < m" and "b = take m (wal_frame r) @ rest"
  shows "of_bytes (take 4 b) = walMagic" "b ! 4 = walVersion"
proof -
  have b: "b = to_bytes walMagic @ walVersion # take (m - 5) (drop 5 (wal_frame r)) @ rest"
    using assms by (subst (asm) wal_frame_magic) (simp add: walMagic_def take_Cons' numeral_eq_Suc)
  show "of_bytes (take 4 b) = walMagic" "b ! 4 = walVersion"
    unfolding b by (simp_all add: walMagic_def of_to_bytes nth_append)
qed

lemma next_record_after_tear:
  assumes "0 < m" and "b = take m (wal_frame r) @ wal_frame r' @ rest" and "4 < m \<longrightarrow> \<not> misread_accepted b"
  shows "next_record ErrEOF b = Inl (tear_verdict m b)"
proof -
  have len: "16 \<le> length b"
    by (simp add: assms(2) wal_frame_def)
  then have header: "ReadFull_upto ErrEOF walHeaderSize b = Inr (take 16 b, drop 16 b)"
    by (simp add: ReadFull_upto_def walHeaderSize_def)
  consider "m < 4" | "m = 4" | "4 < m" by linarith
  then show ?thesis
  proof cases
    case 1
    then show ?thesis
      using next_record_misaligned [OF assms(1)] by (simp add: assms(2) tear_verdict_def)
  next
    case 2
    have b: "b = to_bytes walMagic @ to_bytes walMagic @ drop 8 b"
      using assms(2) 2 by (subst (asm) (1 2) wal_frame_magic) (simp add: walMagic_def)
    have "of_bytes (take 4 b) = walMagic" "b ! 4 \<noteq> walVersion"
      by (subst b, simp add: walMagic_def of_to_bytes)
        (subst b, simp add: walMagic_def to_bytes_def walVersion_def byte_of_char_def)
    then show ?thesis
      using 2 by (simp add: next_record_def header tear_verdict_def)
  next
    case 3
    have fields: "take 4 (take 16 b) = take 4 b" "take 16 b ! 4 = b ! 4"
        "take 4 (drop 8 (take 16 b)) = take 4 (drop 8 b)" "take 4 (drop 12 (take 16 b)) = take 4 (drop 12 b)"
      by (simp_all add: drop_take)
    have "next_record ErrEOF b =
        (case ReadFull_upto ErrEOF (misread_length b) (drop 16 b) of
           Inl err \<Rightarrow> Inl (if err = ErrEOF \<or> err = ErrUnexpectedEOF then None else Some err)
         | Inr (payload, r2) \<Rightarrow>
             if ChecksumIEEE payload \<noteq> get_le (take 4 (drop 12 b)) then Inl (Some ErrCrcMismatch)
             else Inr (\<lparr>recType = take 16 b ! 5, recPayload = payload\<rparr>, r2))"
      unfolding next_record_def header misread_length_def
      by (simp only: sum.case prod.case fields torn_header [OF 3 assms(2)] simp_thms if_False if_True)
    then show ?thesis
      using 3 assms(3) by (auto simp: ReadFull_upto_def tear_verdict_def misread_accepted_def)
  qed
qed

lemma wal_scan_after_tear:
  "0 < m \<Longrightarrow> b = take m (wal_frame r) @ wal_frame r' @ rest \<Longrightarrow> 4 < m \<longrightarrow> \<not> misread_accepted b \<Longrightarrow>
    wal_scan ErrEOF b = ([], tear_verdict m b)"
  by (subst wal_scan.simps) (simp add: next_record_after_tear)

text \<open>Where the tear is in the payload, the header is that of the torn record.\<close>

lemma misread_payload:
  assumes "fits r" and "16 \<le> m" and "b = take m (wal_frame r) @ rest"
  shows "misread_length b = length (recPayload r)" "drop 16 b = take (m - 16) (recPayload r) @ rest"
proof -
  have b: "b = wal_header r @ take (m - 16) (recPayload r) @ rest"
    using assms(2,3) by (simp add: wal_frame_def)
  show "drop 16 b = take (m - 16) (recPayload r) @ rest"
    by (simp add: b)
  have "take 4 (drop 8 b) = take 4 (drop 8 (wal_header r))"
    by (simp add: b)
  then show "misread_length b = length (recPayload r)"
    using wal_header_fields(4) [OF assms(1)] by (simp only: misread_length_def)
qed

text \<open>Whole frames, and a whole or a partial one behind them.\<close>

lemma wal_scan_tail:
  assumes "\<forall>r \<in> set rs. fits r" and "fits r" and "m \<le> length (wal_frame r)"
  shows "wal_scan ErrEOF (frames rs @ take m (wal_frame r)) =
    (if m = length (wal_frame r) then (rs @ [r], None) else (rs, None))"
proof -
  have "take (length (frames rs) + m) (frames (rs @ [r])) = frames rs @ take m (wal_frame r)"
    by simp
  moreover have "wal_scan ErrEOF (take m (wal_frame r)) = (if m = length (wal_frame r) then ([r], None) else ([], None))"
    using wal_scan_take [of "[r]" m] assms(2,3) by simp
  ultimately show ?thesis
    using wal_scan_frames [OF assms(1), of ErrEOF "take m (wal_frame r)"] by simp
qed

section \<open>Appending\<close>

definition wal_content :: "WAL \<times> filesys \<Rightarrow> bytes" where
  "wal_content st = (case snd st (w_path (fst st)) of None \<Rightarrow> [] | Some c \<Rightarrow> c)"

text \<open>The file is there, and the handle is at its end.\<close>

definition handle_at_end :: "handle \<Rightarrow> bytes \<Rightarrow> bool" where
  "handle_at_end h c \<longleftrightarrow> h_append h \<or> h_off h = length c"

definition wal_open :: "WAL \<times> filesys \<Rightarrow> bool" where
  "wal_open st \<longleftrightarrow>
     snd st (w_path (fst st)) \<noteq> None \<and>
     (\<exists>h. w_f (fst st) = Some h \<and> handle_at_end h (wal_content st))"

lemma overwrite_end [simp]: "overwrite (length c) bs c = c @ bs"
  by (simp add: overwrite_def)

lemma take_min_length [simp]: "take (min n (length bs)) bs = take n bs"
  by (simp add: min_def)

lemma file_write_end:
  assumes "handle_at_end h c" and "fs path = Some c"
  shows "\<exists>h' m. file_write out path h bs fs =
      ((case out of Written \<Rightarrow> None | WriteFailed n msg \<Rightarrow> Some (ErrExternal msg)),
       h', fs(path \<mapsto> c @ take m bs)) \<and>
    handle_at_end h' (c @ take m bs) \<and> m \<le> length bs \<and> (out = Written \<longrightarrow> m = length bs)"
proof -
  have put: "\<exists>h'. file_put path h b fs = (h', fs(path \<mapsto> c @ b)) \<and> handle_at_end h' (c @ b)" for b
    using assms by (auto simp: file_put_def Let_def handle_at_end_def)
  show ?thesis
  proof (cases out)
    case Written
    with put [of bs] show ?thesis by (auto simp: file_write_def intro!: exI [of _ "length bs"])
  next
    case (WriteFailed n msg)
    with put [of "take n bs"] show ?thesis
      by (auto simp: file_write_def intro!: exI [of _ "min n (length bs)"])
  qed
qed

text \<open>Whatever fails, an append leaves a prefix of the record's frame at the end of the file.\<close>

lemma wal_Append_cases:
  assumes "wal_open st" and "recType r \<noteq> EventUnknown" and "fits r"
  obtains err w' m where
    "wal_Append out r st = (err, w', (snd st)(w_path (fst st) \<mapsto> wal_content st @ take m (wal_frame r)))"
    "w_path w' = w_path (fst st)" "w_deferSync w' = w_deferSync (fst st)"
    "wal_open (w', (snd st)(w_path (fst st) \<mapsto> wal_content st @ take m (wal_frame r)))"
    "m \<le> length (wal_frame r)" "err = None \<Longrightarrow> m = length (wal_frame r)" "out = no_fault \<Longrightarrow> err = None"
proof -
  obtain w fs h c where st: "st = (w, fs)" "w_f w = Some h" "fs (w_path w) = Some c" "handle_at_end h c"
    using assms(1) by (cases st) (auto simp: wal_open_def wal_content_def)
  obtain h1 m1 where hdr: "file_write (o_header out) (w_path w) h (wal_header r) fs =
      ((case o_header out of Written \<Rightarrow> None | WriteFailed n msg \<Rightarrow> Some (ErrExternal msg)),
       h1, fs(w_path w \<mapsto> c @ take m1 (wal_header r)))"
    and h1: "handle_at_end h1 (c @ take m1 (wal_header r))" "m1 \<le> 16" "o_header out = Written \<longrightarrow> m1 = 16"
    using file_write_end [where fs = fs and path = "w_path w" and out = "o_header out" and bs = "wal_header r", OF st(4,3)] by auto
  show thesis
  proof (cases "o_header out")
    case (WriteFailed n msg)
    then show thesis
      using assms(2,3) st hdr h1
      by (intro that [of "Some (ErrExternal msg)" "w\<lparr>w_f := Some h1\<rparr>" m1])
        (auto simp: wal_Append_def fits_def wal_frame_def wal_content_def wal_open_def)
  next
    case Written
    then have fs1: "(fs(w_path w \<mapsto> c @ take m1 (wal_header r))) (w_path w) = Some (c @ wal_header r)"
        and h1': "handle_at_end h1 (c @ wal_header r)"
      using h1 by simp_all
    obtain h2 m2 where pay: "file_write (o_payload out) (w_path w) h1 (recPayload r)
          (fs(w_path w \<mapsto> c @ take m1 (wal_header r))) =
        ((case o_payload out of Written \<Rightarrow> None | WriteFailed n msg \<Rightarrow> Some (ErrExternal msg)),
         h2, fs(w_path w \<mapsto> c @ wal_header r @ take m2 (recPayload r)))"
      and h2: "handle_at_end h2 (c @ wal_header r @ take m2 (recPayload r))" "m2 \<le> length (recPayload r)"
        "o_payload out = Written \<longrightarrow> m2 = length (recPayload r)"
      using file_write_end [where fs = "fs(w_path w \<mapsto> c @ take m1 (wal_header r))" and path = "w_path w" and
          out = "o_payload out" and bs = "recPayload r", OF h1' fs1] by auto
    let ?err = "case o_payload out of WriteFailed n msg \<Rightarrow> Some (ErrExternal msg)
      | Written \<Rightarrow> if w_deferSync w then None else map_option ErrExternal (o_sync out)"
    have "wal_Append out r st = (?err, w\<lparr>w_f := Some h2\<rparr>,
        fs(w_path w \<mapsto> c @ wal_header r @ take m2 (recPayload r)))"
      using assms(2,3) st hdr pay Written
      by (auto simp: wal_Append_def fits_def split: write_outcome.split)
    then show thesis
      using st h2 by (intro that [of ?err "w\<lparr>w_f := Some h2\<rparr>" "16 + m2"])
        (auto simp: wal_frame_def wal_content_def wal_open_def split: write_outcome.splits)
  qed
qed

text \<open>A log is sound when its file is a sequence of whole frames.\<close>

definition wal_sound :: "WAL \<times> filesys \<Rightarrow> bool" where
  "wal_sound st \<longleftrightarrow> wal_open st \<and> (\<exists>rs. (\<forall>r \<in> set rs. fits r) \<and> wal_content st = frames rs)"

definition wal_records :: "WAL \<times> filesys \<Rightarrow> Record list \<times> go_error option" where
  "wal_records st =
     (case wal_Replay ErrEOF (Some collect) st [] of (e, rs) \<Rightarrow> (rs, e))"

definition wal_storable :: "Record \<Rightarrow> bool" where
  "wal_storable r \<longleftrightarrow> recType r \<noteq> EventUnknown \<and> fits r"

lemma wal_records_scan:
  "snd st (w_path (fst st)) \<noteq> None \<Longrightarrow> wal_records st = wal_scan ErrEOF (wal_content st)"
  by (cases "wal_scan ErrEOF (wal_content st)")
    (auto simp: wal_records_def wal_Replay_def wal_content_def replay_loop_scan replay_collect)

lemma wal_Replay_records:
  "snd st (w_path (fst st)) \<noteq> None \<Longrightarrow>
    wal_Replay ErrEOF (Some f) st s = replay_records f (fst (wal_records st)) (snd (wal_records st)) s"
  by (auto simp: wal_records_scan wal_Replay_def wal_content_def replay_loop_scan split: prod.split)

lemma wal_scan_whole: "\<forall>r \<in> set rs. fits r \<Longrightarrow> wal_scan ErrEOF (frames rs) = (rs, None)"
  using wal_scan_frames [of rs ErrEOF "[]"] by (simp add: wal_scan_Nil)

lemma wal_Append_refused:
  assumes "\<not> wal_storable r"
  shows "fst (wal_Append out r st) \<noteq> None \<and> snd (wal_Append out r st) = st"
  using assms by (cases st) (auto simp: wal_Append_def wal_storable_def fits_def split: option.split)

lemma wal_Append_sound:
  assumes "wal_sound st" and "wal_storable r"
  shows "\<exists>st'. wal_Append no_fault r st = (None, st') \<and> wal_sound st' \<and>
    wal_content st' = wal_content st @ wal_frame r"
proof -
  obtain rs where st: "wal_open st" "\<forall>r \<in> set rs. fits r" "wal_content st = frames rs"
    using assms(1) by (auto simp: wal_sound_def)
  have r: "recType r \<noteq> EventUnknown" "fits r"
    using assms(2) by (simp_all add: wal_storable_def)
  show ?thesis
  proof (rule wal_Append_cases [OF st(1) r, of no_fault], goal_cases)
    case (1 err w' m)
    let ?st' = "(w', (snd st)(w_path (fst st) \<mapsto> wal_content st @ take m (wal_frame r)))"
    have m: "err = None" "m = length (wal_frame r)"
      using 1(6,7) by simp_all
    then have content: "wal_content ?st' = frames (rs @ [r])"
      using 1(2) st(3) by (simp add: wal_content_def)
    then have "wal_sound ?st'"
      using 1(4) st(2) r(2) unfolding wal_sound_def by (intro conjI exI [of _ "rs @ [r]"]) auto
    with 1(1) m content st(3) show ?thesis by simp
  qed
qed

lemma wal_sound_records:
  assumes "wal_sound st" and "wal_records st = (rs, None)"
  shows "wal_open st \<and> (\<forall>r \<in> set rs. fits r) \<and> wal_content st = frames rs"
proof -
  obtain rs' where "wal_open st" "\<forall>r \<in> set rs'. fits r" "wal_content st = frames rs'"
    using assms(1) by (auto simp: wal_sound_def)
  moreover from this have "wal_records st = (rs', None)"
    by (simp add: wal_records_scan wal_open_def wal_scan_whole)
  ultimately show ?thesis
    using assms(2) by simp
qed

text \<open>An append that may fail leaves the other files alone, and a sound log if it succeeds.\<close>

lemma wal_Append_either:
  assumes "wal_sound st" and "wal_records st = (rs, None)"
  shows "wal_records (snd (wal_Append out r st)) \<in> {(rs, None), (rs @ [r], None)} \<and>
    (fst (wal_Append out r st) = None \<longrightarrow>
       wal_sound (snd (wal_Append out r st)) \<and> wal_records (snd (wal_Append out r st)) = (rs @ [r], None)) \<and>
    w_path (fst (snd (wal_Append out r st))) = w_path (fst st) \<and>
    (\<forall>q. q \<noteq> w_path (fst st) \<longrightarrow> snd (snd (wal_Append out r st)) q = snd st q)"
proof (cases "wal_storable r")
  case False
  with wal_Append_refused [OF False, of out st] assms(2) show ?thesis by simp
next
  case True
  have st: "wal_open st" "\<forall>r \<in> set rs. fits r" "wal_content st = frames rs"
    using wal_sound_records [OF assms] by simp_all
  have r: "recType r \<noteq> EventUnknown" "fits r"
    using True by (simp_all add: wal_storable_def)
  show ?thesis
  proof (rule wal_Append_cases [OF st(1) r, of out], goal_cases)
    case (1 err w' m)
    let ?st' = "(w', (snd st)(w_path (fst st) \<mapsto> wal_content st @ take m (wal_frame r)))"
    have content: "wal_content ?st' = frames rs @ take m (wal_frame r)"
      using 1(2) st(3) by (simp add: wal_content_def)
    then have recs: "wal_records ?st' = (if m = length (wal_frame r) then (rs @ [r], None) else (rs, None))"
      using 1(2,5) st(2) r(2) by (simp add: wal_records_scan wal_scan_tail)
    have "wal_sound ?st'" if "m = length (wal_frame r)"
      using that content 1(4) st(2) r(2) unfolding wal_sound_def by (intro conjI exI [of _ "rs @ [r]"]) auto
    with 1 recs show ?thesis by auto
  qed
qed

text \<open>Appending only ever extends the file.\<close>

lemma wal_Append_extend:
  assumes "wal_open st"
  shows "wal_open (snd (wal_Append no_fault r st)) \<and>
    wal_content (snd (wal_Append no_fault r st)) = wal_content st @ frames (filter wal_storable [r])"
proof (cases "wal_storable r")
  case False
  with wal_Append_refused [OF False, of no_fault st] assms show ?thesis by simp
next
  case True
  then have r: "recType r \<noteq> EventUnknown" "fits r"
    by (simp_all add: wal_storable_def)
  show ?thesis
    by (rule wal_Append_cases [OF assms r, of no_fault]) (auto simp: wal_content_def True)
qed

lemma wal_appends_extend:
  "wal_open st \<Longrightarrow>
    wal_open (fold (\<lambda>r st. snd (wal_Append no_fault r st)) rs st) \<and>
    wal_content (fold (\<lambda>r st. snd (wal_Append no_fault r st)) rs st) = wal_content st @ frames (filter wal_storable rs)"
proof (induction rs arbitrary: st)
  case (Cons r rs)
  then show ?case
    using wal_Append_extend [OF Cons.prems, of r] by (cases "wal_storable r") auto
qed simp

interpretation wal_log: record_log "wal_Append no_fault" wal_records wal_sound wal_storable
proof
  fix st r
  assume sound: "wal_sound st"
  obtain rs where rs: "\<forall>r \<in> set rs. fits r" "wal_content st = frames rs" "wal_open st"
    using sound by (auto simp: wal_sound_def)
  then have recs: "wal_records st = (rs, None)"
    by (simp add: wal_records_scan wal_open_def wal_scan_whole)
  then show "snd (wal_records st) = None" by simp
  show "wal_sound (snd (wal_Append no_fault r st))"
    using wal_Append_sound [OF sound, of r] wal_Append_refused [of r no_fault st] sound
    by (cases "wal_storable r") auto
  show "fst (wal_Append no_fault r st) \<noteq> None \<and> snd (wal_Append no_fault r st) = st" if "\<not> wal_storable r"
    using that by (rule wal_Append_refused)
  show "fst (wal_Append no_fault r st) = None \<and>
      wal_records (snd (wal_Append no_fault r st)) = (fst (wal_records st) @ [r], None)"
    if storable: "wal_storable r"
  proof -
    obtain st' where st': "wal_Append no_fault r st = (None, st')" "wal_sound st'"
        "wal_content st' = frames (rs @ [r])"
      using wal_Append_sound [OF sound storable] rs(2) by auto
    moreover have "wal_records st' = (rs @ [r], None)"
      using st' rs(1) storable wal_scan_whole [of "rs @ [r]"]
      by (simp add: wal_records_scan wal_sound_def wal_open_def wal_storable_def del: frames_simps)
    ultimately show ?thesis by (simp add: recs)
  qed
qed

section \<open>Opening\<close>

lemma OpenWAL_open:
  "OpenWAL None path fs = Inr st \<Longrightarrow> wal_open st \<and> w_path (fst st) = path \<and>
    wal_content st = (case fs path of None \<Rightarrow> [] | Some c \<Rightarrow> c)"
  by (auto simp: OpenWAL_def wal_open_def wal_content_def handle_at_end_def)

lemma CreateWAL_open:
  "CreateWAL None path fs = Inr st \<Longrightarrow> wal_open st \<and> w_path (fst st) = path \<and> wal_content st = []"
  by (auto simp: CreateWAL_def wal_open_def wal_content_def handle_at_end_def)

lemma wal_sound_Nil: "wal_open st \<Longrightarrow> wal_content st = [] \<Longrightarrow> wal_sound st"
  unfolding wal_sound_def by (intro conjI exI [of _ "[]"]) simp_all

lemma wal_path_Append: "w_path (fst (snd (wal_Append out r st))) = w_path (fst st)"
  by (cases st) (auto simp: wal_Append_def Let_def split: option.splits prod.splits)

lemma wal_path_appends: "w_path (fst (fold (\<lambda>r st. snd (wal_Append out r st)) rs st)) = w_path (fst st)"
  by (induction rs arbitrary: st) (simp_all add: wal_path_Append)

abbreviation wal_appends :: "Record list \<Rightarrow> WAL \<times> filesys \<Rightarrow> WAL \<times> filesys" where
  "wal_appends rs st \<equiv> fold (\<lambda>r st. snd (wal_Append no_fault r st)) rs st"

lemma wal_sound_file: "wal_sound st \<Longrightarrow> snd st (w_path (fst st)) = Some (wal_content st)"
  by (auto simp: wal_sound_def wal_open_def wal_content_def)

lemma wal_sound_reopen:
  assumes "wal_sound st" and "OpenWAL None (w_path (fst st)) (snd st) = Inr st'"
  shows "wal_sound st' \<and> wal_records st' = wal_records st"
proof -
  have st': "wal_open st'" "wal_content st' = wal_content st"
    using OpenWAL_open [OF assms(2)] wal_sound_file [OF assms(1)] by simp_all
  then have "wal_sound st'"
    using assms(1) by (simp add: wal_sound_def)
  then show ?thesis
    using wal_sound_file [OF assms(1)] wal_sound_file [of st'] st' by (simp add: wal_records_scan)
qed

section \<open>Properties of the write-ahead log\<close>

text \<open>
  C27: A log that was created and appended to, closed, opened again and appended to again replays
  exactly the records that \<open>Append\<close> accepted (a known event type and at most \<open>2 ^ 32 - 1\<close> bytes), in
  order and without an error, for every callback.
\<close>

theorem wal_replays_appends:
  "case CreateWAL None path fs of
     Inl _ \<Rightarrow> False
   | Inr st0 \<Rightarrow>
       (let st = wal_appends rs st0 in
        wal_Replay ErrEOF (Some f) st s = replay_records f (filter wal_storable rs) None s \<and>
        (case OpenWAL None path (snd st) of
           Inl _ \<Rightarrow> False
         | Inr st1 \<Rightarrow> wal_Replay ErrEOF (Some f) (wal_appends rs' st1) s =
             replay_records f (filter wal_storable (rs @ rs')) None s))"
proof -
  obtain st0 where st0: "CreateWAL None path fs = Inr st0"
    by (auto simp: CreateWAL_def)
  then have sound0: "wal_sound st0" and path0: "w_path (fst st0) = path" and recs0: "wal_records st0 = ([], None)"
    using CreateWAL_open [OF st0] wal_sound_Nil [of st0]
    by (auto simp: wal_records_scan wal_open_def wal_scan_Nil)
  define st where "st = wal_appends rs st0"
  have st: "wal_sound st" "wal_records st = (filter wal_storable rs, None)"
    unfolding st_def using wal_log.appends_inv wal_log.appends_records sound0 recs0 by simp_all
  have path: "w_path (fst st) = path"
    by (simp add: st_def wal_path_appends path0)
  obtain st1 where st1: "OpenWAL None path (snd st) = Inr st1"
    by (auto simp: OpenWAL_def)
  then have "wal_sound st1" and "wal_records st1 = wal_records st"
    using wal_sound_reopen [OF st(1)] path by simp_all
  then have fin: "wal_sound (wal_appends rs' st1)"
      "wal_records (wal_appends rs' st1) = (filter wal_storable (rs @ rs'), None)"
    using wal_log.appends_inv wal_log.appends_records st(2) by simp_all
  have "wal_Replay ErrEOF (Some f) st s = replay_records f (filter wal_storable rs) None s"
    using wal_sound_file [OF st(1)] st(2) by (simp add: wal_Replay_records)
  moreover have "wal_Replay ErrEOF (Some f) (wal_appends rs' st1) s =
      replay_records f (filter wal_storable (rs @ rs')) None s"
    using wal_sound_file [OF fin(1)] fin(2) by (simp add: wal_Replay_records)
  ultimately show ?thesis
    by (simp add: st0 st1 st_def [symmetric] Let_def)
qed

text \<open>
  C29: A log whose file was cut anywhere, by a crash in the middle of a write, replays without an
  error the longest sequence of records whose frames are whole, whatever the cut left of the next.
\<close>

theorem wal_crash_consistent:
  assumes "\<forall>r \<in> set rs. fits r" and "fs path = Some (take n (frames rs))"
    and "OpenWAL None path fs = Inr st"
  shows "\<exists>k \<le> length rs. wal_Replay ErrEOF (Some f) st s = replay_records f (take k rs) None s \<and>
    length (frames (take k rs)) \<le> n \<and>
    (k = length rs \<or> n < length (frames (take (Suc k) rs)))"
proof (intro exI conjI)
  have content: "wal_content st = take n (frames rs)" and "wal_open st"
    using OpenWAL_open [OF assms(3)] assms(2) by simp_all
  then have "wal_records st = (take (complete n rs) rs, None)"
    using wal_scan_take [OF assms(1)] by (simp add: wal_records_scan wal_open_def)
  then show "wal_Replay ErrEOF (Some f) st s = replay_records f (take (complete n rs) rs) None s"
    using \<open>wal_open st\<close> by (simp add: wal_Replay_records wal_open_def)
  show "complete n rs \<le> length rs" by (rule complete_le)
  show "length (frames (take (complete n rs) rs)) \<le> n"
    and "complete n rs = length rs \<or> n < length (frames (take (Suc (complete n rs)) rs))"
    using complete_spec [of n rs] complete_le [of n rs] by (auto simp: le_less)
qed

theorem wal_crash_consistent_witness:
  "wal_Replay ErrEOF (Some collect)
      (\<lparr>w_path = ''log'', w_f = Some \<lparr>h_append = True, h_off = 0\<rparr>, w_deferSync = False\<rparr>,
       [''log'' \<mapsto> take 18 (frames [\<lparr>recType = 1, recPayload = [1, 2, 3]\<rparr>])]) [] = (None, [])"
proof -
  let ?rs = "[\<lparr>recType = 1, recPayload = [1, 2, 3]\<rparr>] :: Record list"
  let ?fs = "[''log'' \<mapsto> take 18 (frames ?rs)] :: filesys"
  let ?st = "(\<lparr>w_path = ''log'', w_f = Some \<lparr>h_append = True, h_off = 0\<rparr>, w_deferSync = False\<rparr>, ?fs)"
  have "\<forall>r \<in> set ?rs. fits r" and "?fs ''log'' = Some (take 18 (frames ?rs))"
      and "OpenWAL None ''log'' ?fs = Inr ?st"
    by (simp_all add: fits_def OpenWAL_def)
  from wal_crash_consistent [OF this, of collect "[]"] obtain k where
    "wal_Replay ErrEOF (Some collect) ?st [] = replay_records collect (take k ?rs) None []"
    and "k \<le> 1" and "length (frames (take k ?rs)) \<le> 18"
    by auto
  moreover from this have "k = 0"
    by (cases k) (auto simp: wal_frame_def)
  ultimately show ?thesis by simp
qed

text \<open>
  C30: An append to a sound log, whatever the operating system does to its two writes and its sync,
  leaves a log that replays without an error the old records, or those and the new one; if \<open>Append\<close>
  reports success, the new one is there.
\<close>

theorem wal_append_atomic:
  assumes "wal_sound st" and "wal_records st = (rs, None)"
  shows "wal_records (snd (wal_Append out r st)) \<in> {(rs, None), (rs @ [r], None)} \<and>
    (fst (wal_Append out r st) = None \<longrightarrow> wal_records (snd (wal_Append out r st)) = (rs @ [r], None))"
  using wal_Append_either [OF assms, of out r] by blast

theorem wal_append_atomic_witness:
  "wal_records (snd (wal_Append \<lparr>o_header = Written, o_payload = WriteFailed 1 ''disk full'', o_sync = None\<rparr>
      \<lparr>recType = 1, recPayload = [1, 2, 3]\<rparr>
      (\<lparr>w_path = ''log'', w_f = Some \<lparr>h_append = False, h_off = 0\<rparr>, w_deferSync = False\<rparr>, [''log'' \<mapsto> []])))
    \<in> {([], None), ([\<lparr>recType = 1, recPayload = [1, 2, 3]\<rparr>], None)}"
proof -
  let ?st = "(\<lparr>w_path = ''log'', w_f = Some \<lparr>h_append = False, h_off = 0\<rparr>, w_deferSync = False\<rparr>,
    [''log'' \<mapsto> []]) :: WAL \<times> filesys"
  have "wal_open ?st" and "wal_content ?st = []"
    by (simp_all add: wal_open_def wal_content_def handle_at_end_def)
  then have "wal_sound ?st" and "wal_records ?st = ([], None)"
    by (simp_all add: wal_sound_Nil wal_records_scan wal_scan_Nil)
  from wal_append_atomic [OF this] show ?thesis by simp
qed

text \<open>
  C31: What a torn write leaves behind is not repaired. Where a log ends in the middle of a frame,
  wherever that is, the next append and all later ones succeed, and none of their records is ever
  replayed, unless the bytes that the reader takes for the payload of the torn record happen to have
  the checksum it takes for theirs. \<open>Replay\<close> hands out the records before the tear. Then it fails: with an
  invalid magic if the tear is within the magic, with an unsupported version if it is right behind it, and
  with a checksum mismatch otherwise; but if the length it reads asks for more bytes than were appended
  since, as where a payload of that length was torn, it ends without an error.
\<close>

theorem torn_tail_poisons_log:
  fixes later :: "Record list"
  assumes "wal_open st" and "\<forall>r \<in> set rs. fits r" and "wal_content st = frames rs @ take m (wal_frame r)"
    and "0 < m" and "m < length (wal_frame r)" and "fits r" and "wal_storable r'"
  defines "b \<equiv> take m (wal_frame r) @ frames (filter wal_storable (r' # later))"
  shows "fst (wal_Append no_fault r' st) = None \<and>
    (m \<le> 4 \<or> \<not> misread_accepted b \<longrightarrow> wal_records (wal_appends (r' # later) st) = (rs, tear_verdict m b)) \<and>
    (16 \<le> m \<longrightarrow> misread_length b = length (recPayload r))"
proof (intro conjI impI)
  have r': "recType r' \<noteq> EventUnknown" "fits r'"
    using assms(7) by (simp_all add: wal_storable_def)
  show "fst (wal_Append no_fault r' st) = None"
    by (rule wal_Append_cases [OF assms(1) r', of no_fault]) simp
  note ext = wal_appends_extend [OF assms(1), of "r' # later"]
  have content: "wal_content (wal_appends (r' # later) st) = frames rs @ b"
    using ext assms(3) by (simp add: b_def)
  have b: "b = take m (wal_frame r) @ wal_frame r' @ frames (filter wal_storable later)"
    using assms(7) by (simp add: b_def)
  show "wal_records (wal_appends (r' # later) st) = (rs, tear_verdict m b)" if "m \<le> 4 \<or> \<not> misread_accepted b"
  proof -
    have "wal_scan ErrEOF b = ([], tear_verdict m b)"
      using that by (intro wal_scan_after_tear [OF assms(4) b]) auto
    then show ?thesis
      using ext content wal_scan_frames [OF assms(2), of ErrEOF b] by (simp add: wal_records_scan wal_open_def)
  qed
  show "misread_length b = length (recPayload r)" if "16 \<le> m"
    by (rule misread_payload(1) [OF assms(6) that b])
qed

text \<open>A payload of forty bytes, torn after the first, swallows the record behind it without a word.\<close>

theorem torn_tail_poisons_log_witness:
  "wal_records (snd (wal_Append no_fault \<lparr>recType = 2, recPayload = []\<rparr>
      (\<lparr>w_path = ''log'', w_f = Some \<lparr>h_append = True, h_off = 0\<rparr>, w_deferSync = False\<rparr>,
       [''log'' \<mapsto> take 17 (wal_frame \<lparr>recType = 1, recPayload = replicate 40 7\<rparr>)])))
    = ([], None)"
proof -
  let ?r = "\<lparr>recType = 1, recPayload = replicate 40 7\<rparr> :: Record" and ?r' = "\<lparr>recType = 2, recPayload = []\<rparr> :: Record"
  let ?st = "(\<lparr>w_path = ''log'', w_f = Some \<lparr>h_append = True, h_off = 0\<rparr>, w_deferSync = False\<rparr>,
    [''log'' \<mapsto> take 17 (wal_frame ?r)]) :: WAL \<times> filesys"
  let ?b = "take 17 (wal_frame ?r) @ frames (filter wal_storable [?r'])"
  have "wal_open ?st" and "wal_content ?st = frames [] @ take 17 (wal_frame ?r)"
    by (simp_all add: wal_open_def wal_content_def handle_at_end_def)
  moreover have "wal_storable ?r'" and "fits ?r" and "17 < length (wal_frame ?r)"
    by (simp_all add: wal_storable_def fits_def EventUnknown_def wal_frame_def)
  ultimately have t: "fst (wal_Append no_fault ?r' ?st) = None \<and>
      (17 \<le> (4 :: nat) \<or> \<not> misread_accepted ?b \<longrightarrow> wal_records (wal_appends [?r'] ?st) = ([], tear_verdict 17 ?b)) \<and>
      (16 \<le> (17 :: nat) \<longrightarrow> misread_length ?b = length (recPayload ?r))"
    by (intro torn_tail_poisons_log [of ?st "[]" 17 ?r ?r' "[]"]) simp_all
  moreover have "length (drop 16 ?b) = 17"
    by (simp add: wal_frame_def wal_storable_def fits_def EventUnknown_def)
  ultimately show ?thesis
    by (simp add: misread_accepted_def tear_verdict_def)
qed

end
