(* ===== verification/Engine_Replay.thy ===== *)
theory Engine_Replay
  imports Engine_Limits Wal
begin

text \<open>
  Replaying the log of an engine. What a replay rebuilds is stated over an abstraction of the engine:
  the beliefs that are not derived, the resolutions and the rules. Everything else of the core follows
  from these three by \<open>recompute\<close>, down to the order of every list.
\<close>

section \<open>What recomputing depends on\<close>

type_synonym told = "Belief set \<times> (Atom \<Rightarrow> Resolution option) \<times> Rule list"

definition told :: "('l, 'i) Engine \<Rightarrow> told" where
  "told e = (base_beliefs e, \<lambda>a. Resolution_of a (e_beliefs e), e_rules e)"

lemma told_core: "core e1 = core e2 \<Longrightarrow> told e1 = told e2"
  for e1 e2 :: "('l, 'i) Engine"
  using core_abs(3,6,7) [of e1 e2] by (simp add: told_def)

definition base_belief :: "Belief \<Rightarrow> bool" where
  "base_belief b \<longleftrightarrow> \<not> has_prefix (bSource b) derivedSourcePrefix"

lemma base_slot_det:
  assumes "slots_ok s" and "slots_ok s'"
    and "{b \<in> store_beliefs s. base_belief b} = {b \<in> store_beliefs s'. base_belief b}"
  shows "filter base_belief (slot s a pol) = filter base_belief (slot s' a pol)"
proof -
  have sorted: "sort_slice belief_less (filter base_belief (slot t a pol)) = filter base_belief (slot t a pol)"
    if "slots_ok t" for t
  proof -
    have "sorted (map belief_stamp (slot t a pol))"
      using belief_sort.sorted_sort_slice [of "slot t a pol"]
        slot_unique [OF that distinct_slot [OF that] refl, of a pol] by simp
    then show ?thesis
      by (intro belief_sort.sort_slice_sorted sorted_filter)
  qed
  have "mset (filter base_belief (slot s a pol)) = mset (filter base_belief (slot s' a pol))"
  proof (intro iffD1 [OF set_eq_iff_mset_eq_distinct] distinct_filter distinct_slot assms(1,2))
    show "set (filter base_belief (slot s a pol)) = set (filter base_belief (slot s' a pol))"
      using assms(3) by (auto simp: slot_mem [OF assms(1)] slot_mem [OF assms(2)])
  qed
  moreover have "inj_on belief_stamp (set (filter base_belief (slot s a pol)))"
    by (rule inj_on_stamp [where a = a and pol = pol]) (auto simp: slot_mem [OF assms(1)])
  ultimately have "sort_slice belief_less (filter base_belief (slot s a pol)) =
      sort_slice belief_less (filter base_belief (slot s' a pol))"
    by (rule belief_sort.sort_slice_perm)
  then show ?thesis
    using sorted assms(1,2) by simp
qed

lemma concat_map_filter: "concat (map f xs) = concat (map f (filter (\<lambda>x. f x \<noteq> []) xs))"
  by (induction xs) auto

lemma sorted_atoms_det:
  "sorted_wrt atom_less xs \<Longrightarrow> sorted_wrt atom_less ys \<Longrightarrow> set xs = set ys \<Longrightarrow> xs = ys"
proof -
  assume "sorted_wrt atom_less xs" and "sorted_wrt atom_less ys" and set: "set xs = set ys"
  moreover have "atom_less = (\<lambda>x y. atom_triple x < atom_triple y)"
    by (simp add: fun_eq_iff atom_sort.less_key)
  ultimately have "sorted_wrt (<) (map atom_triple xs)" "sorted_wrt (<) (map atom_triple ys)"
    by (simp_all add: sorted_wrt_map)
  then have "map atom_triple xs = map atom_triple ys"
    using set by (intro strict_sorted_equal) simp_all
  then show ?thesis
    using inj_atom_triple by (simp add: inj_map_eq_map)
qed

lemma base_list_det:
  fixes e1 e2 :: "('l, 'i) Engine"
  assumes "engine_ok e1" and "engine_ok e2" and "base_beliefs e1 = base_beliefs e2"
  shows "base_list e1 = base_list e2"
proof -
  let ?f = "\<lambda>(e :: ('l, 'i) Engine) a. filter base_belief (Snapshot a (e_beliefs e))"
  have base: "{b \<in> store_beliefs (e_beliefs e1). base_belief b} = {b \<in> store_beliefs (e_beliefs e2). base_belief b}"
    using assms(3) by (simp add: base_beliefs_def beliefs_of_def base_belief_def)
  have f: "?f e1 a = ?f e2 a" for a
    using base_slot_det [OF engine_okD(2) [OF assms(1)] engine_okD(2) [OF assms(2)] base] by (simp add: Snapshot_slots)
  have list: "base_list e = concat (map (?f e) (filter (\<lambda>a. ?f e a \<noteq> []) (Atoms (e_beliefs e))))" for e :: "('l, 'i) Engine"
    using concat_map_filter [of "?f e"] by (simp add: base_list_def filter_concat comp_def base_belief_def [abs_def])
  have atoms: "set (filter (\<lambda>a. ?f e a \<noteq> []) (Atoms (e_beliefs e))) = bAtom ` {b \<in> store_beliefs (e_beliefs e). base_belief b}"
    if "engine_ok e" for e :: "('l, 'i) Engine"
  proof (intro set_eqI iffI)
    fix a
    assume "a \<in> set (filter (\<lambda>a. ?f e a \<noteq> []) (Atoms (e_beliefs e)))"
    then obtain b where "b \<in> set (Snapshot a (e_beliefs e))" and "base_belief b"
      by (auto simp: filter_empty_conv)
    then show "a \<in> bAtom ` {b \<in> store_beliefs (e_beliefs e). base_belief b}"
      using engine_okD(2) [OF that] by (auto simp: mem_Snapshot)
  qed (use engine_okD(1,2) [OF that] in \<open>auto simp: filter_empty_conv set_Atoms mem_Snapshot\<close>)
  have "filter (\<lambda>a. ?f e1 a \<noteq> []) (Atoms (e_beliefs e1)) = filter (\<lambda>a. ?f e2 a \<noteq> []) (Atoms (e_beliefs e2))"
  proof (rule sorted_atoms_det)
    show "sorted_wrt atom_less (filter (\<lambda>a. ?f e1 a \<noteq> []) (Atoms (e_beliefs e1)))"
      "sorted_wrt atom_less (filter (\<lambda>a. ?f e2 a \<noteq> []) (Atoms (e_beliefs e2)))"
      using assms(1,2) by (simp_all add: sorted_wrt_filter sorted_Atoms engine_okD)
  qed (simp only: atoms [OF assms(1)] atoms [OF assms(2)] base)
  then show ?thesis
    unfolding list [of e1] list [of e2] by (simp add: f)
qed

lemma recompute_det:
  fixes e1 e2 :: "('l, 'i) Engine"
  assumes "engine_ok e1" and "engine_ok e2" and "told e1 = told e2"
  shows "core (recompute e1) = core (recompute e2)"
proof -
  have t: "base_beliefs e1 = base_beliefs e2" "e_rules e1 = e_rules e2"
    "\<And>a. Resolution_of a (e_beliefs e1) = Resolution_of a (e_beliefs e2)"
    using assms(3) by (simp_all add: told_def fun_eq_iff)
  have "core (set_resolutions rs (cleared e1)) = core (set_resolutions rs (cleared e2))" for rs
    by (simp add: set_resolutions_eq cleared_def core_def t(2))
  then have "set_resolutions rs (cleared e1) =
      frame (e_log e1) (e_inducer e1) (e_ilpAudit e1) (e_metrics e1) (set_resolutions rs (cleared e2))" for rs
    using core_frame by (fastforce simp: set_resolutions_eq cleared_def)
  then show ?thesis
    using base_list_det [OF assms(1,2) t(1)] Resolutions_det [OF engine_okD(3) [OF assms(1)] engine_okD(3) [OF assms(2)] t(3)]
    by (simp add: recompute_cleared ingest_all_frame ApplyRules_frame)
qed

section \<open>Replaying over the abstraction\<close>

definition empty_told :: told where
  "empty_told = ({}, Map.empty, [])"

text \<open>What one record of the log adds, or none where the callback refuses it.\<close>

definition told_event :: "Record \<Rightarrow> told \<Rightarrow> told option" where
  "told_event r t =
     (case t of (B, R, rs) \<Rightarrow>
        if recType r = EventFactAdded then
          (case decodeBelief (recPayload r) of
             Inl _ \<Rightarrow> None
           | Inr b \<Rightarrow> if valid_belief b then Some (if base_belief b then insert b B else B, R, rs) else None)
        else if recType r = EventResolutionSet then
          (case decodeResolution (recPayload r) of
             Inl _ \<Rightarrow> None
           | Inr res \<Rightarrow> if valid_resolution res then Some (B, R(rAtom res \<mapsto> res), rs) else None)
        else if recType r = EventRuleAdded then
          (case decodeRule (recPayload r) of Inl _ \<Rightarrow> None | Inr ru \<Rightarrow> Some (B, R, rs @ [ru]))
        else Some (B, R, rs))"

fun told_events :: "Record list \<Rightarrow> told \<Rightarrow> told option" where
  "told_events [] t = Some t"
| "told_events (r # rs) t = (case told_event r t of None \<Rightarrow> None | Some t' \<Rightarrow> told_events rs t')"

lemma told_events_append:
  "told_events (rs @ rs') t = (case told_events rs t of None \<Rightarrow> None | Some t' \<Rightarrow> told_events rs' t')"
  by (induction rs arbitrary: t) (simp_all split: option.split)

lemma told_ingest:
  assumes "engine_ok e" and "valid_belief b"
  shows "told (snd (ingestNoLog b e)) =
    (if base_belief b then insert b (base_beliefs e) else base_beliefs e, \<lambda>a. Resolution_of a (e_beliefs e), e_rules e)"
  using assms
  by (auto simp: told_def base_beliefs_def beliefs_of_ingest base_belief_def engine_simps Resolution_of_Add engine_okD fun_eq_iff)

lemma Resolution_of_New [simp]: "Resolution_of a NewStore = None"
  by (simp add: Resolution_of_def NewStore_def)

lemma told_set_resolution:
  assumes "valid_resolution r"
  shows "told (set_resolution r e) = (base_beliefs e, (\<lambda>a. Resolution_of a (e_beliefs e))(rAtom r \<mapsto> r), e_rules e)"
  using assms by (auto simp: told_def SetResolution_lookup fun_eq_iff)

lemma told_add_rule: "told (add_rule r e) = (base_beliefs e, \<lambda>a. Resolution_of a (e_beliefs e), e_rules e @ [r])"
  by (simp add: told_def)

lemma replay_event_told:
  assumes "engine_ok e"
  shows "case told_event r (told e) of
      None \<Rightarrow> fst (replay_event r e) \<noteq> None
    | Some t \<Rightarrow> fst (replay_event r e) = None \<and> told (snd (replay_event r e)) = t"
proof -
  have fact: "(case ingestNoLog b e of (Inl err, e') \<Rightarrow> (Some err, e') | (Inr _, e') \<Rightarrow> (None, e')) =
      (if valid_belief b then (None, snd (ingestNoLog b e))
       else (Some (projl (fst (Add b (e_beliefs e)))), snd (ingestNoLog b e)))" for b
    using ingestNoLog_result [of b e] Add_Inr_iff [of b "e_beliefs e"]
    by (cases "ingestNoLog b e"; cases "fst (ingestNoLog b e)") auto
  have res: "(case SetResolution q (e_beliefs e) of (err, s) \<Rightarrow> (err, e\<lparr>e_beliefs := s\<rparr>)) =
      (check_fields (rAtom q) (rSource q) (rPolarity q), set_resolution q e)" for q
    using SetResolution_result [of q "e_beliefs e"] by (simp add: set_resolution_def split_beta)
  have rule: "e\<lparr>e_rules := e_rules e @ [ru]\<rparr> = add_rule ru e" for ru
    by (simp add: add_rule_def)
  show ?thesis
    unfolding replay_event_def fact res rule
    using told_ingest [OF assms] told_set_resolution [of _ e] told_add_rule [of _ e]
    by (auto simp: told_event_def told_def [of e] valid_resolution_def split: sum.splits if_splits)
qed

lemma replay_records_told:
  "engine_ok e \<Longrightarrow>
    (case told_events rs (told e) of
       None \<Rightarrow> fst (replay_records replay_event rs None e) \<noteq> None
     | Some t \<Rightarrow> fst (replay_records replay_event rs None e) = None \<and> told (snd (replay_records replay_event rs None e)) = t)"
proof (induction rs arbitrary: e)
  case (Cons r rs)
  obtain err e' where r: "replay_event r e = (err, e')" by fastforce
  have ok: "engine_ok e'"
    using replay_event_ok [OF Cons.prems, of r] by (simp add: r)
  show ?case
  proof (cases err)
    case None
    then have run: "replay_records replay_event (r # rs) None e = replay_records replay_event rs None e'"
      by (simp add: r)
    show ?thesis
      using replay_event_told [OF Cons.prems, of r] Cons.IH [OF ok] None
      unfolding run by (cases "told_event r (told e)") (simp_all add: r)
  next
    case (Some x)
    then show ?thesis
      using replay_event_told [OF Cons.prems, of r] by (cases "told_event r (told e)") (simp_all add: r)
  qed
qed simp

text \<open>Replaying a log that tells the same restores what was told, and with it the whole core.\<close>

lemma ReplayFromLog_told:
  fixes e e0 :: "('l, 'i) Engine"
  assumes "engine_ok e0" and "e_log e0 = Some l" and "log_Replay env l = (rs, None)"
  shows "case told_events rs empty_told of
      None \<Rightarrow> fst (ReplayFromLog env e0) \<noteq> None
    | Some t \<Rightarrow> fst (ReplayFromLog env e0) = None \<and> told (snd (ReplayFromLog env e0)) = t \<and>
        (\<forall>e :: ('l, 'i) Engine. engine_ok e \<longrightarrow> told e = t \<longrightarrow>
           core (snd (ReplayFromLog env e0)) = core (recompute e))"
proof -
  have ok: "engine_ok (wiped e0)"
    using assms(1) by (rule engine_ok_wiped)
  have "told (wiped e0) = empty_told"
    by (simp add: told_def wiped_def empty_told_def base_beliefs_def beliefs_of_def )
  note t = replay_records_told [OF ok, of rs, unfolded this]
  obtain err e2 where r: "replay_records replay_event rs None (wiped e0) = (err, e2)" by fastforce
  have ok2: "engine_ok e2"
    using replay_records_ok [OF ok, of rs None] by (simp add: r)
  have "told (recompute e2) = told e2"
    using recompute_fields [OF ok2] by (simp add: told_def)
  moreover have "ReplayFromLog env e0 = (case err of Some x \<Rightarrow> (Some x, e2) | None \<Rightarrow> (None, recompute e2))"
    by (simp add: ReplayFromLog_cases assms r)
  ultimately show ?thesis
    using t recompute_det [OF ok2] by (cases "told_events rs empty_told"; cases err) (simp_all add: r)
qed

section \<open>What the operations write\<close>

lemma told_ApplyRules [simp]: "engine_ok e \<Longrightarrow> told (ApplyRules n e) = told e"
  by (simp add: told_def)

lemma told_recompute [simp]: "engine_ok e \<Longrightarrow> told (recompute e) = told e"
  by (simp add: told_def)

lemma Resolve_log:
  "fst (SetResolution r (e_beliefs e)) = None \<Longrightarrow>
    e_log (snd (Resolve env r e)) = snd (log_write env EventResolutionSet (encodeResolution r) (e_log e))"
  by (simp add: Resolve_def log_event_write split_beta Let_def split: option.split)

lemma AddRule_log:
  "valid_rule r \<Longrightarrow> e_log (snd (AddRule env r e)) = snd (log_write env EventRuleAdded (encodeRule r) (e_log e))"
  by (simp add: AddRule_def log_event_write valid_rule_def split: option.split)

lemma told_Ingest:
  fixes e :: "('l, 'i) Engine"
  assumes "engine_ok e"
  shows "told (snd (Ingest env b e)) = told (snd (ingestNoLog b e))"
proof (cases "fst (Ingest env b e)")
  case (Inl err)
  then show ?thesis by (intro told_core) (simp add: Ingest_core)
next
  case (Inr res)
  then have "told (snd (Ingest env b e)) = told (ApplyRules 1000 (snd (ingestNoLog b e)))"
    by (intro told_core) (simp add: Ingest_core)
  then show ?thesis using engine_ok_ingest [OF assms] by simp
qed

lemma refused_Ingest:
  assumes "engine_ok e" and "\<not> valid_belief b"
  shows "e_log (snd (Ingest env b e)) = e_log e \<and> told (snd (Ingest env b e)) = told e"
proof -
  obtain err where err: "fst (Add b (e_beliefs e)) = Inl err"
    using Add_Inr_iff [of b "e_beliefs e"] assms(2) by (cases "fst (Add b (e_beliefs e))") auto
  have "told (snd (Ingest env b e)) = told e"
    using assms by (simp add: told_Ingest) (simp add: told_def base_beliefs_def beliefs_of_ingest engine_simps Resolution_of_Add engine_okD)
  moreover have "fst (ingestNoLog b (snd (engine_Now e))) = Inl err"
    using err by (simp add: ingestNoLog_result)
  then have "e_log (snd (Ingest env b e)) = e_log e"
    by (simp add: Ingest_def split_beta)
  ultimately show ?thesis by simp
qed

section \<open>The life of an engine with a log\<close>

text \<open>
  An engine that was made with a log, and whose operations succeeded: a belief that is not valid may
  be refused, but the log never fails, and every rule has a conclusion with an object.
\<close>

inductive recorded :: "('l, 'i) env \<Rightarrow> 'l \<Rightarrow> ('l, 'i) Engine \<Rightarrow> bool" for env l0 where
  rec_new: "New clock [WithLog (Some l0), WithInducer i] = Inr e \<Longrightarrow> recorded env l0 e"
| rec_ingest: "recorded env l0 e \<Longrightarrow> Ingest env b e = (Inr res, e') \<Longrightarrow> recorded env l0 e'"
| rec_refused: "recorded env l0 e \<Longrightarrow> \<not> valid_belief b \<Longrightarrow> recorded env l0 (snd (Ingest env b e))"
| rec_resolve: "recorded env l0 e \<Longrightarrow> Resolve env r e = (None, e') \<Longrightarrow> recorded env l0 e'"
| rec_add_rule: "recorded env l0 e \<Longrightarrow> AddRule env ru e = (None, e') \<Longrightarrow> pTo (rThen ru) \<noteq> [] \<Longrightarrow> recorded env l0 e'"
| rec_apply: "recorded env l0 e \<Longrightarrow> recorded env l0 (ApplyRules n e)"
| rec_evaluate: "recorded env l0 e \<Longrightarrow> recorded env l0 (snd (Evaluate a e))"

lemma New_logged: "New clock [WithLog (Some l), WithInducer i] = Inr ((empty_engine clock)\<lparr>e_log := Some l, e_inducer := i\<rparr>)"
  by (simp add: New_def WithLog_def WithInducer_def split: option.split)

lemma New_logged_ok:
  fixes e :: "('l, 'i) Engine"
  assumes "New clock [WithLog (Some l), WithInducer i] = Inr e"
  shows "engine_ok e" "e_log e = Some l" "told e = empty_told"
proof -
  let ?e = "empty_engine clock :: ('l, 'i) Engine"
  have e: "e = ?e\<lparr>e_log := Some l, e_inducer := i\<rparr>"
    using assms by (simp add: New_logged)
  then have core: "core ?e = core e" and "e_metrics e = e_metrics ?e"
    by (simp_all add: core_def)
  then show "engine_ok e"
    using engine_ok_core [OF core] engine_okD(7) [of ?e] by (simp add: empty_engine_ok)
  show "e_log e = Some l" by (simp add: e)
  show "told e = empty_told"
    unfolding told_core [OF core, symmetric]
    by (simp add: told_def empty_engine_def empty_told_def base_beliefs_def beliefs_of_def)
qed

text \<open>The part of the log's contract that the engine relies on.\<close>

locale engine_log = record_log "log_Append env" "log_Replay env" inv storable
  for env :: "('l, 'i) env" and inv :: "'l \<Rightarrow> bool" and storable :: "Record \<Rightarrow> bool"
begin

text \<open>The log of the engine tells what the engine was told.\<close>

definition tells :: "('l, 'i) Engine \<Rightarrow> bool" where
  "tells e \<longleftrightarrow> engine_ok e \<and>
     (\<exists>l. e_log e = Some l \<and> inv l \<and> told_events (fst (log_Replay env l)) empty_told = Some (told e))"

lemma written:
  assumes "inv l" and "log_write env ty enc (Some l) = (None, lo)"
  shows "\<exists>p l'. enc = Inr p \<and> lo = Some l' \<and> inv l' \<and>
    log_Replay env l' = (fst (log_Replay env l) @ [\<lparr>recType = ty, recPayload = p\<rparr>], None)"
proof -
  obtain p where p: "enc = Inr p"
    using assms(2) by (cases enc) (auto simp: log_write_def)
  let ?r = "\<lparr>recType = ty, recPayload = p\<rparr>"
  have ok: "fst (log_Append env ?r l) = None" and lo: "lo = Some (snd (log_Append env ?r l))"
    using assms(2) by (auto simp: log_write_def p map_prod_def split_beta prod_eq_iff)
  then have "storable ?r"
    using append_refuses [OF assms(1)] by blast
  then show ?thesis
    using append_stores [OF assms(1)] append_inv [OF assms(1)] p lo by auto
qed

lemma tells_write:
  assumes "tells e" and "engine_ok e'" and "log_write env ty enc (e_log e) = (None, e_log e')"
    and "\<And>p. enc = Inr p \<Longrightarrow> told_event \<lparr>recType = ty, recPayload = p\<rparr> (told e) = Some (told e')"
  shows "tells e'"
proof -
  obtain l where l: "e_log e = Some l" "inv l" "told_events (fst (log_Replay env l)) empty_told = Some (told e)"
    using assms(1) by (auto simp: tells_def)
  then show ?thesis
    using written [OF l(2), of ty enc "e_log e'"] assms(2-4) by (auto simp: tells_def told_events_append)
qed

lemma tells_same:
  "tells e \<Longrightarrow> engine_ok e' \<Longrightarrow> e_log e' = e_log e \<Longrightarrow> told e' = told e \<Longrightarrow> tells e'"
  by (simp add: tells_def)

lemma tells_Ingest:
  assumes "tells e" and "Ingest env b e = (Inr res, e')"
  shows "tells e'"
proof -
  have ok: "engine_ok e" using assms(1) by (simp add: tells_def)
  have e': "fst (Ingest env b e) = Inr res" "snd (Ingest env b e) = e'" using assms(2) by simp_all
  obtain c where c: "fst (Add b (e_beliefs e)) = Inr c"
      and w: "fst (log_write env EventFactAdded (encodeBelief b) (e_log e)) = None"
    using e'(1) by (auto simp: Ingest_result split: sum.splits option.splits)
  have valid: "valid_belief b" using c Add_Inr_iff by blast
  have "told e' = told (snd (ingestNoLog b e))"
    using told_Ingest [OF ok, of env b] e'(2) by simp
  then show ?thesis
    using engine_ok_Ingest [OF ok, of env b] Ingest_log [OF ok c, of env] w valid
    by (intro tells_write [OF assms(1), of e' EventFactAdded "encodeBelief b"])
      (auto simp: e'(2) prod_eq_iff told_event_def told_def [of e] told_ingest [OF ok valid] decode_encodeBelief)
qed

lemma tells_Resolve:
  assumes "tells e" and "Resolve env r e = (None, e')"
  shows "tells e'"
proof -
  have ok: "engine_ok e" using assms(1) by (simp add: tells_def)
  have e': "fst (Resolve env r e) = None" "snd (Resolve env r e) = e'" using assms(2) by simp_all
  have set: "fst (SetResolution r (e_beliefs e)) = None"
      and w: "fst (log_write env EventResolutionSet (encodeResolution r) (e_log e)) = None"
    using e'(1) by (simp_all add: Resolve_result split: option.splits)
  have valid: "valid_resolution r" using set by (simp add: SetResolution_result valid_resolution_def)
  have "told e' = told (set_resolution r e)"
    using told_core [OF Resolve_core [of env r e, unfolded e', simplified]] engine_ok_set_resolution [OF ok] by simp
  moreover have "decodeResolution p = Inr r" if "encodeResolution r = Inr p" for p
    using that decodeResolution_iff by blast
  ultimately show ?thesis
    using engine_ok_Resolve [OF ok, of env r] Resolve_log [OF set, of env] w valid
    by (intro tells_write [OF assms(1), of e' EventResolutionSet "encodeResolution r"])
      (auto simp: e'(2) prod_eq_iff told_event_def told_def [of e] told_set_resolution [OF valid])
qed

lemma tells_AddRule:
  assumes "tells e" and "AddRule env ru e = (None, e')" and "pTo (rThen ru) \<noteq> []"
  shows "tells e'"
proof -
  have ok: "engine_ok e" using assms(1) by (simp add: tells_def)
  have e': "fst (AddRule env ru e) = None" "snd (AddRule env ru e) = e'" using assms(2) by simp_all
  have valid: "valid_rule ru" and w: "fst (log_write env EventRuleAdded (encodeRule ru) (e_log e)) = None"
    using e'(1) by (simp_all add: AddRule_result valid_rule_def split: if_splits)
  have "told e' = told (add_rule ru e)"
    using told_core [of e' "ApplyRules 1000 (add_rule ru e)"] AddRule_core [of env ru e] ok valid by (simp add: e')
  then show ?thesis
    using engine_ok_AddRule [OF ok, of env ru] AddRule_log [OF valid, of env e] w assms(3)
    by (intro tells_write [OF assms(1), of e' EventRuleAdded "encodeRule ru"])
      (auto simp: e'(2) prod_eq_iff told_event_def told_def [of e] told_add_rule decode_encodeRule)
qed

lemma recorded_tells:
  assumes "inv l0" and "log_Replay env l0 = ([], None)" and "recorded env l0 e"
  shows "tells e"
  using assms(3)
proof (induction rule: recorded.induct)
  case (rec_new clock i e)
  then show ?case
    using New_logged_ok [OF rec_new] assms(1,2) by (simp add: tells_def)
next
  case (rec_refused e b)
  then show ?case
    using refused_Ingest [of e b env] engine_ok_Ingest [of e env b] tells_same [of e] by (simp add: tells_def)
next
  case (rec_apply e n)
  then show ?case
    by (auto intro!: tells_same [of e] simp: tells_def engine_ok_ApplyRules)
next
  case (rec_evaluate e a)
  have ok: "engine_ok e" using rec_evaluate.IH by (simp add: tells_def)
  have "told (snd (Evaluate a e)) = told e" by (rule told_core) simp
  then show ?case
    using tells_same [OF rec_evaluate.IH] engine_ok_Evaluate [OF ok, of a] by simp
qed (use tells_Ingest tells_Resolve tells_AddRule in blast)+

text \<open>A rule whose conclusion has no object is written, and no replay gets past it.\<close>

lemma objectless_rule:
  assumes "tells e" and "AddRule env ru e = (None, e')" and "pTo (rThen ru) = []"
  shows "\<exists>l'. e_log e' = Some l' \<and> inv l' \<and> told_events (fst (log_Replay env l')) empty_told = None"
proof -
  obtain l where l: "e_log e = Some l" "inv l" "told_events (fst (log_Replay env l)) empty_told = Some (told e)"
    using assms(1) by (auto simp: tells_def)
  have e': "fst (AddRule env ru e) = None" "snd (AddRule env ru e) = e'" using assms(2) by simp_all
  have valid: "valid_rule ru" and w: "fst (log_write env EventRuleAdded (encodeRule ru) (e_log e)) = None"
    using e'(1) by (simp_all add: AddRule_result valid_rule_def split: if_splits)
  have "log_write env EventRuleAdded (encodeRule ru) (Some l) = (None, e_log e')"
    using AddRule_log [OF valid, of env e] w l(1) e'(2) by (simp add: prod_eq_iff)
  then obtain p l' where "encodeRule ru = Inr p" "e_log e' = Some l'" "inv l'"
      "log_Replay env l' = (fst (log_Replay env l) @ [\<lparr>recType = EventRuleAdded, recPayload = p\<rparr>], None)"
    using written [OF l(2)] by blast
  then show ?thesis
    using assms(3) l(3) by (auto simp: told_events_append told_event_def decode_encodeRule split: prod.split)
qed

text \<open>A new engine that replays the same records ends like the recorded one after a rebuild.\<close>

lemma replay_recorded:
  assumes "inv l0" and "log_Replay env l0 = ([], None)" and "recorded env l0 e" and "e_log e = Some l"
    and "New clock [WithLog (Some l'), WithInducer i] = Inr e0" and "log_Replay env l' = log_Replay env l"
  shows "fst (ReplayFromLog env e0) = None \<and> told (snd (ReplayFromLog env e0)) = told e \<and>
    core (snd (ReplayFromLog env e0)) = core (recompute e)"
proof -
  have t: "engine_ok e" "inv l" "told_events (fst (log_Replay env l)) empty_told = Some (told e)"
    using recorded_tells [OF assms(1-3)] assms(4) by (auto simp: tells_def)
  have "log_Replay env l' = (fst (log_Replay env l), None)"
    using assms(6) records_sound [OF t(2)] by (simp add: prod_eq_iff)
  from ReplayFromLog_told [OF New_logged_ok(1,2) [OF assms(5)] this] t(1,3) show ?thesis by auto
qed

end

section \<open>The write-ahead log as the log of an engine\<close>

definition wal_env :: "(Example \<Rightarrow> 'i \<Rightarrow> Suggestion list \<times> 'i) \<Rightarrow> (WAL \<times> filesys, 'i) env" where
  "wal_env obs = \<lparr>log_Append = wal_Append no_fault, log_Replay = wal_records, ind_Observe = obs\<rparr>"

lemma wal_env_simps [simp]:
  "log_Append (wal_env obs) = wal_Append no_fault" "log_Replay (wal_env obs) = wal_records"
  by (simp_all add: wal_env_def)

interpretation wal_engine: engine_log "wal_env obs" wal_sound wal_storable for obs
  by (rule engine_log.intro) (simp add: wal_log.record_log_axioms)

lemma created_log:
  assumes "CreateWAL None path fs = Inr l0"
  shows "wal_sound l0" "wal_records l0 = ([], None)"
proof -
  have l0: "wal_open l0" "wal_content l0 = []"
    using CreateWAL_open [OF assms] by simp_all
  then show "wal_sound l0" by (rule wal_sound_Nil)
  show "wal_records l0 = ([], None)"
    using l0 wal_scan_whole [of "[]"] by (simp add: wal_records_scan wal_open_def)
qed

text \<open>A concrete life: a log, an engine on it, one belief, and a restart.\<close>

definition ex_wal :: "WAL \<times> filesys" where
  "ex_wal = projr (CreateWAL None ''nan.wal'' Map.empty)"

definition ex_obs :: "Example \<Rightarrow> unit \<Rightarrow> Suggestion list \<times> unit" where
  "ex_obs x i = ([], i)"

definition ex_new :: "WAL \<times> filesys \<Rightarrow> (WAL \<times> filesys, unit) Engine" where
  "ex_new l = projr (New (\<lambda>_. 0) [WithLog (Some l), WithInducer None])"

definition ex_life :: "(WAL \<times> filesys, unit) Engine" where
  "ex_life = snd (Ingest (wal_env ex_obs) (ex_fact ''a'' ''b'') (ex_new ex_wal))"

definition reopened :: "WAL \<times> filesys \<Rightarrow> WAL \<times> filesys" where
  "reopened l = projr (OpenWAL None (w_path (fst l)) (snd l))"

lemma ex_wal_created: "CreateWAL None ''nan.wal'' Map.empty = Inr ex_wal"
  by (simp add: ex_wal_def CreateWAL_def)

lemma ex_new_New: "New (\<lambda>_. 0) [WithLog (Some l), WithInducer None] = Inr (ex_new l)"
  by (simp add: ex_new_def New_logged)

lemma reopened_OpenWAL: "OpenWAL None (w_path (fst l)) (snd l) = Inr (reopened l)"
  by (simp add: reopened_def OpenWAL_def)

lemma ex_life_recorded: "recorded (wal_env ex_obs) ex_wal ex_life"
proof -
  obtain p where p: "encodeBelief (ex_fact ''a'' ''b'') = Inr p" and "length p < 100"
    by (simp add: encodeBelief_def too_large_def ex_fact_def write_field_def)
  then have "wal_storable \<lparr>recType = EventFactAdded, recPayload = p\<rparr>"
    by (simp add: wal_storable_def fits_def)
  then have "fst (wal_Append no_fault \<lparr>recType = EventFactAdded, recPayload = p\<rparr> ex_wal) = None"
    using wal_log.append_stores [OF created_log(1) [OF ex_wal_created]] by blast
  then have w: "fst (log_write (wal_env ex_obs) EventFactAdded (encodeBelief (ex_fact ''a'' ''b'')) (e_log (ex_new ex_wal))) = None"
    by (simp add: log_write_def p New_logged_ok(2) [OF ex_new_New])
  obtain c where "fst (Add (ex_fact ''a'' ''b'') (e_beliefs (ex_new ex_wal))) = Inr c"
    using Add_Inr_iff ex_fact_valid [of "''a''" "''b''"] by blast
  with w have "Ingest (wal_env ex_obs) (ex_fact ''a'' ''b'') (ex_new ex_wal) = (Inr \<lparr>ir_contradiction = c\<rparr>, ex_life)"
    by (simp add: ex_life_def prod_eq_iff Ingest_result)
  with rec_new [OF ex_new_New] show ?thesis by (rule rec_ingest)
qed

lemma ex_life_log: "\<exists>l. e_log ex_life = Some l"
  using wal_engine.recorded_tells [OF created_log(1) [OF ex_wal_created] _ ex_life_recorded] created_log(2) [OF ex_wal_created]
  by (auto simp: wal_engine.tells_def)

lemma ex_life_told: "base_beliefs ex_life = {ex_fact ''a'' ''b''}"
proof -
  have ok: "engine_ok (ex_new ex_wal)" by (rule New_logged_ok(1) [OF ex_new_New])
  have valid: "valid_belief (ex_fact ''a'' ''b'')" by (rule ex_fact_valid) simp_all
  have "base_beliefs (ex_new ex_wal) = {}"
    using New_logged_ok(3) [OF ex_new_New, of ex_wal] by (simp add: told_def empty_told_def)
  then have ing: "base_beliefs (snd (ingestNoLog (ex_fact ''a'' ''b'') (ex_new ex_wal))) = {ex_fact ''a'' ''b''}"
    using told_ingest [OF ok valid] ex_plain_source by (simp add: told_def base_belief_def)
  show ?thesis
    using told_Ingest [OF ok, of "wal_env ex_obs" "ex_fact ''a'' ''b''"] ing by (simp add: ex_life_def told_def)
qed

definition ex_objectless :: Rule where
  "ex_objectless = \<lparr>rName = ''bad'', rIf = [mk_pat ''?x'' ''isa'' ''?y''], rThen = mk_pat ''?x'' ''is'' []\<rparr>"

lemma ex_objectless_added: "\<exists>e'. AddRule (wal_env ex_obs) ex_objectless (ex_new ex_wal) = (None, e')"
proof -
  obtain p where p: "encodeRule ex_objectless = Inr p" and "length p < 100"
    by (simp add: encodeRule_def writePattern_def too_large_def ex_objectless_def write_field_def)
  then have "wal_storable \<lparr>recType = EventRuleAdded, recPayload = p\<rparr>"
    by (simp add: wal_storable_def fits_def)
  then have "fst (wal_Append no_fault \<lparr>recType = EventRuleAdded, recPayload = p\<rparr> ex_wal) = None"
    using wal_log.append_stores [OF created_log(1) [OF ex_wal_created]] by blast
  then have "fst (AddRule (wal_env ex_obs) ex_objectless (ex_new ex_wal)) = None"
    by (simp add: AddRule_result log_write_def p New_logged_ok(2) [OF ex_new_New]) (simp add: ex_objectless_def)
  then show ?thesis by (metis prod.collapse)
qed

section \<open>Properties\<close>

text \<open>
  C9: Nothing is lost over a restart. An engine that was made on a new write-ahead log, and whose
  operations succeeded, is restored by \<open>ReplayFromLog\<close> in a new engine on the reopened log: the replay
  reports no error, the beliefs that are not derived, the resolutions and the rules are those of the
  old engine, and graph, beliefs, index, derivations and their orders are what a rebuild of the old
  engine makes of these.
\<close>

theorem replay_restores:
  assumes "CreateWAL None path fs = Inr l0" and "recorded (wal_env obs) l0 e" and "e_log e = Some l"
    and "OpenWAL None (w_path (fst l)) (snd l) = Inr l'" and "New clock [WithLog (Some l'), WithInducer i] = Inr e0"
  shows "fst (ReplayFromLog (wal_env obs) e0) = None \<and>
    told (snd (ReplayFromLog (wal_env obs) e0)) = told e \<and>
    core (snd (ReplayFromLog (wal_env obs) e0)) = core (recompute e)"
proof -
  have "wal_sound l"
    using wal_engine.recorded_tells [of l0 obs e] created_log [OF assms(1)] assms(2,3)
    by (auto simp: wal_engine.tells_def)
  then have "log_Replay (wal_env obs) l' = log_Replay (wal_env obs) l"
    using wal_sound_reopen [OF _ assms(4)] by simp
  from wal_engine.replay_recorded [OF _ _ assms(2,3,5) this] created_log [OF assms(1)] show ?thesis by simp
qed

theorem replay_restores_witness:
  "base_beliefs (snd (ReplayFromLog (wal_env ex_obs) (ex_new (reopened (the (e_log ex_life)))))) = {ex_fact ''a'' ''b''}"
proof -
  obtain l where l: "e_log ex_life = Some l" using ex_life_log by blast
  from replay_restores [OF ex_wal_created ex_life_recorded l reopened_OpenWAL ex_new_New] ex_life_told show ?thesis
    by (simp add: l told_def)
qed

text \<open>
  C21: A rule whose conclusion has no object poisons the log. \<open>AddRule\<close> accepts it and writes it, and
  from then on no engine can be restored from the log: \<open>ReplayFromLog\<close> stops at the rule with an error.
\<close>

theorem objectless_rule_blocks_replay:
  assumes "CreateWAL None path fs = Inr l0" and "recorded (wal_env obs) l0 e"
    and "AddRule (wal_env obs) ru e = (None, e')" and "pTo (rThen ru) = []" and "e_log e' = Some l"
    and "OpenWAL None (w_path (fst l)) (snd l) = Inr l'" and "New clock [WithLog (Some l'), WithInducer i] = Inr e0"
  shows "fst (ReplayFromLog (wal_env obs) e0) \<noteq> None"
proof -
  have "wal_engine.tells obs e"
    using wal_engine.recorded_tells created_log [OF assms(1)] assms(2) by simp
  then have l: "wal_sound l" "told_events (fst (wal_records l)) empty_told = None"
    using wal_engine.objectless_rule [OF _ assms(3,4)] assms(5) by auto
  then have "wal_records l' = (fst (wal_records l), None)"
    using wal_sound_reopen [OF l(1) assms(6)] wal_log.records_sound [OF l(1)] by (simp add: prod_eq_iff)
  then show ?thesis
    using ReplayFromLog_told [OF New_logged_ok(1,2) [OF assms(7)], of "wal_env obs"] l(2) by simp
qed

theorem objectless_rule_blocks_replay_witness:
  "\<exists>e' l. AddRule (wal_env ex_obs) ex_objectless (ex_new ex_wal) = (None, e') \<and> e_log e' = Some l \<and>
     fst (ReplayFromLog (wal_env ex_obs) (ex_new (reopened l))) \<noteq> None"
proof -
  obtain e' where e': "AddRule (wal_env ex_obs) ex_objectless (ex_new ex_wal) = (None, e')"
    using ex_objectless_added by blast
  obtain l where l: "e_log e' = Some l"
    using wal_engine.objectless_rule [OF _ e'] wal_engine.recorded_tells [OF _ _ rec_new [OF ex_new_New]]
      created_log [OF ex_wal_created] by (auto simp: ex_objectless_def)
  from objectless_rule_blocks_replay [OF ex_wal_created rec_new [OF ex_new_New] e' _ l reopened_OpenWAL ex_new_New]
  have "fst (ReplayFromLog (wal_env ex_obs) (ex_new (reopened l))) \<noteq> None"
    by (simp add: ex_objectless_def)
  with e' l show ?thesis by blast
qed

end
