(* ===== verification/Canonical.thy ===== *)
theory Canonical
  imports Engine_Replay
begin

text \<open>
  \<open>canonical.go\<close>: the listings of an engine's beliefs, resolutions and rules that do not depend on
  how it came by them. The comparison of beliefs goes by the key of the atom, which is injective only
  where no field holds a bar; that the listing is determined all the same follows from the order in
  which the store hands its beliefs out.
\<close>

section \<open>The comparisons\<close>

definition canonical_less :: "Belief \<Rightarrow> Belief \<Rightarrow> bool" where
  "canonical_less x y =
     (if atomKey (bAtom x) \<noteq> atomKey (bAtom y) then atomKey (bAtom x) < atomKey (bAtom y)
      else if bPolarity x \<noteq> bPolarity y then bPolarity x < bPolarity y
      else if bUnixNano x \<noteq> bUnixNano y then sint (bUnixNano x) < sint (bUnixNano y)
      else bSource x < bSource y)"

definition canonical_resolution_less :: "Resolution \<Rightarrow> Resolution \<Rightarrow> bool" where
  "canonical_resolution_less x y =
     (if atomKey (rAtom x) \<noteq> atomKey (rAtom y) then atomKey (rAtom x) < atomKey (rAtom y)
      else if rPolarity x \<noteq> rPolarity y then rPolarity x < rPolarity y
      else if rUnixNano x \<noteq> rUnixNano y then sint (rUnixNano x) < sint (rUnixNano y)
      else rSource x < rSource y)"

text \<open>The loop over the premises decides, or falls through where one list is a prefix of the other.\<close>

fun rule_premises_less :: "AtomPattern list \<Rightarrow> AtomPattern list \<Rightarrow> bool option" where
  "rule_premises_less (x # xs) (y # ys) =
     (if pFrom x \<noteq> pFrom y then Some (pFrom x < pFrom y)
      else if pPred x \<noteq> pPred y then Some (pPred x < pPred y)
      else if pTo x \<noteq> pTo y then Some (pTo x < pTo y)
      else rule_premises_less xs ys)"
| "rule_premises_less xs ys = None"

definition rule_less :: "Rule \<Rightarrow> Rule \<Rightarrow> bool" where
  "rule_less x y =
     (if rName x \<noteq> rName y then rName x < rName y
      else
        case rule_premises_less (rIf x) (rIf y) of
          Some b \<Rightarrow> b
        | None \<Rightarrow>
            if length (rIf x) \<noteq> length (rIf y) then length (rIf x) < length (rIf y)
            else if pFrom (rThen x) \<noteq> pFrom (rThen y) then pFrom (rThen x) < pFrom (rThen y)
            else if pPred (rThen x) \<noteq> pPred (rThen y) then pPred (rThen x) < pPred (rThen y)
            else pTo (rThen x) < pTo (rThen y))"

section \<open>The listings\<close>

definition CanonicalBeliefs :: "('l, 'i) Engine \<Rightarrow> Belief list" where
  "CanonicalBeliefs e =
     sort_slice canonical_less (concat (map (\<lambda>a. Snapshot a (e_beliefs e)) (Atoms (e_beliefs e))))"

definition CanonicalResolutions :: "('l, 'i) Engine \<Rightarrow> Resolution list" where
  "CanonicalResolutions e = sort_slice canonical_resolution_less (Resolutions (e_beliefs e))"

definition RulesSnapshot :: "('l, 'i) Engine \<Rightarrow> Rule list" where
  "RulesSnapshot e = sort_slice rule_less (e_rules e)"

section \<open>The orders\<close>

definition canonical_key :: "Belief \<Rightarrow> string \<times> byte \<times> int \<times> string" where
  "canonical_key b = (atomKey (bAtom b), bPolarity b, sint (bUnixNano b), bSource b)"

lemma sint_eq_less: "x = y \<or> sint x < sint y \<or> sint y < sint x" for x y :: int64
  by (metis linorder_cases signed_word_eqI)

interpretation canonical_sort: keyed_less canonical_less canonical_key
proof
  show "canonical_less x y \<longleftrightarrow> canonical_key x < canonical_key y" for x y
    using sint_eq_less [of "bUnixNano x" "bUnixNano y"]
    by (auto simp: canonical_less_def canonical_key_def order.strict_iff_order)
qed

lemma canonical_resolution_less_belief:
  "canonical_resolution_less x y \<longleftrightarrow> canonical_less (resolution_belief x) (resolution_belief y)"
  by (simp add: canonical_resolution_less_def canonical_less_def resolution_belief_def)

interpretation canonical_resolution_sort: keyed_less canonical_resolution_less "\<lambda>r. canonical_key (resolution_belief r)"
  by unfold_locales (simp add: canonical_resolution_less_belief canonical_sort.less_key)

definition rule_key :: "Rule \<Rightarrow> string \<times> (string \<times> string \<times> string) list \<times> string \<times> string \<times> string" where
  "rule_key r = (rName r, map pat_triple (rIf r), pat_triple (rThen r))"

lemma rule_premises_less_key:
  "(case rule_premises_less ps qs of Some b \<Rightarrow> b | None \<Rightarrow> length ps < length qs) \<longleftrightarrow>
    map pat_triple ps < map pat_triple qs"
proof (induction ps arbitrary: qs)
  case Nil
  then show ?case by (cases qs) simp_all
next
  case (Cons x xs)
  show ?case
  proof (cases qs)
    case (Cons y ys)
    then show ?thesis
      using Cons.IH [of ys] by (cases "rule_premises_less xs ys") (auto simp: pat_triple_def)
  qed simp
qed

lemma rule_premises_less_None:
  "rule_premises_less ps qs = None \<Longrightarrow> length ps = length qs \<Longrightarrow> ps = qs"
  by (induction ps qs rule: rule_premises_less.induct) (auto split: if_splits)

lemma rule_premises_less_same: "rule_premises_less ps ps = None"
  by (induction ps) simp_all

lemma rule_less_key: "rule_less x y \<longleftrightarrow> rule_key x < rule_key y"
proof (cases "rIf x = rIf y")
  case True
  then show ?thesis
    by (auto simp: rule_less_def rule_key_def rule_premises_less_same pat_triple_def)
next
  case False
  then have ne: "map pat_triple (rIf x) \<noteq> map pat_triple (rIf y)"
    using inj_pat_triple by (simp add: inj_map_eq_map)
  have "rule_less x y \<longleftrightarrow> (if rName x \<noteq> rName y then rName x < rName y
      else case rule_premises_less (rIf x) (rIf y) of Some b \<Rightarrow> b | None \<Rightarrow> length (rIf x) < length (rIf y))"
    using rule_premises_less_None [of "rIf x" "rIf y"] False by (auto simp: rule_less_def split: option.split)
  with ne show ?thesis
    by (auto simp: rule_premises_less_key rule_key_def)
qed

interpretation rule_sort: total_less rule_less rule_key
proof
  show "inj rule_key"
    using inj_pat_triple by (auto intro!: injI simp: rule_key_def inj_map_eq_map inj_eq)
qed (rule rule_less_key)

section \<open>What the listings hold\<close>

lemma set_CanonicalBeliefs:
  assumes "engine_ok e"
  shows "set (CanonicalBeliefs e) = beliefs_of e"
  using engine_okD(1,2) [OF assms]
  by (auto simp: CanonicalBeliefs_def beliefs_of_def set_Atoms mem_Snapshot)

lemma CanonicalBeliefs_det:
  assumes "engine_ok e1" and "engine_ok e2" and "beliefs_of e1 = beliefs_of e2"
  shows "CanonicalBeliefs e1 = CanonicalBeliefs e2"
  unfolding CanonicalBeliefs_def
  using Atoms_det [OF engine_okD(1) [OF assms(1)] engine_okD(1) [OF assms(2)]]
    Snapshot_det [OF engine_okD(2) [OF assms(1)] engine_okD(2) [OF assms(2)]] assms(3)
  by (simp add: beliefs_of_def)

lemma CanonicalResolutions_det:
  assumes "engine_ok e1" and "engine_ok e2"
    and "\<And>a. Resolution_of a (e_beliefs e1) = Resolution_of a (e_beliefs e2)"
  shows "CanonicalResolutions e1 = CanonicalResolutions e2"
  unfolding CanonicalResolutions_def
  using Resolutions_det [OF engine_okD(3) [OF assms(1)] engine_okD(3) [OF assms(2)] assms(3)] by simp

lemma RulesSnapshot_det: "mset (e_rules e1) = mset (e_rules e2) \<Longrightarrow> RulesSnapshot e1 = RulesSnapshot e2"
  unfolding RulesSnapshot_def by (rule rule_sort.sort_slice_det)

lemma distinct_concat_disjoint:
  "distinct xs \<Longrightarrow> (\<And>x. x \<in> set xs \<Longrightarrow> distinct (f x)) \<Longrightarrow>
    (\<And>x y z. z \<in> set (f x) \<Longrightarrow> z \<in> set (f y) \<Longrightarrow> x = y) \<Longrightarrow> distinct (concat (map f xs))"
  by (induction xs) auto

lemma distinct_CanonicalBeliefs:
  assumes "engine_ok e"
  shows "distinct (CanonicalBeliefs e)"
  unfolding CanonicalBeliefs_def distinct_sort_slice
proof (rule distinct_concat_disjoint)
  show "distinct (Atoms (e_beliefs e))"
    using engine_okD(1) [OF assms] by (simp add: Atoms_def store_ok_def)
qed (use engine_okD(2) [OF assms] in \<open>auto simp: distinct_Snapshot mem_Snapshot\<close>)

lemma set_CanonicalResolutions:
  assumes "engine_ok e"
  shows "set (CanonicalResolutions e) = {r. Resolution_of (rAtom r) (e_beliefs e) = Some r}"
  using mem_Resolutions [OF engine_okD(3) [OF assms]] by (auto simp: CanonicalResolutions_def)

lemma distinct_CanonicalResolutions: "engine_ok e \<Longrightarrow> distinct (CanonicalResolutions e)"
  using distinct_Resolutions [OF engine_okD(3), of e] by (simp add: CanonicalResolutions_def distinct_map)

lemma mset_RulesSnapshot: "mset (RulesSnapshot e) = mset (e_rules e)"
  by (simp add: RulesSnapshot_def)

lemma set_RulesSnapshot: "set (RulesSnapshot e) = set (e_rules e)"
  by (simp add: RulesSnapshot_def)

lemma sorted_CanonicalBeliefs: "sorted (map canonical_key (CanonicalBeliefs e))"
  unfolding CanonicalBeliefs_def by (rule canonical_sort.sorted_sort_slice)

lemma sorted_RulesSnapshot: "sorted (map rule_key (RulesSnapshot e))"
  unfolding RulesSnapshot_def by (rule rule_sort.sorted_sort_slice)

section \<open>Property\<close>

text \<open>
  C13: The canonical listings do not depend on the history. Two reachable engines that hold the same
  beliefs and resolutions, and the same rules in any order, list the same beliefs, resolutions and
  rules in the same order; the listings hold each belief, each resolution and each rule exactly as
  often as the engine does, sorted by their keys.
\<close>

theorem canonical_deterministic:
  assumes "reachable env P e1" and "reachable env' Q e2"
    and "\<And>a. set (Snapshot a (e_beliefs e1)) = set (Snapshot a (e_beliefs e2))"
    and "\<And>a. Resolution_of a (e_beliefs e1) = Resolution_of a (e_beliefs e2)"
    and "mset (e_rules e1) = mset (e_rules e2)"
  shows "CanonicalBeliefs e1 = CanonicalBeliefs e2 \<and> CanonicalResolutions e1 = CanonicalResolutions e2 \<and>
    RulesSnapshot e1 = RulesSnapshot e2 \<and>
    set (CanonicalBeliefs e1) = {b. b \<in> set (Snapshot (bAtom b) (e_beliefs e1))} \<and> distinct (CanonicalBeliefs e1) \<and>
    sorted (map canonical_key (CanonicalBeliefs e1)) \<and>
    set (CanonicalResolutions e1) = {r. Resolution_of (rAtom r) (e_beliefs e1) = Some r} \<and>
    distinct (CanonicalResolutions e1) \<and>
    mset (RulesSnapshot e1) = mset (e_rules e1) \<and> sorted (map rule_key (RulesSnapshot e1))"
proof -
  have ok: "engine_ok e1" "engine_ok e2"
    using reachable_ok assms(1,2) by blast+
  have snap: "beliefs_of e = {b. b \<in> set (Snapshot (bAtom b) (e_beliefs e))}" if "engine_ok e" for e :: "('l, 'i) Engine"
    using engine_okD(2) [OF that] by (auto simp: beliefs_of_def mem_Snapshot)
  have "beliefs_of e2 = {b. b \<in> set (Snapshot (bAtom b) (e_beliefs e2))}"
    using engine_okD(2) [OF ok(2)] by (auto simp: beliefs_of_def mem_Snapshot)
  then have "beliefs_of e1 = beliefs_of e2"
    using snap [OF ok(1)] assms(3) by simp
  then show ?thesis
    using CanonicalBeliefs_det [OF ok] CanonicalResolutions_det [OF ok assms(4)] RulesSnapshot_det [OF assms(5)]
      set_CanonicalBeliefs [OF ok(1)] snap [OF ok(1)] distinct_CanonicalBeliefs [OF ok(1)]
      set_CanonicalResolutions [OF ok(1)] distinct_CanonicalResolutions [OF ok(1)]
      sorted_CanonicalBeliefs [of e1] sorted_RulesSnapshot [of e1] mset_RulesSnapshot [of e1]
    by simp
qed

definition ex_two :: "Belief \<Rightarrow> Belief \<Rightarrow> (unit, unit) Engine" where
  "ex_two b c = snd (Ingest ex_env c (snd (Ingest ex_env b ex_start)))"

lemma ex_two_fields:
  assumes "valid_belief b" and "valid_belief c"
  shows "beliefs_of (ex_two b c) = {b, c}" "Resolution_of a (e_beliefs (ex_two b c)) = None"
    "e_rules (ex_two b c) = []" "engine_ok (ex_two b c)" "reachable ex_env (\<lambda>_. True) (ex_two b c)"
proof -
  have core: "core (snd (Ingest ex_env b e)) = core (snd (ingestNoLog b e))" if "e_rules e = []"
    for b and e :: "(unit, unit) Engine"
    using that by (simp add: Ingest_core ApplyRules_no_rules engine_simps split: sum.split)
  define e1 where "e1 = snd (Ingest ex_env b ex_start)"
  have c1: "core e1 = core (snd (ingestNoLog b ex_start))"
    using core [of ex_start b] by (simp add: e1_def ex_start_fields)
  have ok: "engine_ok e1"
    by (simp add: e1_def engine_ok_Ingest ex_start_fields)
  note f1 = core_abs(1,6,7) [OF c1]
  have rules: "e_rules e1 = []"
    by (simp add: f1(2) engine_simps ex_start_fields)
  have c2: "core (ex_two b c) = core (snd (ingestNoLog c e1))"
    using core [OF rules, of c] by (simp add: ex_two_def e1_def)
  note f2 = core_abs(1,6,7) [OF c2]
  show "beliefs_of (ex_two b c) = {b, c}"
    using assms ok by (auto simp: f2(1) f1(1) beliefs_of_ingest ex_start_fields)
  show "Resolution_of a (e_beliefs (ex_two b c)) = None"
    using engine_okD(2) [OF ex_start_fields(1)]
    by (simp add: f2(3) f1(3) engine_simps Resolution_of_Add slots_ok_Add ex_start_fields)
  show "e_rules (ex_two b c) = []"
    by (simp add: f2(2) rules engine_simps)
  show "engine_ok (ex_two b c)"
    by (simp add: ex_two_def engine_ok_Ingest ex_start_fields)
  show "reachable ex_env (\<lambda>_. True) (ex_two b c)"
    unfolding ex_two_def by (rule reach_step [OF reach_step [OF ex_start_reachable]]; rule step_ingest) simp_all
qed

theorem canonical_deterministic_witness:
  "CanonicalBeliefs (ex_two (ex_fact ''a'' ''b'') (ex_fact ''c'' ''d'')) =
   CanonicalBeliefs (ex_two (ex_fact ''c'' ''d'') (ex_fact ''a'' ''b''))"
proof -
  have valid: "valid_belief (ex_fact ''a'' ''b'')" "valid_belief (ex_fact ''c'' ''d'')"
    by (simp_all add: ex_fact_valid)
  note f = ex_two_fields [OF valid] and g = ex_two_fields [OF valid(2,1)]
  have "set (Snapshot a (e_beliefs (ex_two (ex_fact ''a'' ''b'') (ex_fact ''c'' ''d'')))) =
      set (Snapshot a (e_beliefs (ex_two (ex_fact ''c'' ''d'') (ex_fact ''a'' ''b''))))" for a
    using f(1) g(1) by (auto simp: mem_Snapshot [OF engine_okD(2) [OF f(4)]]
        mem_Snapshot [OF engine_okD(2) [OF g(4)]] beliefs_of_def)
  from canonical_deterministic [OF f(5) g(5) this] f(2,3) g(2,3) show ?thesis by simp
qed

end
