(* ===== verification/Compact.thy ===== *)
theory Compact
  imports Canonical
begin

text \<open>
  \<open>compact.go\<close>: writing a canonical log of an engine. The outcome of the operating system for each
  append is a function of its number. The deferred \<open>Close\<close> runs on every return, drops its error and
  leaves the file as it is, so that the result is the error and the file system.
\<close>

section \<open>CompactToWAL\<close>

text \<open>One of the three loops: it encodes and appends item by item and stops at the first error.\<close>

fun compact_loop :: "(nat \<Rightarrow> append_outcome) \<Rightarrow> EventType \<Rightarrow> ('a \<Rightarrow> go_error + bytes) \<Rightarrow> 'a list \<Rightarrow>
    WAL \<times> filesys \<Rightarrow> go_error option \<times> WAL \<times> filesys" where
  "compact_loop out ty enc [] st = (None, st)"
| "compact_loop out ty enc (x # xs) st =
     (case enc x of
        Inl err \<Rightarrow> (Some err, st)
      | Inr payload \<Rightarrow>
          (case wal_Append (out 0) \<lparr>recType = ty, recPayload = payload\<rparr> st of
             (Some err, st') \<Rightarrow> (Some err, st')
           | (None, st') \<Rightarrow> compact_loop (\<lambda>k. out (Suc k)) ty enc xs st'))"

definition CompactToWAL :: "string option \<Rightarrow> (nat \<Rightarrow> append_outcome) \<Rightarrow> string \<Rightarrow> ('l, 'i) Engine \<Rightarrow> filesys \<Rightarrow>
    go_error option \<times> filesys" where
  "CompactToWAL fail out path e fs =
     (case CreateWAL fail path fs of
        Inl err \<Rightarrow> (Some err, fs)
      | Inr st0 \<Rightarrow>
          let bs = CanonicalBeliefs e; rs = CanonicalResolutions e
          in case compact_loop out EventFactAdded encodeBelief bs st0 of
               (Some err, st1) \<Rightarrow> (Some err, snd st1)
             | (None, st1) \<Rightarrow>
                 (case compact_loop (\<lambda>k. out (k + length bs)) EventResolutionSet encodeResolution rs st1 of
                    (Some err, st2) \<Rightarrow> (Some err, snd st2)
                  | (None, st2) \<Rightarrow>
                      (case compact_loop (\<lambda>k. out (k + length bs + length rs)) EventRuleAdded encodeRule
                              (RulesSnapshot e) st2 of
                         (err, st3) \<Rightarrow> (err, snd st3))))"

section \<open>One loop\<close>

definition record_of :: "EventType \<Rightarrow> ('a \<Rightarrow> go_error + bytes) \<Rightarrow> 'a \<Rightarrow> go_error + Record" where
  "record_of ty enc x = and_then (enc x) (\<lambda>p. Inr \<lparr>recType = ty, recPayload = p\<rparr>)"

text \<open>
  What has been done, when it stops, by an operation that was to append these records to a sound log:
  a part of them is in the log, all of them if it reports no error, and no other file has changed.
\<close>

definition wrote :: "(go_error + Record) list \<Rightarrow> WAL \<times> filesys \<Rightarrow> go_error option \<times> WAL \<times> filesys \<Rightarrow> bool" where
  "wrote rs st r \<longleftrightarrow>
     (\<exists>k xs. take k rs = map Inr xs \<and> wal_records (snd r) = (fst (wal_records st) @ xs, None) \<and>
        (fst r = None \<longrightarrow> rs = map Inr xs \<and> wal_sound (snd r))) \<and>
     w_path (fst (snd r)) = w_path (fst st) \<and>
     (\<forall>q. q \<noteq> w_path (fst st) \<longrightarrow> snd (snd r) q = snd st q)"

lemma wroteI:
  assumes "take k rs = map Inr xs" and "wal_records st' = (fst (wal_records st) @ xs, None)"
    and "err = None \<Longrightarrow> rs = map Inr xs \<and> wal_sound st'"
    and "w_path (fst st') = w_path (fst st)" and "\<forall>q. q \<noteq> w_path (fst st) \<longrightarrow> snd st' q = snd st q"
  shows "wrote rs st (err, st')"
  unfolding wrote_def using assms by auto

lemma wroteE:
  assumes "wrote rs st (err, st')"
  obtains k xs where "take k rs = map Inr xs" "wal_records st' = (fst (wal_records st) @ xs, None)"
    "err = None \<longrightarrow> rs = map Inr xs \<and> wal_sound st'"
    "w_path (fst st') = w_path (fst st)" "\<forall>q. q \<noteq> w_path (fst st) \<longrightarrow> snd st' q = snd st q"
  using assms unfolding wrote_def by auto

lemma wrote_stop:
  assumes "wrote rs st (Some err, st')"
  shows "wrote (rs @ rs') st (Some err, st')"
  using assms
proof (rule wroteE)
  fix k xs
  assume *: "take k rs = map Inr xs" "wal_records st' = (fst (wal_records st) @ xs, None)"
    "w_path (fst st') = w_path (fst st)" "\<forall>q. q \<noteq> w_path (fst st) \<longrightarrow> snd st' q = snd st q"
  have "take (min k (length rs)) (rs @ rs') = map Inr xs"
    using *(1) by simp
  from this *(2) show ?thesis by (rule wroteI) (use *(3,4) in simp_all)
qed

lemma wrote_append:
  assumes "wrote rs st (None, st1)" and "wrote rs' st1 r"
  shows "wrote (rs @ rs') st r"
proof -
  obtain xs where 1: "rs = map Inr xs" "wal_records st1 = (fst (wal_records st) @ xs, None)"
      "w_path (fst st1) = w_path (fst st)" "\<forall>q. q \<noteq> w_path (fst st) \<longrightarrow> snd st1 q = snd st q"
    using assms(1) by (rule wroteE) blast
  obtain err st2 where r: "r = (err, st2)" by (cases r)
  obtain k ys where 2: "take k rs' = map Inr ys" "wal_records st2 = (fst (wal_records st1) @ ys, None)"
      "err = None \<longrightarrow> rs' = map Inr ys \<and> wal_sound st2"
      "w_path (fst st2) = w_path (fst st1)" "\<forall>q. q \<noteq> w_path (fst st1) \<longrightarrow> snd st2 q = snd st1 q"
    using assms(2) unfolding r by (rule wroteE) blast
  have "take (length rs + k) (rs @ rs') = map Inr (xs @ ys)"
    using 1(1) 2(1) by simp
  then show ?thesis
    unfolding r by (rule wroteI) (use 1 2 in simp_all)
qed

lemma wrote_nothing: "wal_sound st \<Longrightarrow> err = None \<Longrightarrow> rs = [] \<Longrightarrow> wrote rs st (err, st)"
  using wal_log.records_sound [of st] by (intro wroteI [of 0 _ "[]"]) (simp_all add: prod_eq_iff)

lemma wrote_Append:
  assumes "wal_sound st"
  shows "wrote [Inr r] st (wal_Append out r st)"
proof -
  have recs: "wal_records st = (fst (wal_records st), None)"
    using wal_log.records_sound [OF assms] by (simp add: prod_eq_iff)
  obtain err st' where app: "wal_Append out r st = (err, st')" by (cases "wal_Append out r st")
  note w = wal_Append_either [OF assms recs, of out r, unfolded app, simplified]
  show ?thesis
  proof (cases "wal_records st' = (fst (wal_records st) @ [r], None)")
    case True
    with w show ?thesis unfolding app by (intro wroteI [of 1 _ "[r]"]) auto
  next
    case False
    with w show ?thesis unfolding app by (intro wroteI [of 0 _ "[]"]) auto
  qed
qed

lemma compact_loop_wrote:
  "wal_sound st \<Longrightarrow> wrote (map (record_of ty enc) xs) st (compact_loop out ty enc xs st)"
proof (induction xs arbitrary: out st)
  case Nil
  then show ?case by (simp add: wrote_nothing)
next
  case (Cons x xs)
  show ?case
  proof (cases "enc x")
    case (Inl err)
    then show ?thesis
      using wal_log.records_sound [OF Cons.prems] by (auto intro!: wroteI [of 0 _ "[]"] simp: prod_eq_iff)
  next
    case (Inr p)
    let ?r = "\<lparr>recType = ty, recPayload = p\<rparr>"
    obtain err st' where app: "wal_Append (out 0) ?r st = (err, st')" by (cases "wal_Append (out 0) ?r st")
    have 1: "wrote [record_of ty enc x] st (err, st')"
      using wrote_Append [OF Cons.prems, of ?r "out 0"] by (simp add: app record_of_def Inr)
    show ?thesis
    proof (cases err)
      case None
      then have "wal_sound st'" using 1 by (auto elim: wroteE)
      then show ?thesis
        using wrote_append [OF 1 [unfolded None] Cons.IH] by (simp add: Inr app None)
    next
      case (Some e)
      then show ?thesis
        using wrote_stop [OF 1 [unfolded Some]] by (simp add: Inr app)
    qed
  qed
qed

text \<open>Without a fault of the operating system, a loop fails only where an item has no record.\<close>

lemma compact_loop_ok:
  "wal_sound st \<Longrightarrow> \<forall>x \<in> set xs. \<exists>r. record_of ty enc x = Inr r \<and> wal_storable r \<Longrightarrow>
    fst (compact_loop (\<lambda>_. no_fault) ty enc xs st) = None"
proof (induction xs arbitrary: st)
  case (Cons x xs)
  then obtain p where p: "enc x = Inr p" "wal_storable \<lparr>recType = ty, recPayload = p\<rparr>"
    by (auto simp: record_of_def and_then_Inr)
  obtain st' where "wal_Append no_fault \<lparr>recType = ty, recPayload = p\<rparr> st = (None, st')" "wal_sound st'"
    using wal_Append_sound [OF Cons.prems(1) p(2)] by blast
  with Cons p show ?case by simp
qed simp

section \<open>The whole compaction\<close>

definition compact_records :: "('l, 'i) Engine \<Rightarrow> (go_error + Record) list" where
  "compact_records e =
     map (record_of EventFactAdded encodeBelief) (CanonicalBeliefs e) @
     map (record_of EventResolutionSet encodeResolution) (CanonicalResolutions e) @
     map (record_of EventRuleAdded encodeRule) (RulesSnapshot e)"

lemma CompactToWAL_wrote:
  assumes "CreateWAL None path fs = Inr st0"
  shows "\<exists>err st. CompactToWAL None out path e fs = (err, snd st) \<and> wrote (compact_records e) st0 (err, st)"
proof -
  let ?l1 = "compact_loop out EventFactAdded encodeBelief (CanonicalBeliefs e) st0"
  let ?out2 = "\<lambda>k. out (k + length (CanonicalBeliefs e))"
  let ?out3 = "\<lambda>k. out (k + length (CanonicalBeliefs e) + length (CanonicalResolutions e))"
  obtain err1 st1 where l1: "?l1 = (err1, st1)" by (cases ?l1)
  have w1: "wrote (map (record_of EventFactAdded encodeBelief) (CanonicalBeliefs e)) st0 (err1, st1)"
    using compact_loop_wrote [OF created_log(1) [OF assms]] by (simp flip: l1)
  show ?thesis
  proof (cases err1)
    case (Some er)
    then show ?thesis
      using wrote_stop [OF w1 [unfolded Some]] l1 assms
      by (intro exI [of _ err1] exI [of _ st1]) (simp add: CompactToWAL_def compact_records_def Let_def)
  next
    case None
    let ?l2 = "compact_loop ?out2 EventResolutionSet encodeResolution (CanonicalResolutions e) st1"
    obtain err2 st2 where l2: "?l2 = (err2, st2)" by (cases ?l2)
    have "wal_sound st1" using w1 None by (auto elim: wroteE)
    then have w2: "wrote (map (record_of EventFactAdded encodeBelief) (CanonicalBeliefs e) @
        map (record_of EventResolutionSet encodeResolution) (CanonicalResolutions e)) st0 (err2, st2)"
      unfolding l2 [symmetric] by (intro wrote_append [OF w1 [unfolded None]] compact_loop_wrote)
    show ?thesis
    proof (cases err2)
      case (Some er)
      then show ?thesis
        using wrote_stop [OF w2 [unfolded Some]] l1 l2 None assms
        by (intro exI [of _ err2] exI [of _ st2]) (simp add: CompactToWAL_def compact_records_def Let_def)
    next
      case None2: None
      let ?l3 = "compact_loop ?out3 EventRuleAdded encodeRule (RulesSnapshot e) st2"
      obtain err3 st3 where l3: "?l3 = (err3, st3)" by (cases ?l3)
      have "wal_sound st2" using w2 None2 by (auto elim: wroteE)
      then have "wrote (compact_records e) st0 (err3, st3)"
        using wrote_append [OF w2 [unfolded None2] compact_loop_wrote, of EventRuleAdded encodeRule "RulesSnapshot e" ?out3]
        by (simp add: compact_records_def l3)
      then show ?thesis
        using l1 l2 l3 None None2 assms
        by (intro exI [of _ err3] exI [of _ st3]) (simp add: CompactToWAL_def Let_def)
    qed
  qed
qed

section \<open>What the compacted log tells\<close>

lemma record_of_ConsE:
  assumes "map (record_of ty enc) (x # xs) = map Inr ys"
  obtains p ys' where "enc x = Inr p" "ys = \<lparr>recType = ty, recPayload = p\<rparr> # ys'" "map (record_of ty enc) xs = map Inr ys'"
proof (cases ys)
  case Nil
  with assms show thesis by simp
next
  case (Cons y ys')
  with assms have "record_of ty enc x = Inr y" and "map (record_of ty enc) xs = map Inr ys'" by simp_all
  with Cons that show thesis by (auto simp: record_of_def and_then_Inr)
qed

lemma told_fact_records:
  "map (record_of EventFactAdded encodeBelief) bs = map Inr xs \<Longrightarrow> \<forall>b \<in> set bs. valid_belief b \<Longrightarrow>
    told_events xs (B, R, rs) = Some (B \<union> {b \<in> set bs. base_belief b}, R, rs)"
proof (induction bs arbitrary: xs B)
  case (Cons b bs)
  obtain p xs' where p: "encodeBelief b = Inr p"
      and xs: "xs = \<lparr>recType = EventFactAdded, recPayload = p\<rparr> # xs'" "map (record_of EventFactAdded encodeBelief) bs = map Inr xs'"
    by (rule record_of_ConsE [OF Cons.prems(1)])
  have "told_event \<lparr>recType = EventFactAdded, recPayload = p\<rparr> (B, R, rs) = Some (if base_belief b then insert b B else B, R, rs)"
    using Cons.prems(2) by (simp add: told_event_def decode_encodeBelief [OF p])
  then show ?case
    using Cons.IH [OF xs(2), of "if base_belief b then insert b B else B"] Cons.prems(2) xs(1) by auto
qed simp

fun resolve_all :: "Resolution list \<Rightarrow> (Atom \<Rightarrow> Resolution option) \<Rightarrow> (Atom \<Rightarrow> Resolution option)" where
  "resolve_all [] R = R"
| "resolve_all (q # qs) R = resolve_all qs (R(rAtom q \<mapsto> q))"

lemma told_resolution_records:
  "map (record_of EventResolutionSet encodeResolution) qs = map Inr xs \<Longrightarrow> \<forall>q \<in> set qs. valid_resolution q \<Longrightarrow>
    told_events xs (B, R, rs) = Some (B, resolve_all qs R, rs)"
proof (induction qs arbitrary: xs R)
  case (Cons q qs)
  obtain p xs' where p: "encodeResolution q = Inr p"
      and xs: "xs = \<lparr>recType = EventResolutionSet, recPayload = p\<rparr> # xs'"
        "map (record_of EventResolutionSet encodeResolution) qs = map Inr xs'"
    by (rule record_of_ConsE [OF Cons.prems(1)])
  have "decodeResolution p = Inr q"
    using p decodeResolution_iff by blast
  then show ?case
    using Cons.IH [OF xs(2)] Cons.prems(2) xs(1) by (simp add: told_event_def)
qed simp

lemma told_rule_records:
  "map (record_of EventRuleAdded encodeRule) rus = map Inr xs \<Longrightarrow> \<forall>r \<in> set rus. pTo (rThen r) \<noteq> [] \<Longrightarrow>
    told_events xs (B, R, rs) = Some (B, R, rs @ rus)"
proof (induction rus arbitrary: xs rs)
  case (Cons r rus)
  obtain p xs' where p: "encodeRule r = Inr p"
      and xs: "xs = \<lparr>recType = EventRuleAdded, recPayload = p\<rparr> # xs'" "map (record_of EventRuleAdded encodeRule) rus = map Inr xs'"
    by (rule record_of_ConsE [OF Cons.prems(1)])
  have "told_event \<lparr>recType = EventRuleAdded, recPayload = p\<rparr> (B, R, rs) = Some (B, R, rs @ [r])"
    using Cons.prems(2) by (simp add: told_event_def decode_encodeRule [OF p])
  then show ?case
    using Cons.IH [OF xs(2)] Cons.prems(2) xs(1) by simp
qed simp

lemma fold_resolutions:
  "distinct (map rAtom qs) \<Longrightarrow>
    resolve_all qs R a = (case map_of (map (\<lambda>q. (rAtom q, q)) qs) a of None \<Rightarrow> R a | Some q \<Rightarrow> Some q)"
proof (induction qs arbitrary: R)
  case (Cons q qs)
  then have "map_of (map (\<lambda>q. (rAtom q, q)) qs) (rAtom q) = None"
    by (auto simp: map_of_eq_None_iff)
  with Cons show ?case by (auto split: option.split)
qed simp

lemma option_eqI: "(\<And>z. x = Some z \<longleftrightarrow> y = Some z) \<Longrightarrow> x = y"
  by (cases x) (metis not_None_eq)+

lemma canonical_resolution_map:
  assumes "engine_ok e"
  shows "resolve_all (CanonicalResolutions e) Map.empty = (\<lambda>a. Resolution_of a (e_beliefs e))"
proof
  fix a
  have ok: "resolutions_ok (e_beliefs e)" by (rule engine_okD [OF assms])
  have d: "distinct (map rAtom (CanonicalResolutions e))"
    using distinct_Resolutions [OF ok] by (simp add: CanonicalResolutions_def distinct_map)
  let ?m = "map (\<lambda>q. (rAtom q, q)) (CanonicalResolutions e)"
  have "map_of ?m a = Some q \<longleftrightarrow> Resolution_of a (e_beliefs e) = Some q" for q
  proof -
    have "map_of ?m a = Some q \<longleftrightarrow> (a, q) \<in> set ?m"
      using d by (intro map_of_eq_Some_iff) (simp add: comp_def)
    then show ?thesis
      using Resolution_of_valid [OF ok, of a q] by (auto simp: set_CanonicalResolutions [OF assms])
  qed
  then have "map_of ?m a = Resolution_of a (e_beliefs e)"
    by (rule option_eqI)
  then show "resolve_all (CanonicalResolutions e) Map.empty a = Resolution_of a (e_beliefs e)"
    unfolding fold_resolutions [OF d] by (simp split: option.split)
qed

lemma compact_records_told:
  assumes "engine_ok e" and "compact_records e = map Inr xs" and "\<forall>r \<in> set (e_rules e). pTo (rThen r) \<noteq> []"
  shows "told_events xs empty_told = Some (base_beliefs e, \<lambda>a. Resolution_of a (e_beliefs e), RulesSnapshot e)"
proof -
  obtain x1 x2 x3 where xs: "xs = x1 @ x2 @ x3"
      and 1: "map (record_of EventFactAdded encodeBelief) (CanonicalBeliefs e) = map Inr x1"
      and 2: "map (record_of EventResolutionSet encodeResolution) (CanonicalResolutions e) = map Inr x2"
      and 3: "map (record_of EventRuleAdded encodeRule) (RulesSnapshot e) = map Inr x3"
    using assms(2) unfolding compact_records_def append_eq_map_conv by metis
  have base: "{b \<in> set (CanonicalBeliefs e). base_belief b} = base_beliefs e"
    by (simp add: set_CanonicalBeliefs [OF assms(1)] base_beliefs_def base_belief_def)
  have "\<forall>b \<in> set (CanonicalBeliefs e). valid_belief b"
    using store_beliefs_valid [OF engine_okD(2) [OF assms(1)]] set_CanonicalBeliefs [OF assms(1)]
    by (simp add: beliefs_of_def)
  note t1 = told_fact_records [OF 1 this, of "{}" Map.empty "[]", unfolded base]
  have "\<forall>q \<in> set (CanonicalResolutions e). valid_resolution q"
    using Resolution_of_valid [OF engine_okD(3) [OF assms(1)]] set_CanonicalResolutions [OF assms(1)] by blast
  note t2 = told_resolution_records [OF 2 this, of "base_beliefs e" Map.empty "[]",
      unfolded canonical_resolution_map [OF assms(1)]]
  have "\<forall>r \<in> set (RulesSnapshot e). pTo (rThen r) \<noteq> []"
    using assms(3) by (simp add: set_RulesSnapshot)
  note t3 = told_rule_records [OF 3 this, of "base_beliefs e" "\<lambda>a. Resolution_of a (e_beliefs e)" "[]"]
  show ?thesis
    using t1 t2 t3 by (simp add: xs told_events_append empty_told_def)
qed

section \<open>Reading the compacted log back\<close>

lemma compacted_log:
  assumes "CompactToWAL None out path e fs = (err, fs')" and "OpenWAL None path fs' = Inr l"
  shows "\<exists>k xs. take k (compact_records e) = map Inr xs \<and> wal_records l = (xs, None) \<and>
    (err = None \<longrightarrow> compact_records e = map Inr xs \<and> wal_sound l) \<and> (\<forall>q. q \<noteq> path \<longrightarrow> fs' q = fs q)"
proof -
  obtain st0 where st0: "CreateWAL None path fs = Inr st0"
    by (simp add: CreateWAL_def)
  obtain st where fs': "fs' = snd st" and w: "wrote (compact_records e) st0 (err, st)"
    using CompactToWAL_wrote [OF st0, of out e] assms(1) by auto
  have empty: "fst (wal_records st0) = []" and path0: "w_path (fst st0) = path" "\<forall>q. q \<noteq> path \<longrightarrow> snd st0 q = fs q"
    using created_log(2) [OF st0] CreateWAL_open [OF st0] st0 by (auto simp: CreateWAL_def)
  obtain k xs where r: "take k (compact_records e) = map Inr xs" "wal_records st = (xs, None)"
      "err = None \<longrightarrow> compact_records e = map Inr xs \<and> wal_sound st" "w_path (fst st) = path"
      "\<forall>q. q \<noteq> path \<longrightarrow> snd st q = fs q"
    using w by (rule wroteE) (use empty path0 in auto)
  have there: "snd st path \<noteq> None"
    using r(2,4) by (cases "snd st path") (simp_all add: wal_records_def wal_Replay_def)
  then have l: "wal_open l" "wal_content l = wal_content st"
    using OpenWAL_open [OF assms(2)] r(4) by (auto simp: fs' wal_content_def)
  have "wal_records l = wal_records st"
    using l there r(4) by (simp add: wal_records_scan wal_open_def)
  moreover have "wal_sound st \<Longrightarrow> wal_sound l"
    using l by (simp add: wal_sound_def)
  ultimately show ?thesis
    using r fs' by auto
qed

lemma encodeBelief_length: "encodeBelief b = Inr p \<Longrightarrow> length p \<le> 4294967295"
  by (auto simp: encodeBelief_def too_large_def write_field_def split: if_splits)

lemma compact_ok:
  assumes "\<forall>b \<in> set (CanonicalBeliefs e). \<exists>p. encodeBelief b = Inr p"
    and "\<forall>r \<in> set (CanonicalResolutions e). \<exists>p. encodeResolution r = Inr p"
    and "\<forall>ru \<in> set (e_rules e). \<exists>p. encodeRule ru = Inr p \<and> length p \<le> 4294967295"
  shows "fst (CompactToWAL None (\<lambda>_. no_fault) path e fs) = None"
proof -
  let ?loop = "compact_loop (\<lambda>_. no_fault)"
  obtain st0 where st0: "CreateWAL None path fs = Inr st0"
    by (simp add: CreateWAL_def)
  note s0 = created_log(1) [OF st0]
  have "\<forall>b \<in> set (CanonicalBeliefs e). \<exists>r. record_of EventFactAdded encodeBelief b = Inr r \<and> wal_storable r"
    using assms(1) encodeBelief_length by (fastforce simp: record_of_def wal_storable_def fits_def)
  from compact_loop_ok [OF s0 this] obtain st1 where 1: "?loop EventFactAdded encodeBelief (CanonicalBeliefs e) st0 = (None, st1)"
    by (metis prod.collapse)
  have s1: "wal_sound st1"
    using compact_loop_wrote [OF s0, of EventFactAdded encodeBelief "CanonicalBeliefs e" "\<lambda>_. no_fault"] 1
    by (auto elim: wroteE)
  have "\<forall>r \<in> set (CanonicalResolutions e). \<exists>x. record_of EventResolutionSet encodeResolution r = Inr x \<and> wal_storable x"
    using assms(2) encodeBelief_length by (fastforce simp: record_of_def wal_storable_def fits_def encodeResolution_def)
  from compact_loop_ok [OF s1 this] obtain st2 where
    2: "?loop EventResolutionSet encodeResolution (CanonicalResolutions e) st1 = (None, st2)"
    by (metis prod.collapse)
  have s2: "wal_sound st2"
    using compact_loop_wrote [OF s1, of EventResolutionSet encodeResolution "CanonicalResolutions e" "\<lambda>_. no_fault"] 2
    by (auto elim: wroteE)
  have "\<forall>ru \<in> set (RulesSnapshot e). \<exists>x. record_of EventRuleAdded encodeRule ru = Inr x \<and> wal_storable x"
    using assms(3) by (fastforce simp: record_of_def wal_storable_def fits_def set_RulesSnapshot)
  from compact_loop_ok [OF s2 this] 1 2 st0 show ?thesis
    by (auto simp: CompactToWAL_def Let_def split: prod.split)
qed

text \<open>Concrete engines: the one of the previous theory, and one with an oversized belief.\<close>

lemma ex_life_fields:
  "beliefs_of ex_life = {ex_fact ''a'' ''b''}" "Resolution_of a (e_beliefs ex_life) = None" "e_rules ex_life = []"
  "reachable (wal_env ex_obs) (\<lambda>_. True) ex_life"
proof -
  let ?e = "ex_new ex_wal"
  have e: "beliefs_of ?e = {}" "e_rules ?e = []" "Resolution_of a (e_beliefs ?e) = None" "engine_ok ?e"
    using New_logged_ok(1) [OF ex_new_New]
    by (simp_all add: ex_new_def New_logged empty_engine_def beliefs_of_def)
  then have "core ex_life = core (snd (ingestNoLog (ex_fact ''a'' ''b'') ?e))"
    unfolding ex_life_def by (simp add: Ingest_core ApplyRules_no_rules engine_simps split: sum.split)
  note c = core_abs(1,6,7) [OF this]
  show "beliefs_of ex_life = {ex_fact ''a'' ''b''}" "Resolution_of a (e_beliefs ex_life) = None" "e_rules ex_life = []"
    using e by (simp_all add: c beliefs_of_ingest ex_fact_valid engine_simps Resolution_of_Add engine_okD(2) [OF e(4)])
  have "reachable (wal_env ex_obs) (\<lambda>_. True) ?e"
    by (rule reach_new [OF _ ex_new_New]) simp_all
  then show "reachable (wal_env ex_obs) (\<lambda>_. True) ex_life"
    unfolding ex_life_def by (rule reach_step) (rule step_ingest, simp)
qed

definition ex_big :: Belief where
  "ex_big = \<lparr>bAtom = mk_atom ''a'' ''isa'' ''b'', bPolarity = PolarityPositive,
     bSource = replicate 65536 CHR ''x'', bUnixNano = 0\<rparr>"

lemma ex_big_valid: "valid_belief ex_big" "encodeBelief ex_big = Inl ErrFieldTooLarge"
  by (simp_all add: valid_belief_def check_fields_def ex_big_def encodeBelief_def too_large_def)

section \<open>Properties\<close>

text \<open>
  C10: Compaction loses nothing. Where no field is over 65535 bytes, no rule over 4294967295, and every
  conclusion of a rule has an object, \<open>CompactToWAL\<close> succeeds unless the operating system fails, and an
  engine that replays the log it wrote holds the same beliefs that are not derived, the same
  resolutions, and the same rules in canonical order; its graph, index and derived beliefs are what a
  rebuild of the old engine makes of these.
\<close>

theorem compact_restores:
  fixes e e0 :: "(WAL \<times> filesys, 'i) Engine"
  assumes "reachable env P e"
    and "\<forall>b \<in> set (CanonicalBeliefs e). \<exists>p. encodeBelief b = Inr p"
    and "\<forall>r \<in> set (CanonicalResolutions e). \<exists>p. encodeResolution r = Inr p"
    and "\<forall>ru \<in> set (e_rules e). pTo (rThen ru) \<noteq> [] \<and> (\<exists>p. encodeRule ru = Inr p \<and> length p \<le> 4294967295)"
    and "OpenWAL None path (snd (CompactToWAL None (\<lambda>_. no_fault) path e fs)) = Inr l"
    and "New clock [WithLog (Some l), WithInducer i] = Inr e0"
  shows "fst (CompactToWAL None (\<lambda>_. no_fault) path e fs) = None \<and>
    fst (ReplayFromLog (wal_env obs) e0) = None \<and>
    told (snd (ReplayFromLog (wal_env obs) e0)) =
      (base_beliefs e, \<lambda>a. Resolution_of a (e_beliefs e), RulesSnapshot e) \<and>
    core (snd (ReplayFromLog (wal_env obs) e0)) = core (recompute (e\<lparr>e_rules := RulesSnapshot e\<rparr>))"
proof -
  have ok: "engine_ok e" using reachable_ok assms(1) by blast
  have none: "fst (CompactToWAL None (\<lambda>_. no_fault) path e fs) = None"
    using assms(2-4) by (intro compact_ok) blast+
  then have "CompactToWAL None (\<lambda>_. no_fault) path e fs = (None, snd (CompactToWAL None (\<lambda>_. no_fault) path e fs))"
    by (simp add: prod_eq_iff)
  from compacted_log [OF this assms(5)] obtain xs where xs: "compact_records e = map Inr xs" "wal_records l = (xs, None)"
    by auto
  have "told_events xs empty_told = Some (base_beliefs e, \<lambda>a. Resolution_of a (e_beliefs e), RulesSnapshot e)"
    using compact_records_told [OF ok xs(1)] assms(4) by blast
  moreover have "log_Replay (wal_env obs) l = (xs, None)"
    using xs(2) by simp
  moreover have "engine_ok (e\<lparr>e_rules := RulesSnapshot e\<rparr>)"
      "told (e\<lparr>e_rules := RulesSnapshot e\<rparr>) = (base_beliefs e, \<lambda>a. Resolution_of a (e_beliefs e), RulesSnapshot e)"
    using ok by (simp_all add: engine_ok_def told_def base_beliefs_def beliefs_of_def)
  ultimately show ?thesis
    using ReplayFromLog_told [OF New_logged_ok(1,2) [OF assms(6)], of "wal_env obs" xs] none
    by simp
qed

theorem compact_restores_witness:
  "fst (ReplayFromLog (wal_env ex_obs) (ex_new (projr (OpenWAL None ''compact.wal''
       (snd (CompactToWAL None (\<lambda>_. no_fault) ''compact.wal'' ex_life Map.empty)))))) = None"
proof -
  let ?fs = "snd (CompactToWAL None (\<lambda>_. no_fault) ''compact.wal'' ex_life Map.empty)"
  let ?l = "projr (OpenWAL None ''compact.wal'' ?fs)"
  have ok: "engine_ok ex_life" using reachable_ok ex_life_fields(4) by blast
  have "\<forall>b \<in> set (CanonicalBeliefs ex_life). \<exists>p. encodeBelief b = Inr p"
    by (simp add: set_CanonicalBeliefs [OF ok] ex_life_fields encodeBelief_def too_large_def)
  moreover have "\<forall>r \<in> set (CanonicalResolutions ex_life). \<exists>p. encodeResolution r = Inr p"
    by (simp add: set_CanonicalResolutions [OF ok] ex_life_fields)
  moreover have "OpenWAL None ''compact.wal'' ?fs = Inr ?l"
    by (simp add: OpenWAL_def)
  ultimately show ?thesis
    using compact_restores [OF ex_life_fields(4), of "''compact.wal''" Map.empty ?l "\<lambda>_. 0" None "ex_new ?l" ex_obs]
    by (simp add: ex_life_fields ex_new_New)
qed

text \<open>
  C11: A compaction that fails, at whatever append and in whatever way, leaves a log that replays
  without an error a part, from the beginning, of the canonical records, all of them if it reported
  no error; no other file is touched.
\<close>

theorem compact_crash_consistent:
  assumes "CompactToWAL None out path e fs = (err, fs')" and "OpenWAL None path fs' = Inr l"
  shows "\<exists>k xs. take k (compact_records e) = map Inr xs \<and> wal_records l = (xs, None) \<and>
    (err = None \<longrightarrow> map Inr xs = compact_records e) \<and> (\<forall>q. q \<noteq> path \<longrightarrow> fs' q = fs q)"
  using compacted_log [OF assms] by auto

theorem compact_crash_consistent_witness:
  "\<exists>k xs. take k (compact_records ex_life) = map Inr xs \<and>
     wal_records (projr (OpenWAL None ''c'' (snd (CompactToWAL None
       (\<lambda>_. \<lparr>o_header = Written, o_payload = WriteFailed 1 ''disk full'', o_sync = None\<rparr>) ''c'' ex_life Map.empty)))) = (xs, None)"
proof -
  let ?out = "\<lambda>_ :: nat. \<lparr>o_header = Written, o_payload = WriteFailed 1 ''disk full'', o_sync = None\<rparr>"
  let ?r = "CompactToWAL None ?out ''c'' ex_life Map.empty"
  have "?r = (fst ?r, snd ?r)" and "OpenWAL None ''c'' (snd ?r) = Inr (projr (OpenWAL None ''c'' (snd ?r)))"
    by (simp_all add: OpenWAL_def)
  from compact_crash_consistent [OF this] show ?thesis by blast
qed

text \<open>
  C22: One oversized belief makes compaction destroy what it was to preserve. Where the engine holds a
  belief that has no encoding, which \<open>Ingest\<close> stores all the same, \<open>CompactToWAL\<close> fails whatever the
  operating system does, after it has emptied the target: what the target replays from then on are
  some of the beliefs, and no resolution and no rule.
\<close>

theorem oversized_belief_blocks_compaction:
  assumes "reachable env P e" and "b \<in> set (Snapshot (bAtom b) (e_beliefs e))" and "encodeBelief b = Inl er"
    and "CompactToWAL None out path e fs = (err, fs')" and "OpenWAL None path fs' = Inr l"
  shows "err \<noteq> None \<and> length (fst (wal_records l)) < length (CanonicalBeliefs e) \<and>
    (\<forall>r \<in> set (fst (wal_records l)). recType r = EventFactAdded)"
proof -
  let ?A = "map (record_of EventFactAdded encodeBelief) (CanonicalBeliefs e)"
  have ok: "engine_ok e" using reachable_ok assms(1) by blast
  obtain k xs where k: "take k (compact_records e) = map Inr xs" and l: "wal_records l = (xs, None)"
      and none: "err = None \<longrightarrow> compact_records e = map Inr xs"
    using compacted_log [OF assms(4,5)] by blast
  have "b \<in> set (CanonicalBeliefs e)"
    using assms(2) ok engine_okD(2) [OF ok] by (simp add: set_CanonicalBeliefs beliefs_of_def mem_Snapshot)
  then have bad: "Inl er \<in> set ?A"
    using assms(3) by (force simp: record_of_def and_then_def)
  have "\<not> length ?A \<le> k"
  proof
    assume "length ?A \<le> k"
    then have "set ?A \<subseteq> set (take k (compact_records e))"
      by (simp add: compact_records_def)
    with bad k show False by auto
  qed
  then have A: "take k ?A = map Inr xs" "k < length ?A"
    using k by (simp_all add: compact_records_def)
  have "recType r = EventFactAdded" if "r \<in> set xs" for r
  proof -
    have "Inr r \<in> set ?A"
      using that A(1) in_set_takeD [of "Inr r" k ?A] by auto
    then show ?thesis by (auto simp: record_of_def and_then_Inr eq_commute [of "Inr r"])
  qed
  moreover have "length xs < length (CanonicalBeliefs e)"
    using arg_cong [OF A(1), of length] A(2) by simp
  moreover have "err \<noteq> None"
  proof
    assume "err = None"
    with none have "set ?A \<subseteq> Inr ` set xs"
      by (metis compact_records_def set_append set_map sup_ge1)
    with bad show False by auto
  qed
  ultimately show ?thesis using l by simp
qed

theorem oversized_belief_blocks_compaction_witness:
  "fst (CompactToWAL None (\<lambda>_. no_fault) ''c'' (ex_two ex_big ex_big) Map.empty) \<noteq> None"
proof -
  let ?r = "CompactToWAL None (\<lambda>_. no_fault) ''c'' (ex_two ex_big ex_big) Map.empty"
  note f = ex_two_fields [OF ex_big_valid(1) ex_big_valid(1)]
  have "ex_big \<in> set (Snapshot (bAtom ex_big) (e_beliefs (ex_two ex_big ex_big)))"
    using f(1) engine_okD(2) [OF f(4)] by (simp add: mem_Snapshot beliefs_of_def)
  moreover have "?r = (fst ?r, snd ?r)" and "OpenWAL None ''c'' (snd ?r) = Inr (projr (OpenWAL None ''c'' (snd ?r)))"
    by (simp_all add: OpenWAL_def)
  ultimately show ?thesis
    using oversized_belief_blocks_compaction [OF f(5) _ ex_big_valid(2)] by blast
qed

end
