(* ===== verification/Explain.thy ===== *)
theory Explain
  imports Engine_Props
begin

text \<open>
  \<open>explain.go\<close>: the graph of the derivations behind an atom, up to a depth. \<open>visit\<close> is the recursive
  closure, with the variables it shares with \<open>ExplainGraph\<close> in one record; its depth never becomes
  negative, so it is a natural number. A node that was visited with a smaller depth is visited again.
  \<open>MarshalJSONPretty\<close> is left to package \<open>encoding/json\<close>.
\<close>

section \<open>Proof graphs\<close>

record ProofNode =
  pn_id :: string
  pn_kind :: string
  pn_atom :: Atom
  pn_details :: "(string, string) gomap"

record ProofEdge =
  pe_from :: string
  pe_to :: string
  pe_kind :: string
  pe_rule :: string

record ProofGraph =
  pg_root :: string
  pg_nodes :: "ProofNode list"
  pg_edges :: "ProofEdge list"

record ('l, 'i) explain_vars =
  x_engine :: "('l, 'i) Engine"
  x_nodes :: "(string, ProofNode) gomap"
  x_edges :: "ProofEdge list"
  x_seen :: "(string, nat) gomap"

definition premise_edge :: "Atom \<Rightarrow> DerivationProof \<Rightarrow> Atom \<Rightarrow> ProofEdge" where
  "premise_edge a der p =
     \<lparr>pe_from = atomKey a, pe_to = atomKey p, pe_kind = ''premise'', pe_rule = dpRule der\<rparr>"

definition visit_node :: "nat \<Rightarrow> Atom \<Rightarrow> ('l, 'i) explain_vars \<Rightarrow> ('l, 'i) explain_vars" where
  "visit_node d a st =
     (let id = atomKey a;
          st1 = st\<lparr>x_seen := go_put id d (x_seen st)\<rparr>
      in if go_get (x_nodes st1) id \<noteq> None then st1
         else
           let ((v, pf), e) = Evaluate a (x_engine st1);
               kind = (if v = TruthBoth then ''contradiction'' else pf_kind pf)
           in st1\<lparr>x_engine := e,
                  x_nodes := go_put id \<lparr>pn_id = id, pn_kind = kind, pn_atom = a, pn_details = pf_details pf\<rparr> (x_nodes st1)\<rparr>)"

fun visit :: "nat \<Rightarrow> Atom \<Rightarrow> ('l, 'i) explain_vars \<Rightarrow> ('l, 'i) explain_vars" where
  "visit d a st =
     (if (case go_get (x_seen st) (atomKey a) of Some prev \<Rightarrow> d \<le> prev | None \<Rightarrow> False) then st
      else
        let st1 = visit_node d a st in
        case d of
          0 \<Rightarrow> st1
        | Suc d' \<Rightarrow>
            fold (\<lambda>der. fold (\<lambda>p st. visit d' p (st\<lparr>x_edges := x_edges st @ [premise_edge a der p]\<rparr>)) (dpPremises der))
              (derivationsFor a (e_derivations (x_engine st1))) st1)"

declare visit.simps [simp del]

definition proof_edge_less :: "ProofEdge \<Rightarrow> ProofEdge \<Rightarrow> bool" where
  "proof_edge_less x y =
     (if pe_from x \<noteq> pe_from y then pe_from x < pe_from y
      else if pe_to x \<noteq> pe_to y then pe_to x < pe_to y
      else if pe_kind x \<noteq> pe_kind y then pe_kind x < pe_kind y
      else pe_rule x < pe_rule y)"

definition ExplainGraph :: "Atom \<Rightarrow> int \<Rightarrow> ('l, 'i) Engine \<Rightarrow> ProofGraph \<times> ('l, 'i) Engine" where
  "ExplainGraph rt depth e =
     (let depth' = (if depth < 0 then 0 else depth);
          st = visit (nat depth') rt \<lparr>x_engine = e, x_nodes = [], x_edges = [], x_seen = []\<rparr>;
          nlist = sort_slice (\<lambda>x y. pn_id x < pn_id y) (map snd (x_nodes st));
          edges = sort_slice proof_edge_less (x_edges st)
      in (\<lparr>pg_root = atomKey rt, pg_nodes = nlist, pg_edges = edges\<rparr>, x_engine st))"

interpretation node_sort: keyed_less "\<lambda>x y. pn_id x < pn_id y" pn_id
  by unfold_locales simp

definition proof_edge_key :: "ProofEdge \<Rightarrow> string \<times> string \<times> string \<times> string" where
  "proof_edge_key x = (pe_from x, pe_to x, pe_kind x, pe_rule x)"

interpretation proof_edge_sort: total_less proof_edge_less proof_edge_key
  by unfold_locales (auto simp: proof_edge_less_def proof_edge_key_def inj_on_def)

section \<open>What the graph should hold\<close>

text \<open>The atoms within so many steps from a conclusion to a premise, and the steps on the way.\<close>

fun proof_atoms :: "nat \<Rightarrow> derivation_map \<Rightarrow> Atom \<Rightarrow> Atom set" where
  "proof_atoms 0 m a = {a}"
| "proof_atoms (Suc n) m a =
     insert a (\<Union>der \<in> set (derivationsFor a m). \<Union>p \<in> set (dpPremises der). proof_atoms n m p)"

fun proof_steps :: "nat \<Rightarrow> derivation_map \<Rightarrow> Atom \<Rightarrow> ProofEdge set" where
  "proof_steps 0 m a = {}"
| "proof_steps (Suc n) m a =
     (\<Union>der \<in> set (derivationsFor a m). \<Union>p \<in> set (dpPremises der). insert (premise_edge a der p) (proof_steps n m p))"

definition node_of :: "Atom \<Rightarrow> ('l, 'i) Engine \<Rightarrow> ProofNode" where
  "node_of a e =
     (case Evaluate_result a e of
        (v, pf) \<Rightarrow> \<lparr>pn_id = atomKey a, pn_kind = (if v = TruthBoth then ''contradiction'' else pf_kind pf),
                    pn_atom = a, pn_details = pf_details pf\<rparr>)"

lemma node_of_core: "core e = core e' \<Longrightarrow> node_of a e = node_of a e'"
  using Evaluate_result_core [of e e' a] by (simp add: node_of_def)

lemma pn_id_node_of [simp]: "pn_id (node_of a e) = atomKey a"
  by (simp add: node_of_def split: prod.split)

lemma visit_node_fields:
  "core (x_engine (visit_node d a st)) = core (x_engine st)"
  "x_edges (visit_node d a st) = x_edges st"
  "x_seen (visit_node d a st) = go_put (atomKey a) d (x_seen st)"
  "x_nodes (visit_node d a st) =
     (if go_get (x_nodes st) (atomKey a) \<noteq> None then x_nodes st
      else go_put (atomKey a) (node_of a (x_engine st)) (x_nodes st))"
  by (simp_all add: visit_node_def Let_def split_beta node_of_def)

section \<open>Nothing else is visited\<close>

text \<open>The nodes and edges that are new between two states are among the given ones.\<close>

definition nodes_ok :: "('l, 'i) explain_vars \<Rightarrow> bool" where
  "nodes_ok st \<longleftrightarrow> go_keys_distinct (x_nodes st) \<and> fst ` set (x_nodes st) = fst ` set (x_seen st)"

definition grew :: "Atom set \<Rightarrow> ProofEdge set \<Rightarrow> ('l, 'i) explain_vars \<Rightarrow> ('l, 'i) explain_vars \<Rightarrow> bool" where
  "grew A E st st' \<longleftrightarrow>
     core (x_engine st') = core (x_engine st) \<and> (nodes_ok st \<longrightarrow> nodes_ok st') \<and>
     set (x_edges st') \<subseteq> set (x_edges st) \<union> E \<and>
     set (x_nodes st') \<subseteq> set (x_nodes st) \<union> (\<lambda>b. (atomKey b, node_of b (x_engine st))) ` A"

lemma grew_refl: "grew A E st st"
  by (simp add: grew_def)

lemma grew_trans:
  assumes "grew A E st st1" and "grew A' E' st1 st2" and "A \<subseteq> B" and "A' \<subseteq> B" and "E \<subseteq> F" and "E' \<subseteq> F"
  shows "grew B F st st2"
proof -
  have c: "core (x_engine st1) = core (x_engine st)"
    using assms(1) by (simp add: grew_def)
  have n: "(\<lambda>b. (atomKey b, node_of b (x_engine st1))) = (\<lambda>b. (atomKey b, node_of b (x_engine st)))"
    using node_of_core [OF c] by simp
  have "set (x_edges st2) \<subseteq> set (x_edges st) \<union> F"
    using assms unfolding grew_def by blast
  moreover have "set (x_nodes st2) \<subseteq> set (x_nodes st) \<union> (\<lambda>b. (atomKey b, node_of b (x_engine st))) ` B"
    using assms unfolding grew_def n by blast
  ultimately show ?thesis
    using assms(1,2) c by (simp add: grew_def)
qed

lemma grew_visit_node: "grew {a} {} st (visit_node d a st)"
proof (cases "go_get (x_nodes st) (atomKey a)")
  case None
  then have "x_nodes (visit_node d a st) = x_nodes st @ [(atomKey a, node_of a (x_engine st))]"
    by (simp add: visit_node_fields go_put_fresh go_get_in_keys)
  with None show ?thesis
    by (auto simp: grew_def visit_node_fields nodes_ok_def go_map_simps go_get_in_keys simp del: update_conv')
next
  case (Some n)
  then have "atomKey a \<in> fst ` set (x_nodes st)"
    by (metis go_get_in_keys option.distinct(1))
  with Some show ?thesis
    by (auto simp: grew_def visit_node_fields nodes_ok_def go_map_simps simp del: update_conv')
qed

lemma core_derivations: "core e = core e' \<Longrightarrow> e_derivations e = e_derivations e'"
  by (simp add: core_def)

lemma grew_fold:
  assumes "\<And>x st. x \<in> set xs \<Longrightarrow> core (x_engine st) = c \<Longrightarrow> grew (A x) (E x) st (f x st)"
    and "core (x_engine st) = c"
  shows "grew (\<Union>x \<in> set xs. A x) (\<Union>x \<in> set xs. E x) st (fold f xs st)"
  using assms
proof (induction xs arbitrary: st)
  case (Cons x xs)
  have 1: "grew (A x) (E x) st (f x st)"
    using Cons.prems by simp
  then have "core (x_engine (f x st)) = c"
    using Cons.prems(2) by (simp add: grew_def)
  then have "grew (\<Union>x \<in> set xs. A x) (\<Union>x \<in> set xs. E x) (f x st) (fold f xs (f x st))"
    using Cons.prems(1) by (intro Cons.IH) simp_all
  with 1 show ?case by (auto intro: grew_trans)
qed (simp add: grew_refl)

lemma grew_visit:
  fixes st :: "('l, 'i) explain_vars"
  shows "core (x_engine st) = c \<Longrightarrow> m = e_derivations (x_engine st) \<Longrightarrow>
    grew (proof_atoms d m a) (proof_steps d m a) st (visit d a st)"
proof (induction d arbitrary: a st)
  case 0
  then show ?case
    using grew_visit_node [of a st 0] by (simp add: visit.simps [of 0] grew_refl split: option.split)
next
  case (Suc d)
  let ?st1 = "visit_node (Suc d) a st"
  let ?f = "\<lambda>der p st. visit d p (st\<lparr>x_edges := x_edges st @ [premise_edge a der p]\<rparr>)"
  have 1: "grew {a} {} st ?st1" by (rule grew_visit_node)
  have c1: "core (x_engine ?st1) = c"
    using Suc.prems(1) by (simp add: visit_node_fields)
  have m: "e_derivations (x_engine st') = m" if "core (x_engine st') = c" for st' :: "('l, 'i) explain_vars"
    using that Suc.prems core_derivations by metis
  have step: "grew (proof_atoms d m p) (insert (premise_edge a der p) (proof_steps d m p)) st' (?f der p st')"
    if "core (x_engine st') = c" for der p and st' :: "('l, 'i) explain_vars"
  proof (rule grew_trans [OF _ Suc.IH])
    show "grew {} {premise_edge a der p} st' (st'\<lparr>x_edges := x_edges st' @ [premise_edge a der p]\<rparr>)"
      by (simp add: grew_def nodes_ok_def)
  qed (use that m in auto)
  let ?A = "\<lambda>der. \<Union>p \<in> set (dpPremises der). proof_atoms d m p"
  let ?E = "\<lambda>der. \<Union>p \<in> set (dpPremises der). insert (premise_edge a der p) (proof_steps d m p)"
  have inner: "grew (?A der) (?E der) st' (fold (?f der) (dpPremises der) st')" if "core (x_engine st') = c"
    for der and st' :: "('l, 'i) explain_vars"
    using that by (intro grew_fold [where c = c] step)
  have "grew (\<Union>der \<in> set (derivationsFor a m). ?A der) (\<Union>der \<in> set (derivationsFor a m). ?E der) ?st1
      (fold (\<lambda>der. fold (?f der) (dpPremises der)) (derivationsFor a m) ?st1)"
    using c1 by (intro grew_fold [where c = c] inner)
  with 1 have "grew (proof_atoms (Suc d) m a) (proof_steps (Suc d) m a) st
      (fold (\<lambda>der. fold (?f der) (dpPremises der)) (derivationsFor a m) ?st1)"
    by (rule grew_trans) auto
  then show ?case
    by (simp add: visit.simps [of "Suc d"] grew_refl m [OF c1] Let_def split: option.split del: proof_atoms.simps proof_steps.simps)
qed

section \<open>Nothing is missed\<close>

text \<open>The depth with which an atom was visited, plus one; zero where it was not.\<close>

definition seen_at :: "('l, 'i) explain_vars \<Rightarrow> Atom \<Rightarrow> nat" where
  "seen_at st a = (case go_get (x_seen st) (atomKey a) of None \<Rightarrow> 0 | Some d \<Rightarrow> Suc d)"

text \<open>
  Between two states depths only rise, no edge is lost, and where the depth of an atom rises, its
  edges are there and its premises have been visited with at least one less.
\<close>

definition premises_seen :: "('l, 'i) explain_vars \<Rightarrow> derivation_map \<Rightarrow> Atom \<Rightarrow> nat \<Rightarrow> bool" where
  "premises_seen st m b n \<longleftrightarrow>
     (\<forall>der \<in> set (derivationsFor b m). \<forall>p \<in> set (dpPremises der).
        premise_edge b der p \<in> set (x_edges st) \<and> n < seen_at st p)"

definition progressed :: "Atom set \<Rightarrow> derivation_map \<Rightarrow> ('l, 'i) explain_vars \<Rightarrow> ('l, 'i) explain_vars \<Rightarrow> bool" where
  "progressed U m st st' \<longleftrightarrow>
     core (x_engine st') = core (x_engine st) \<and> set (x_edges st) \<subseteq> set (x_edges st') \<and>
     (\<forall>b. seen_at st b \<le> seen_at st' b) \<and>
     (\<forall>b \<in> U. \<forall>n. seen_at st b < seen_at st' b \<longrightarrow> seen_at st' b = Suc (Suc n) \<longrightarrow> premises_seen st' m b n)"

lemma premises_seen_mono:
  "premises_seen st m b n \<Longrightarrow> set (x_edges st) \<subseteq> set (x_edges st') \<Longrightarrow> (\<And>b. seen_at st b \<le> seen_at st' b) \<Longrightarrow>
    premises_seen st' m b n"
  unfolding premises_seen_def by (meson less_le_trans subsetD)

lemma progressed_refl: "progressed U m st st"
  by (simp add: progressed_def)

lemma progressed_trans:
  assumes "progressed U m st st1" and "progressed U m st1 st2"
  shows "progressed U m st st2"
proof -
  have mono: "set (x_edges st1) \<subseteq> set (x_edges st2)" "\<And>b. seen_at st1 b \<le> seen_at st2 b"
    using assms(2) by (simp_all add: progressed_def)
  have "premises_seen st2 m b n" if "b \<in> U" "seen_at st b < seen_at st2 b" "seen_at st2 b = Suc (Suc n)" for b n
  proof (cases "seen_at st1 b < seen_at st2 b")
    case True
    with that assms(2) show ?thesis by (simp add: progressed_def)
  next
    case False
    then have "seen_at st1 b = seen_at st2 b"
      using mono(2) [of b] by simp
    then have "premises_seen st1 m b n"
      using that assms(1) by (simp add: progressed_def)
    then show ?thesis by (rule premises_seen_mono [OF _ mono])
  qed
  moreover have "seen_at st b \<le> seen_at st2 b" for b
    using assms(1) mono(2) [of b] order.trans [of "seen_at st b" "seen_at st1 b"] by (simp add: progressed_def)
  ultimately show ?thesis
    using assms by (auto simp: progressed_def)
qed

text \<open>The loop over the premises.\<close>

lemma progressed_fold:
  assumes "\<And>x st. x \<in> set xs \<Longrightarrow> core (x_engine st) = c \<Longrightarrow> progressed U m st (f x st) \<and> Q x (f x st)"
    and mono: "\<And>x st st'. progressed U m st st' \<Longrightarrow> Q x st \<Longrightarrow> Q x st'"
    and "core (x_engine st) = c"
  shows "progressed U m st (fold f xs st) \<and> (\<forall>x \<in> set xs. Q x (fold f xs st))"
  using assms(1,3)
proof (induction xs arbitrary: st)
  case (Cons x xs)
  have 1: "progressed U m st (f x st)" "Q x (f x st)"
    using Cons.prems by simp_all
  then have "core (x_engine (f x st)) = c"
    using Cons.prems(2) by (simp add: progressed_def)
  then have 2: "progressed U m (f x st) (fold f xs (f x st)) \<and> (\<forall>y \<in> set xs. Q y (fold f xs (f x st)))"
    using Cons.prems(1) by (intro Cons.IH) simp_all
  with 1 show ?case
    using progressed_trans mono by auto
qed (simp add: progressed_refl)

lemma seen_at_visit_node:
  "seen_at (visit_node d a st) b = (if atomKey b = atomKey a then Suc d else seen_at st b)"
  by (simp add: seen_at_def visit_node_fields go_map_simps del: update_conv')

lemma visit_unfold:
  "visit d a st =
     (if d < seen_at st a then st
      else
        case d of
          0 \<Rightarrow> visit_node d a st
        | Suc d' \<Rightarrow>
            fold (\<lambda>der. fold (\<lambda>p st. visit d' p (st\<lparr>x_edges := x_edges st @ [premise_edge a der p]\<rparr>)) (dpPremises der))
              (derivationsFor a (e_derivations (x_engine st))) (visit_node d a st))"
proof -
  have "e_derivations (x_engine (visit_node d a st)) = e_derivations (x_engine st)"
    by (intro core_derivations) (simp add: visit_node_fields)
  then show ?thesis
    by (subst visit.simps) (auto simp: seen_at_def Let_def less_Suc_eq_le split: option.split nat.split)
qed

lemma visit_progressed:
  fixes st :: "('l, 'i) explain_vars"
  assumes inj: "inj_on atomKey U"
    and closed: "\<And>b der p. b \<in> U \<Longrightarrow> der \<in> set (derivationsFor b m) \<Longrightarrow> p \<in> set (dpPremises der) \<Longrightarrow> p \<in> U"
  shows "core (x_engine st) = c \<Longrightarrow> m = e_derivations (x_engine st) \<Longrightarrow> a \<in> U \<Longrightarrow>
    progressed U m st (visit d a st) \<and> d < seen_at (visit d a st) a"
proof (induction d arbitrary: a st)
  case 0
  have "progressed U m st (visit_node 0 a st)" if "seen_at st a = 0"
    using that by (auto simp: progressed_def visit_node_fields seen_at_visit_node) (auto simp: seen_at_def)
  then show ?case
    by (simp add: visit_unfold [of 0] progressed_refl seen_at_visit_node)
next
  case (Suc d)
  let ?st1 = "visit_node (Suc d) a st"
  let ?f = "\<lambda>der p st. visit d p (st\<lparr>x_edges := x_edges st @ [premise_edge a der p]\<rparr>)"
  let ?st2 = "fold (\<lambda>der. fold (?f der) (dpPremises der)) (derivationsFor a m) ?st1"
  let ?Q = "\<lambda>der p st :: ('l, 'i) explain_vars. premise_edge a der p \<in> set (x_edges st) \<and> d < seen_at st p"
  have c1: "core (x_engine ?st1) = c"
    using Suc.prems(1) by (simp add: visit_node_fields)
  have m: "m = e_derivations (x_engine st')" if "core (x_engine st') = c" for st' :: "('l, 'i) explain_vars"
    using that Suc.prems core_derivations by metis
  have mono: "?Q der p st''" if "progressed U m st' st''" "?Q der p st'" for der p and st' st'' :: "('l, 'i) explain_vars"
    using that less_le_trans by (fastforce simp: progressed_def)
  have step: "progressed U m st' (?f der p st') \<and> ?Q der p (?f der p st')"
    if "core (x_engine st') = c" "p \<in> U" for der p and st' :: "('l, 'i) explain_vars"
  proof -
    let ?st = "st'\<lparr>x_edges := x_edges st' @ [premise_edge a der p]\<rparr>"
    have 1: "progressed U m st' ?st"
      by (auto simp: progressed_def seen_at_def)
    have 2: "progressed U m ?st (visit d p ?st) \<and> d < seen_at (visit d p ?st) p"
      using that m by (intro Suc.IH) simp_all
    then have "premise_edge a der p \<in> set (x_edges (visit d p ?st))"
      by (auto simp: progressed_def)
    with 1 2 show ?thesis using progressed_trans by blast
  qed
  have inner: "progressed U m st' (fold (?f der) (dpPremises der) st') \<and>
      (\<forall>p \<in> set (dpPremises der). ?Q der p (fold (?f der) (dpPremises der) st'))"
    if "core (x_engine st') = c" "der \<in> set (derivationsFor a m)" for der and st' :: "('l, 'i) explain_vars"
  proof (rule progressed_fold [where c = c and Q = "?Q der"])
    show "progressed U m st'' (?f der p st'') \<and> ?Q der p (?f der p st'')"
      if "p \<in> set (dpPremises der)" "core (x_engine st'') = c" for p and st'' :: "('l, 'i) explain_vars"
      by (rule step [OF that(2) closed [OF Suc.prems(3) \<open>der \<in> set (derivationsFor a m)\<close> that(1)]])
  qed (rule mono, assumption+, rule that(1))
  have "progressed U m ?st1 ?st2 \<and> (\<forall>der \<in> set (derivationsFor a m). \<forall>p \<in> set (dpPremises der). ?Q der p ?st2)"
  proof (rule progressed_fold [where c = c and Q = "\<lambda>der st. \<forall>p \<in> set (dpPremises der). ?Q der p st"])
    show "\<forall>p \<in> set (dpPremises der). ?Q der p st''"
      if "progressed U m st' st''" "\<forall>p \<in> set (dpPremises der). ?Q der p st'"
      for der and st' st'' :: "('l, 'i) explain_vars"
      using that mono by metis
  qed (use c1 inner in simp_all)
  then have 2: "progressed U m ?st1 ?st2" and q: "premises_seen ?st2 m a d"
    by (simp_all add: premises_seen_def)
  show ?case
  proof (cases "Suc d < seen_at st a")
    case True
    then show ?thesis by (simp add: visit_unfold [of "Suc d"] progressed_refl)
  next
    case False
    have visit: "visit (Suc d) a st = ?st2"
      using False Suc.prems(2) by (simp add: visit_unfold [of "Suc d"])
    have le: "seen_at st b \<le> seen_at ?st1 b" for b
      using False by (simp add: seen_at_visit_node) (simp add: seen_at_def)
    have le2: "seen_at ?st1 b \<le> seen_at ?st2 b" for b
      using 2 by (simp add: progressed_def)
    have "premises_seen ?st2 m b n" if "b \<in> U" "seen_at st b < seen_at ?st2 b" "seen_at ?st2 b = Suc (Suc n)" for b n
    proof (cases "seen_at ?st1 b < seen_at ?st2 b")
      case True
      with that 2 show ?thesis by (simp add: progressed_def)
    next
      case False
      then have "seen_at ?st1 b = seen_at ?st2 b"
        using le2 [of b] by simp
      moreover from this have "atomKey b = atomKey a"
        using that(2) by (simp add: seen_at_visit_node split: if_splits)
      ultimately have "b = a" and "n = d"
        using inj_onD [OF inj _ that(1) Suc.prems(3)] that(3) by (simp_all add: seen_at_visit_node)
      with q show ?thesis by simp
    qed
    moreover have "seen_at st b \<le> seen_at ?st2 b" for b
      using le le2 by (rule order.trans)
    moreover have "core (x_engine ?st2) = core (x_engine st)" "set (x_edges st) \<subseteq> set (x_edges ?st2)"
      using 2 by (simp_all add: progressed_def visit_node_fields)
    moreover have "Suc d < seen_at ?st2 a"
      using le2 [of a] by (simp add: seen_at_visit_node)
    ultimately show ?thesis
      unfolding visit progressed_def by blast
  qed
qed

text \<open>So the visited atoms and the edges are all there, down to the depth.\<close>

lemma progressed_complete:
  assumes "progressed U m st st'" and "\<And>b. seen_at st b = 0"
    and closed: "\<And>b der p. b \<in> U \<Longrightarrow> der \<in> set (derivationsFor b m) \<Longrightarrow> p \<in> set (dpPremises der) \<Longrightarrow> p \<in> U"
  shows "b \<in> U \<Longrightarrow> n < seen_at st' b \<Longrightarrow>
    proof_steps n m b \<subseteq> set (x_edges st') \<and> (\<forall>c \<in> proof_atoms n m b. 0 < seen_at st' c)"
proof (induction n arbitrary: b)
  case (Suc n)
  obtain k where k: "seen_at st' b = Suc (Suc k)" "n \<le> k"
    using Suc.prems(2) less_imp_Suc_add [of "Suc n" "seen_at st' b"] by auto
  have "premises_seen st' m b k"
    using assms(1) Suc.prems(1) k(1) assms(2) by (simp add: progressed_def)
  then have step: "premise_edge b der p \<in> set (x_edges st')" "n < seen_at st' p"
    if "der \<in> set (derivationsFor b m)" "p \<in> set (dpPremises der)" for der p
    using that k(2) by (force simp: premises_seen_def)+
  have "proof_steps n m p \<subseteq> set (x_edges st') \<and> (\<forall>c \<in> proof_atoms n m p. 0 < seen_at st' c)"
    if "der \<in> set (derivationsFor b m)" "p \<in> set (dpPremises der)" for der p
    using closed [OF Suc.prems(1) that] step(2) [OF that] by (rule Suc.IH)
  then have sub: "proof_steps n m p \<subseteq> set (x_edges st')" "\<forall>c \<in> proof_atoms n m p. 0 < seen_at st' c"
    if "der \<in> set (derivationsFor b m)" "p \<in> set (dpPremises der)" for der p
    using that by blast+
  show ?case
    using k(1) by (simp add: UN_subset_iff step(1) sub)
qed simp

section \<open>Property\<close>

text \<open>
  C8: \<open>ExplainGraph\<close> is exact. Where the fields of the atom and of the premises behind it hold no bar
  and no semicolon, its nodes are the atoms that the derivations reach from the root within the depth,
  each once, in the order of their keys, with the verdict that \<open>Evaluate\<close> gives them; its edges are
  the steps from a conclusion to a premise among these, down to the depth, sorted: the test that skips
  a node seen before loses nothing. The engine changes in its metrics only.
\<close>

theorem explain_exact:
  fixes rt :: Atom and depth :: int and e :: "('l, 'i) Engine"
  assumes "plain_atom rt"
    and "\<forall>(a, d) \<in> derivs_of (e_derivations e). \<forall>p \<in> set (dpPremises d). plain_atom p"
  defines "g \<equiv> fst (ExplainGraph rt depth e)"
  shows "pg_root g = atomKey rt \<and>
    set (pg_nodes g) = (\<lambda>a. node_of a e) ` proof_atoms (nat depth) (e_derivations e) rt \<and>
    sorted_wrt (\<lambda>x y. pn_id x < pn_id y) (pg_nodes g) \<and>
    set (pg_edges g) = proof_steps (nat depth) (e_derivations e) rt \<and> sorted (map proof_edge_key (pg_edges g)) \<and>
    core (snd (ExplainGraph rt depth e)) = core e"
proof -
  let ?m = "e_derivations e" and ?d = "nat depth" and ?U = "{a. plain_atom a}"
  let ?st0 = "\<lparr>x_engine = e, x_nodes = [], x_edges = [], x_seen = []\<rparr>"
  define st where "st = visit ?d rt ?st0"
  have d: "nat (if depth < 0 then 0 else depth) = ?d" by simp
  have g: "g = \<lparr>pg_root = atomKey rt, pg_nodes = sort_slice (\<lambda>x y. pn_id x < pn_id y) (map snd (x_nodes st)),
      pg_edges = sort_slice proof_edge_less (x_edges st)\<rparr>" and e': "snd (ExplainGraph rt depth e) = x_engine st"
    by (simp_all add: g_def ExplainGraph_def d st_def [symmetric] Let_def)
  have inj: "inj_on atomKey ?U"
    by (auto simp: inj_on_def atomKey_inject)
  have closed: "p \<in> ?U" if "b \<in> ?U" "der \<in> set (derivationsFor b ?m)" "p \<in> set (dpPremises der)" for b der p
    using that assms(2) by (auto simp: mem_derivationsFor)
  have "progressed ?U ?m ?st0 st \<and> ?d < seen_at st rt"
    unfolding st_def by (rule visit_progressed [OF inj closed]) (use assms(1) in auto)
  then have p: "progressed ?U ?m ?st0 st" and rt: "?d < seen_at st rt" by simp_all
  have "proof_steps ?d ?m rt \<subseteq> set (x_edges st) \<and> (\<forall>c \<in> proof_atoms ?d ?m rt. 0 < seen_at st c)"
  proof (rule progressed_complete [OF p])
    show "seen_at ?st0 b = 0" for b by (simp add: seen_at_def)
  qed (use assms(1) closed rt in auto)
  then have steps: "proof_steps ?d ?m rt \<subseteq> set (x_edges st)" and atoms: "\<forall>c \<in> proof_atoms ?d ?m rt. 0 < seen_at st c"
    by blast+
  have "grew (proof_atoms ?d ?m rt) (proof_steps ?d ?m rt) ?st0 st"
    unfolding st_def by (rule grew_visit) simp_all
  then have gr: "core (x_engine st) = core e" "nodes_ok st" "set (x_edges st) \<subseteq> proof_steps ?d ?m rt"
      "set (x_nodes st) \<subseteq> (\<lambda>b. (atomKey b, node_of b e)) ` proof_atoms ?d ?m rt"
    by (simp_all add: grew_def nodes_ok_def)
  have plain: "proof_atoms n ?m b \<subseteq> ?U" if "b \<in> ?U" for n b
    using that closed by (induction n arbitrary: b) auto
  have "(atomKey c, node_of c e) \<in> set (x_nodes st)" if c: "c \<in> proof_atoms ?d ?m rt" for c
  proof -
    have "atomKey c \<in> fst ` set (x_nodes st)"
      using gr(2) atoms c by (force simp: nodes_ok_def seen_at_def go_get_in_keys [symmetric] split: option.splits)
    then obtain b where "b \<in> proof_atoms ?d ?m rt" "atomKey b = atomKey c" "(atomKey b, node_of b e) \<in> set (x_nodes st)"
      using gr(4) by force
    moreover from this have "b = c"
      using plain [of rt ?d] assms(1) c inj by (auto dest: inj_onD)
    ultimately show ?thesis by simp
  qed
  then have nodes: "set (x_nodes st) = (\<lambda>b. (atomKey b, node_of b e)) ` proof_atoms ?d ?m rt"
    using gr(4) by blast
  then have ids: "map pn_id (map snd (x_nodes st)) = map fst (x_nodes st)"
    by auto
  have "distinct (map pn_id (map snd (x_nodes st)))"
    using gr(2) unfolding ids by (simp add: nodes_ok_def)
  then have "distinct (map snd (x_nodes st))" "inj_on pn_id (set (map snd (x_nodes st)))"
    unfolding distinct_map [of pn_id] by blast+
  then have "sorted_wrt (\<lambda>x y. pn_id x < pn_id y) (pg_nodes g)"
    unfolding g ProofGraph.simps by (rule node_sort.sorted_wrt_sort_slice)
  moreover have "set (pg_nodes g) = (\<lambda>a. node_of a e) ` proof_atoms ?d ?m rt"
    by (simp add: g nodes image_image)
  ultimately show ?thesis
    using steps gr(1,3) proof_edge_sort.sorted_sort_slice [of "x_edges st"] by (auto simp: g e')
qed

theorem explain_exact_witness:
  "set (pg_edges (fst (ExplainGraph (mk_atom ''b'' ''has'' ''a'') 1 ex_derived))) =
   {\<lparr>pe_from = ''b|has|a'', pe_to = ''a|isa|b'', pe_kind = ''premise'', pe_rule = ''inverse''\<rparr>}"
proof -
  have plain: "plain_atom (mk_atom ''b'' ''has'' ''a'')" "plain_atom (mk_atom ''a'' ''isa'' ''b'')"
    by (simp_all add: plain_atom_def plain_def)
  have "\<forall>(a, d) \<in> derivs_of (e_derivations ex_derived). \<forall>p \<in> set (dpPremises d). plain_atom p"
    using plain(2) by (auto simp: derivs_of_def go_index_def ex_derived_proofs(1) split: if_splits)
  from explain_exact [OF plain(1) this, of 1] show ?thesis
    by (simp add: ex_derived_proofs(2) premise_edge_def atomKey_def bar_join_def)
qed

text \<open>
  An edge can occur twice in the list: where a premise is met first with little depth left and then
  again with more, the second visit appends its edges once more.
\<close>

lemma explain_edge_twice:
  "length (filter (\<lambda>x. pe_from x = ''z|p|z'') (pg_edges (fst (ExplainGraph (mk_atom ''x'' ''p'' ''x'') 3
     (ex_start\<lparr>e_derivations :=
       [(mk_atom ''x'' ''p'' ''x'', [\<lparr>dpRule = ''r'', dpPremises = [mk_atom ''y'' ''p'' ''y'', mk_atom ''z'' ''p'' ''z'']\<rparr>]),
        (mk_atom ''y'' ''p'' ''y'', [\<lparr>dpRule = ''r'', dpPremises = [mk_atom ''z'' ''p'' ''z'']\<rparr>]),
        (mk_atom ''z'' ''p'' ''z'', [\<lparr>dpRule = ''r'', dpPremises = [mk_atom ''w'' ''p'' ''w'']\<rparr>])]\<rparr>))))) = 2"
  by code_simp

end
