(* ===== verification/Semantic_Props.thy ===== *)
theory Semantic_Props
  imports Engine_Props
begin

text \<open>
  What a semantic query answers in a settled engine.
\<close>

section \<open>The matches\<close>

lemma distinct_matches:
  assumes "index_ok si"
  shows "distinct (map sm_atom (fst (Similar a t si)))"
proof -
  have "map sm_atom (List.map_filter (\<lambda>(b, v).
      (case f v of Inl _ \<Rightarrow> None | Inr sim \<Rightarrow> if t \<le> sim then Some \<lparr>sm_atom = b, sm_similarity = sim\<rparr> else None)) xs) =
      map fst (filter (\<lambda>(b, v). \<exists>sim. f v = Inr sim \<and> t \<le> sim) xs)"
    for f :: "Vector \<Rightarrow> go_error + rat" and xs :: "(Atom \<times> Vector) list"
    by (induction xs) (simp_all add: List.map_filter_simps split_beta split: sum.split)
  then show ?thesis
    using assms by (simp add: Similar_def split_beta index_ok_def distinct_map_filter)
qed

text \<open>The similarity of two atoms in the space of the engine.\<close>

definition atom_similarity :: "('l, 'i) Engine \<Rightarrow> Atom \<Rightarrow> Atom \<Rightarrow> go_error + rat" where
  "atom_similarity e a b =
     Similarity (atom_vector (sp_dims (si_space (e_semantic e))) a) (atom_vector (sp_dims (si_space (e_semantic e))) b)"

lemma sr_result_of [simp]:
  "sr_atom (result_of e m) = sm_atom m" "sr_similarity (result_of e m) = sm_similarity m"
  "sr_truth (result_of e m) = fst (Evaluate_result (sm_atom m) e)"
  "sr_proof (result_of e m) = snd (Evaluate_result (sm_atom m) e)"
  by (simp_all add: result_of_def split: prod.split)

section \<open>Properties\<close>

text \<open>
  C12: The answer of a semantic query in a settled engine. The hits are exactly the facts of the graph that are as similar
  to the atom asked for as the threshold demands, each once, with its similarity and with the verdict
  and the proof that \<open>Evaluate\<close> gives; every hit is true or both, and a fact that is asked for is its
  own hit at any threshold up to 1. The hits come by falling similarity, those of one similarity by
  their keys, and the query changes neither the beliefs nor the facts.
\<close>

theorem semantic_query_exact:
  assumes "settled env told e" and "SemanticQuery a t e = (rs, e')"
  shows "sr_atom ` set rs =
      {b \<in> set (map edge_atom (EdgesAll (e_graph e))). \<exists>s \<ge> t. atom_similarity e a b = Inr s} \<and>
    distinct (map sr_atom rs) \<and>
    (\<forall>x \<in> set rs. atom_similarity e a (sr_atom x) = Inr (sr_similarity x) \<and>
       (sr_truth x, sr_proof x) = fst (Evaluate (sr_atom x) e) \<and> sr_truth x \<in> {TruthTrue, TruthBoth}) \<and>
    (a \<in> set (map edge_atom (EdgesAll (e_graph e))) \<and> t \<le> 1 \<longrightarrow> a \<in> sr_atom ` set rs) \<and>
    sorted_wrt (\<lambda>x y. sr_similarity x > sr_similarity y \<or>
       sr_similarity x = sr_similarity y \<and> atomKey (sr_atom x) \<le> atomKey (sr_atom y)) rs \<and>
    beliefs_of e' = beliefs_of e \<and> facts_of e' = facts_of e"
    (is "?hits \<and> ?once \<and> ?each \<and> ?own \<and> ?order \<and> ?same")
proof (intro conjI)
  have ok: "engine_ok e" "synced e" using settled_ok [OF assms(1)] by simp_all
  note iok = engine_okD(5) [OF ok(1)]
  have rs: "rs = sort_slice semantic_less (map (result_of e) (fst (Similar a t (e_semantic e))))"
    using SemanticQuery_result(1) [of a t e] assms(2) by simp
  have mset: "mset rs = mset (map (result_of e) (fst (Similar a t (e_semantic e))))"
    unfolding rs by (simp add: semantic_sort.sort_slice_key)
  then have set_rs: "set rs = result_of e ` set (fst (Similar a t (e_semantic e)))"
    using mset_eq_setD by fastforce
  note hit = Similar_exact [OF iok, of _ a t, folded atom_similarity_def]
  have idx: "indexed (e_semantic e) = set (map edge_atom (EdgesAll (e_graph e)))"
    by (rule synced_graph(2) [OF ok])
  show hits: ?hits
    unfolding set_rs idx [symmetric] image_image sr_result_of
  proof (intro equalityI subsetI)
    fix b assume "b \<in> {b \<in> indexed (e_semantic e). \<exists>s \<ge> t. atom_similarity e a b = Inr s}"
    then obtain s where "b \<in> indexed (e_semantic e)" "t \<le> s" "atom_similarity e a b = Inr s" by blast
    then have "\<lparr>sm_atom = b, sm_similarity = s\<rparr> \<in> set (fst (Similar a t (e_semantic e)))"
      by (simp add: hit)
    then show "b \<in> sm_atom ` set (fst (Similar a t (e_semantic e)))" by force
  qed (auto simp: hit)
  have "mset (map sr_atom rs) = mset (map sm_atom (fst (Similar a t (e_semantic e))))"
    using arg_cong [OF mset, of "image_mset sr_atom"] by (simp add: multiset.map_comp comp_def)
  then show ?once
    using distinct_matches [OF iok, of a t] mset_eq_imp_distinct_iff by blast
  show ?each
  proof
    fix x assume "x \<in> set rs"
    then obtain m where m: "m \<in> set (fst (Similar a t (e_semantic e)))" "x = result_of e m"
      unfolding set_rs by blast
    then have held: "believed_as PolarityPositive (sm_atom m) e" "\<not> resolvedFalse (sm_atom m) e"
      using synced_graph(1) [OF ok] idx by (auto simp: hit)
    have "rPolarity r = PolarityPositive" if "Resolution_of (sm_atom m) (e_beliefs e) = Some r" for r
      using Resolution_of_valid [OF engine_okD(3) [OF ok(1)] that] held(2) that
      by (auto simp: valid_resolution_def check_fields_def resolvedFalse_def split: if_splits)
    then have "fst (Evaluate_result (sm_atom m) e) \<in> {TruthTrue, TruthBoth}"
      using held(1) by (auto simp: Evaluate_verdict_cases split: option.split bool.split)
    then show "atom_similarity e a (sr_atom x) = Inr (sr_similarity x) \<and>
        (sr_truth x, sr_proof x) = fst (Evaluate (sr_atom x) e) \<and> sr_truth x \<in> {TruthTrue, TruthBoth}"
      using m by (simp add: hit)
  qed
  have "atom_similarity e a a = Inr 1"
    using Similarity_self atom_vector_ok [OF index_dims_pos [OF iok]] by (simp add: atom_similarity_def)
  then show ?own
    unfolding hits by blast
  show ?order
    using semantic_sort.sorted_sort_slice unfolding rs sorted_wrt_map
    by (rule sorted_wrt_mono_rel [rotated]) (auto simp: semantic_key_def less_eq_prod_def)
  show "beliefs_of e' = beliefs_of e" "facts_of e' = facts_of e"
    using core_abs(1,2) [OF SemanticQuery_result(2) [of a t e]] assms(2)
    by (simp_all add: cached_def beliefs_of_def facts_of_def)
qed

theorem semantic_query_exact_witness:
  "sr_atom ` set (fst (SemanticQuery (mk_atom ''a'' ''isa'' ''b'') 1 ex_told)) = {mk_atom ''a'' ''isa'' ''b''} \<and>
   sr_truth ` set (fst (SemanticQuery (mk_atom ''a'' ''isa'' ''b'') 1 ex_told)) \<subseteq> {TruthTrue, TruthBoth}"
proof -
  have "set (map edge_atom (EdgesAll (e_graph ex_told))) = {mk_atom ''a'' ''isa'' ''b''}"
    using edge_atoms [of ex_told] reachable_ok [OF ex_told_reachable] ex_told_fields(2)
    by (auto simp: atom_triple_def)
  note facts = this
  obtain rs e' where q: "SemanticQuery (mk_atom ''a'' ''isa'' ''b'') 1 ex_told = (rs, e')" by fastforce
  note exact = semantic_query_exact [OF ex_told_settled q, unfolded facts]
  then have "sr_atom ` set rs \<subseteq> {mk_atom ''a'' ''isa'' ''b''}" and "mk_atom ''a'' ''isa'' ''b'' \<in> sr_atom ` set rs"
    by blast+
  then show ?thesis
    unfolding q fst_conv using exact by blast
qed

end
