(* ===== verification/Bulk_Props.thy ===== *)
theory Bulk_Props
  imports Engine_Props
begin

text \<open>
  What the bulk loaders load and count, when they end, and what they leave out in silence.
\<close>

section \<open>A load, over the abstractions of the engine\<close>

text \<open>
  The beliefs of the engine after a load are those before, the valid ones of the input, and
  conclusions of rules; the log got a record for each valid one, and what it answered is ignored.
\<close>

definition loads :: "('l, 'i) env \<Rightarrow> Belief list \<Rightarrow> ('l, 'i) Engine \<Rightarrow> ('l, 'i) Engine \<Rightarrow> bool" where
  "loads env bs e e' \<longleftrightarrow>
     beliefs_of e \<union> {b \<in> set bs. valid_belief b} \<subseteq> beliefs_of e' \<and>
     (\<forall>b \<in> beliefs_of e'. b \<in> beliefs_of e \<or> b \<in> set bs \<and> valid_belief b \<or> rule_made (e_rules e) b) \<and>
     facts_of e \<subseteq> facts_of e' \<and> e_rules e' = e_rules e \<and>
     (\<forall>a. Resolution_of a (e_beliefs e') = Resolution_of a (e_beliefs e)) \<and>
     e_log e' = log_all env (filter valid_belief bs) (e_log e)"

lemma loads_mem: "loads env bs e e' \<Longrightarrow> b \<in> set bs \<Longrightarrow> valid_belief b \<Longrightarrow> b \<in> beliefs_of e'"
  by (auto simp: loads_def)

lemma Resolution_of_ApplyRules:
  fixes e :: "('l, 'i) Engine"
  assumes "engine_ok e"
  shows "Resolution_of a (e_beliefs (ApplyRules n e)) = Resolution_of a (e_beliefs e)"
  using ApplyRules_induct [where P = "\<lambda>x. Resolution_of a (e_beliefs x) = Resolution_of a (e_beliefs e)", OF assms]
  by (simp add: derive_step_def ingestNoLog_beliefs Resolution_of_Add engine_okD)

lemma facts_of_ingest_all: "engine_ok e \<Longrightarrow> facts_of e \<subseteq> facts_of (ingest_all bs e)"
proof (induction bs arbitrary: e)
  case (Cons b bs)
  show ?case
    using Cons.IH [OF engine_ok_ingest [OF Cons.prems], of b] Cons.prems
    by (auto simp: ingest_all_Cons facts_of_ingest split: if_splits)
qed (simp add: ingest_all_def)

lemma bulk_run_loads:
  fixes e :: "('l, 'i) Engine"
  assumes "engine_ok e"
  shows "loads env (bulk_beliefs items) e (snd (bulk_run env items e))"
proof -
  let ?e1 = "ingest_all (bulk_beliefs items) e"
  note core = core_abs [OF bulk_run_engine(1) [of env items e]]
  note ok = engine_ok_ingest_all [OF assms, of "bulk_beliefs items"]
  note b = ingest_all_beliefs [OF assms, of "bulk_beliefs items"]
  note r = ApplyRules_beliefs [OF ok, of 10000]
  have "facts_of e \<subseteq> facts_of (ApplyRules 10000 ?e1)"
    using facts_of_ingest_all [OF assms] ApplyRules_facts_mono [OF ok] by blast
  then show ?thesis
    using b r bulk_run_engine(2) [of env items e]
    by (auto simp: loads_def core(1,2,6,7) Resolution_of_ApplyRules [OF ok] ApplyRules_fields [OF ok])
qed

section \<open>Tab-separated lines\<close>

text \<open>The lines that count, and the beliefs of those with enough columns.\<close>

definition data_lines :: "string \<Rightarrow> string list" where
  "data_lines content =
     filter (\<lambda>l. l \<noteq> [] \<and> \<not> has_prefix l ''#'') (map TrimSpace (scan_lines content))"

definition rows_beliefs :: "string \<Rightarrow> string list list \<Rightarrow> Belief list" where
  "rows_beliefs source rows = map (columns_belief source) (filter (\<lambda>row. 3 \<le> length row) rows)"

lemma line_items:
  "bulk_beliefs (map (line_item source) ls) =
     rows_beliefs source (map (split_at tab) (filter (\<lambda>l. l \<noteq> [] \<and> \<not> has_prefix l ''#'') (map TrimSpace ls)))"
  "count_items counted_item (map (line_item source) ls) =
     int (length (filter (\<lambda>l. l \<noteq> [] \<and> \<not> has_prefix l ''#'') (map TrimSpace ls)))"
  "count_items bad_item (map (line_item source) ls) + count_items good_item (map (line_item source) ls) =
     int (length (filter (\<lambda>l. l \<noteq> [] \<and> \<not> has_prefix l ''#'') (map TrimSpace ls)))"
  by (induction ls) (auto simp: rows_beliefs_def line_item_def Let_def count_items_def counted_item_def
      bad_item_def good_item_def)

lemma count_good: "count_items good_item items = int (length (filter valid_belief (bulk_beliefs items)))"
proof (induction items)
  case (Cons i items)
  then show ?case by (cases i) (simp_all add: count_items_def good_item_def)
qed (simp add: count_items_def)

section \<open>Records\<close>

lemma record_items:
  "bulk_beliefs (map (record_item source) rs) = rows_beliefs source (List.map_filter id rs)"
  "count_items counted_item (map (record_item source) rs) = int (length (List.map_filter id rs))"
  "count_items bad_item (map (record_item source) rs) + count_items good_item (map (record_item source) rs) = int (length rs)"
  by (induction rs)
    (auto simp: rows_beliefs_def record_item_def row_item_def count_items_def counted_item_def bad_item_def
      good_item_def List.map_filter_simps split: option.split)

text \<open>A record that \<open>Read\<close> accepts has at least one field, and as many as the first record had.\<close>

lemma csv_fields_some:
  "csv_fields rerr q fs line rest er = (gs, None, rest') \<Longrightarrow> gs \<noteq> []"
proof (induction rerr q fs line rest er arbitrary: gs rest' rule: csv_fields.induct)
  case (1 rerr fs line rest er)
  show ?case
  proof (cases "line \<noteq> [] \<and> hd line = quote")
    case True
    then show ?thesis
      using 1(3) by (subst (asm) csv_fields.simps) (use 1(1) [OF True] in simp)
  next
    case False
    note ih = 1(2) [OF False refl refl refl]
    show ?thesis
      using 1(3) ih False by (subst (asm) csv_fields.simps) (auto simp: Let_def split: if_splits)
  qed
next
  case (2 rerr buf fs line rest er)
  let ?pre = "takeWhile (\<lambda>c. c \<noteq> quote) line" and ?l = "tl (dropWhile (\<lambda>c. c \<noteq> quote) line)"
  note eq = csv_fields.simps(2) [of rerr buf fs line rest er]
  consider (quoted) "quote \<in> set line" "?l \<noteq> [] \<and> hd ?l = quote"
    | (field) "quote \<in> set line" "\<not> (?l \<noteq> [] \<and> hd ?l = quote)" "?l \<noteq> [] \<and> hd ?l = comma"
    | (next_line) "quote \<notin> set line" "line \<noteq> []" "er = None"
    | (stop) "quote \<in> set line" "\<not> (?l \<noteq> [] \<and> hd ?l = quote)" "\<not> (?l \<noteq> [] \<and> hd ?l = comma)"
    | (finish) "quote \<notin> set line" "line = [] \<or> er \<noteq> None"
    by blast
  then show ?case
  proof cases
    case quoted
    with 2(4) show ?thesis using 2(1) [OF quoted(1) refl refl quoted(2)] by (simp add: eq)
  next
    case field
    with 2(4) show ?thesis using 2(2) [OF field(1) refl refl field(2,3)] by (simp add: eq)
  next
    case next_line
    obtain l r er' where rl: "csv_readLine rerr rest = (l, r, er')" by (metis prod_cases3)
    have "csv_fields rerr (Some buf) fs line rest er =
        csv_fields rerr (Some (buf @ line)) fs l r (if er' = Some ErrEOF then None else er')"
      unfolding eq using next_line by (simp add: rl)
    then show ?thesis
      using 2(3) [OF next_line(1,2) _ rl [symmetric] refl] next_line(3) 2(4) by metis
  next
    case stop
    then show ?thesis
      using 2(4) unfolding eq Let_def by (simp only: if_True if_False split: if_splits) auto
  next
    case finish
    then show ?thesis
      using 2(4) unfolding eq by (simp only: if_True if_False split: if_splits) auto
  qed
qed

lemma csv_Read_width:
  assumes "csv_Read ErrEOF n s = (err, fs, n', s')" and "err \<noteq> Some ErrEOF"
  shows "(0 < n \<longrightarrow> n' = n) \<and> (err = None \<longrightarrow> 0 < n' \<and> length fs = n')"
  using assms csv_fields_some
  by (fastforce simp: csv_Read_def split: prod.splits if_splits)

lemma csv_records_width:
  "0 < n \<Longrightarrow> Some row \<in> set (csv_records n s) \<Longrightarrow> length row = n"
proof (induction n s rule: csv_records.induct)
  case (1 n s)
  obtain err rc n' s' where r: "csv_Read ErrEOF n s = (err, rc, n', s')" by (metis prod_cases4)
  show ?case
    using 1(1) [OF r [symmetric] refl refl] 1(2,3) csv_Read_width [OF r]
    by (auto simp: csv_records.simps [of n s] r split: if_splits)
qed

lemma csv_records_one_width: "\<exists>k. \<forall>row. Some row \<in> set (csv_records n s) \<longrightarrow> length row = k"
proof (induction n s rule: csv_records.induct)
  case (1 n s)
  obtain err rc n' s' where r: "csv_Read ErrEOF n s = (err, rc, n', s')" by (metis prod_cases4)
  show ?case
  proof (cases "err = Some ErrEOF")
    case True
    then show ?thesis by (simp add: csv_records.simps [of n s] r)
  next
    case False
    obtain k where k: "\<And>row. Some row \<in> set (csv_records n' s') \<Longrightarrow> length row = k"
      using 1 [OF r [symmetric] refl refl False] by blast
    show ?thesis
    proof (cases "err = None")
      case True
      then show ?thesis
        using csv_Read_width [OF r] csv_records_width [of n' _ s']
        by (intro exI [of _ n']) (auto simp: csv_records.simps [of n s] r)
    next
      case notNone: False
      then show ?thesis
        using k False by (intro exI [of _ k]) (auto simp: csv_records.simps [of n s] r)
    qed
  qed
qed

section \<open>Overlong lines\<close>

lemma takeWhile_dropWhile_line:
  assumes "s \<noteq> []" and "last s = newline"
  shows "takeWhile (\<lambda>c. c \<noteq> newline) (s @ t) = takeWhile (\<lambda>c. c \<noteq> newline) s"
    and "dropWhile (\<lambda>c. c \<noteq> newline) (s @ t) = dropWhile (\<lambda>c. c \<noteq> newline) s @ t"
    and "drop 1 (dropWhile (\<lambda>c. c \<noteq> newline) s) = [] \<or> last (drop 1 (dropWhile (\<lambda>c. c \<noteq> newline) s)) = newline"
proof -
  have mem: "newline \<in> set s" using assms by (metis last_in_set)
  then show "takeWhile (\<lambda>c. c \<noteq> newline) (s @ t) = takeWhile (\<lambda>c. c \<noteq> newline) s"
    "dropWhile (\<lambda>c. c \<noteq> newline) (s @ t) = dropWhile (\<lambda>c. c \<noteq> newline) s @ t"
    by (auto simp: takeWhile_append1 dropWhile_append1)
  have "last (dropWhile (\<lambda>c. c \<noteq> newline) s) = newline"
    using last_appendR [OF dropWhile_mem [OF mem], of "takeWhile (\<lambda>c. c \<noteq> newline) s"] assms(2) by simp
  then show "drop 1 (dropWhile (\<lambda>c. c \<noteq> newline) s) = [] \<or> last (drop 1 (dropWhile (\<lambda>c. c \<noteq> newline) s)) = newline"
    by (cases "length (dropWhile (\<lambda>c. c \<noteq> newline) s) \<le> 1") (auto simp: last_drop)
qed

lemma scan_lines_overlong:
  assumes "scan_lines t = []"
  shows "s = [] \<or> last s = newline \<Longrightarrow> scan_lines (s @ t) = scan_lines s"
proof (induction s rule: scan_lines.induct)
  case (2 c s)
  then have "last (c # s) = newline" by simp
  note cut = takeWhile_dropWhile_line [OF list.distinct(2) this]
  let ?l = "takeWhile (\<lambda>c. c \<noteq> newline) (c # s)" and ?d = "dropWhile (\<lambda>c. c \<noteq> newline) (c # s)"
  have "newline \<in> set (c # s)"
    using \<open>last (c # s) = newline\<close> last_in_set [of "c # s"] by (simp only: list.distinct simp_thms)
  then have "?d \<noteq> []" by (rule dropWhile_mem)
  then have d: "drop 1 (?d @ t) = drop 1 ?d @ t"
    by (cases ?d) (simp_all only: append_Cons drop_Suc_Cons One_nat_def drop_0 simp_thms)
  note e = scan_lines.simps(2) [of c "s @ t", folded append_Cons, unfolded cut(1,2) d Let_def]
  show ?case
  proof (cases "65535 < length ?l")
    case True
    then show ?thesis by (simp only: e scan_lines.simps(2) [of c s] Let_def simp_thms if_True)
  next
    case False
    show ?thesis
      using 2(1) [OF refl refl False cut(3)] False
      by (simp only: e scan_lines.simps(2) [of c s] Let_def simp_thms if_False)
  qed
qed (use assms in simp)

section \<open>Examples\<close>

text \<open>A polarity column with a blank in front, and a line without tabs.\<close>

definition ex_lines :: string where
  "ex_lines = ''a'' @ [tab] @ ''isa'' @ [tab] @ ''b'' @ [tab] @ '' -'' @ [newline] @ ''b isa c'' @ [newline]"

lemma ex_lines_data: "map (split_at tab) (data_lines ex_lines) = [[''a'', ''isa'', ''b'', '' -''], [''b isa c'']]"
proof -
  let ?line = "''a'' @ [tab] @ ''isa'' @ [tab] @ ''b'' @ [tab] @ '' -''"
  have "scan_lines ex_lines = [?line, ''b isa c'']"
    by (simp add: ex_lines_def drop_cr_def)
  moreover have "map TrimSpace [?line, ''b isa c''] = [?line, ''b isa c'']"
    by code_simp
  ultimately show ?thesis by (simp add: data_lines_def has_prefix_def)
qed

text \<open>A record without a polarity column and one with it.\<close>

definition ex_rows :: string where
  "ex_rows = ''a,isa,b'' @ [newline] @ ''c,isa,d,-'' @ [newline]"

lemma ex_rows_records: "csv_records 0 ex_rows = [Some [''a'', ''isa'', ''b''], None]"
  by code_simp

definition ex_loaded :: Belief where
  "ex_loaded = \<lparr>bAtom = mk_atom ''a'' ''isa'' ''b'', bPolarity = PolarityPositive, bSource = ''zoo'', bUnixNano = 0\<rparr>"

lemma ex_loaded_rows:
  "rows_beliefs ''zoo'' [[''a'', ''isa'', ''b'', '' -''], [''b isa c'']] = [ex_loaded]"
  "rows_beliefs ''zoo'' [[''a'', ''isa'', ''b'']] = [ex_loaded]"
  by code_simp+

lemma ex_loaded_valid: "valid_belief ex_loaded"
  by (simp add: ex_loaded_def valid_belief_def check_fields_def)

section \<open>Properties\<close>

text \<open>
  C14: What \<open>BulkIngestTriples\<close> loads. Every line that is neither blank nor a comment counts; those with
  three columns and a valid belief are ingested, the rest are errors; the engine then holds what it
  held, the valid beliefs, and conclusions of its rules, and the log got one record for each of them,
  whose failure nobody learns of.
\<close>

theorem bulk_lines_exact:
  assumes "reachable env told e" and "BulkIngestTriples env content source e = (r, e')"
  shows "br_total r = int (length (data_lines content)) \<and>
    br_ingested r =
      int (length (filter valid_belief (rows_beliefs source (map (split_at tab) (data_lines content))))) \<and>
    br_errors r = br_total r - br_ingested r \<and>
    0 \<le> br_contradictions r \<and> br_contradictions r \<le> br_ingested r \<and>
    loads env (rows_beliefs source (map (split_at tab) (data_lines content))) e e'"
proof -
  let ?items = "map (line_item source) (scan_lines content)"
  have run: "r = fst (bulk_run env ?items e)" "e' = snd (bulk_run env ?items e)"
    using assms(2) by (simp_all add: BulkIngestTriples_run)
  have "loads env (bulk_beliefs ?items) e e'"
    unfolding run(2) using reachable_ok [OF assms(1)] by (simp add: bulk_run_loads)
  then show ?thesis
    using line_items [where ls = "scan_lines content" and source = source, folded data_lines_def] count_good [of ?items]
      bulk_run_counts [of env ?items e]
    unfolding run(1) by simp
qed

theorem bulk_lines_exact_witness:
  "br_total (fst (BulkIngestTriples ex_env ex_lines ''zoo'' ex_start)) = 2 \<and>
   br_ingested (fst (BulkIngestTriples ex_env ex_lines ''zoo'' ex_start)) = 1 \<and>
   br_errors (fst (BulkIngestTriples ex_env ex_lines ''zoo'' ex_start)) = 1 \<and>
   ex_loaded \<in> beliefs_of (snd (BulkIngestTriples ex_env ex_lines ''zoo'' ex_start))"
  using bulk_lines_exact [OF ex_start_reachable surjective_pairing, of ex_env ex_lines "''zoo''",
      unfolded ex_lines_data ex_loaded_rows]
    arg_cong [OF ex_lines_data, of length] ex_loaded_valid
    loads_mem [of ex_env "[ex_loaded]" ex_start _ ex_loaded]
  by simp

text \<open>
  C15: What \<open>BulkIngestCSV\<close> loads. The number of columns of the first record fixes that of all others:
  either every record that is accepted has a polarity column or none has one, and each other record
  counts as an error and not in the total. Otherwise it loads and counts as \<open>BulkIngestTriples\<close> does.
\<close>

theorem bulk_csv_exact:
  assumes "reachable env told e" and "BulkIngestCSV env ErrEOF content source e = Some (r, e')"
  defines "rows \<equiv> List.map_filter id (csv_records 0 content)"
  shows "(\<exists>k. \<forall>row \<in> set rows. length row = k) \<and>
    ((\<exists>row \<in> set rows. length row < 4) \<longrightarrow> (\<forall>b \<in> set (rows_beliefs source rows). bPolarity b = PolarityPositive)) \<and>
    br_total r = int (length rows) \<and>
    br_ingested r = int (length (filter valid_belief (rows_beliefs source rows))) \<and>
    br_errors r = int (length (csv_records 0 content)) - br_ingested r \<and>
    loads env (rows_beliefs source rows) e e'"
proof -
  let ?items = "map (record_item source) (csv_records 0 content)"
  have run: "r = fst (bulk_run env ?items e)" "e' = snd (bulk_run env ?items e)"
    using assms(2) by (simp_all add: BulkIngestCSV_run)
  have "loads env (bulk_beliefs ?items) e e'"
    unfolding run(2) using reachable_ok [OF assms(1)] by (simp add: bulk_run_loads)
  moreover obtain k where k: "\<forall>row \<in> set rows. length row = k"
    using csv_records_one_width [of 0 content] by (auto simp: rows_def set_map_filter_eq)
  moreover have "(\<exists>row \<in> set rows. length row < 4) \<longrightarrow> (\<forall>b \<in> set (rows_beliefs source rows). bPolarity b = PolarityPositive)"
    using k by (auto simp: rows_beliefs_def columns_belief_def)
  ultimately show ?thesis
    using record_items [where rs = "csv_records 0 content" and source = source] count_good [of ?items]
    unfolding run(1) rows_def by (auto simp: bulk_run_counts)
qed

theorem bulk_csv_exact_witness:
  "\<exists>r e'. BulkIngestCSV ex_env ErrEOF ex_rows ''zoo'' ex_start = Some (r, e') \<and>
     br_total r = 1 \<and> br_ingested r = 1 \<and> br_errors r = 1 \<and> ex_loaded \<in> beliefs_of e'"
proof -
  obtain r e' where run: "BulkIngestCSV ex_env ErrEOF ex_rows ''zoo'' ex_start = Some (r, e')"
    using BulkIngestCSV_run by (metis surj_pair)
  from bulk_csv_exact [OF ex_start_reachable run] run show ?thesis
    using loads_mem [of ex_env "[ex_loaded]" ex_start e' ex_loaded]
    by (simp add: ex_rows_records List.map_filter_simps ex_loaded_rows ex_loaded_valid)
qed

text \<open>
  C16: \<open>BulkIngestCSV\<close> returns exactly if the reader comes to its end: a reader that fails with any
  other error is read for ever, an error counted each time.
\<close>

theorem bulk_csv_ends: "(\<exists>res. BulkIngestCSV env rerr content source e = Some res) \<longleftrightarrow> rerr = ErrEOF"
  using BulkIngestCSV_Some [of env rerr content source e] BulkIngestCSV_run [of env content source e] by auto

text \<open>
  C17: A line of more than 65535 bytes ends a load. Whatever follows the first such line is not read,
  and the result, its error count included, is that of the input cut off before it.
\<close>

theorem overlong_line_ends_load:
  assumes "s = [] \<or> last s = newline" and "65536 \<le> length line" and "newline \<notin> set line"
  shows "BulkIngestTriples env (s @ line @ rest) source e = BulkIngestTriples env s source e"
proof -
  have "takeWhile (\<lambda>c. c \<noteq> newline) (line @ rest) = line @ takeWhile (\<lambda>c. c \<noteq> newline) rest"
    using assms(3) by (induction line) auto
  then have "scan_lines (line @ rest) = []"
    using assms(2) by (cases "line @ rest") (simp_all add: Let_def)
  then show ?thesis
    using scan_lines_overlong [OF _ assms(1)] by (simp add: BulkIngestTriples_run)
qed

theorem overlong_line_ends_load_witness:
  "BulkIngestTriples ex_env (ex_lines @ replicate 65536 CHR ''x'' @ newline # ex_lines) ''zoo'' ex_start =
     BulkIngestTriples ex_env ex_lines ''zoo'' ex_start"
proof (rule overlong_line_ends_load)
  show "ex_lines = [] \<or> last ex_lines = newline" by (simp add: ex_lines_def)
qed (simp_all add: set_replicate_conv_if)

end
