(* ===== verification/Slipstream.thy ===== *)
theory Slipstream
  imports Log
begin

text \<open>
  \<open>slipstream.go\<close>: the log over the key-value store of \<open>go-slipstream\<close>. That store is not part of the
  repository: its operations are the fields of a record that every definition takes, and what the
  log relies on is \<open>bitcask_ok\<close>, which says how the operations act on the contents of the store.
\<close>

section \<open>The store\<close>

text \<open>
  The state of a store contains its open transaction, if any: the mutex of the log lets only one be open
  at a time. What fails leaves an error and whatever state the store is in then.
\<close>

record ('d, 'w) bitcask =
  os_MkdirAll :: "string \<Rightarrow> go_error option"
  sswal_NewManager :: "string \<Rightarrow> go_error + 'w"
  sswal_Close :: "'w \<Rightarrow> go_error option"
  bk_NewBitcask :: "'w \<Rightarrow> 'd"
  bk_Recover :: "'d \<Rightarrow> go_error option \<times> 'd"
  bk_Close :: "'d \<Rightarrow> go_error option"
  bk_Keys :: "'d \<Rightarrow> (go_error + string list) \<times> 'd"
  bk_Get :: "string \<Rightarrow> 'd \<Rightarrow> (go_error + bytes) \<times> 'd"
  bk_Begin :: "'d \<Rightarrow> go_error option \<times> 'd"
  tx_Get :: "string \<Rightarrow> 'd \<Rightarrow> (go_error + bytes) \<times> 'd"
  tx_Put :: "string \<Rightarrow> bytes \<Rightarrow> int \<Rightarrow> 'd \<Rightarrow> go_error option \<times> 'd"
  tx_Commit :: "'d \<Rightarrow> go_error option \<times> 'd"
  tx_Rollback :: "'d \<Rightarrow> go_error option \<times> 'd"
  is_ErrKeyNotFound :: "go_error \<Rightarrow> bool"

section \<open>The log\<close>

definition slipstreamSeqKey :: string where
  "slipstreamSeqKey = ''__nan_seq''"

record ('d, 'w) SlipstreamLog =
  sl_w :: "'w option"
  sl_db :: "'d option"

definition OpenSlipstreamLog :: "('d, 'w) bitcask \<Rightarrow> string \<Rightarrow> go_error + ('d, 'w) SlipstreamLog" where
  "OpenSlipstreamLog lib dir =
     (case os_MkdirAll lib dir of
        Some err \<Rightarrow> Inl err
      | None \<Rightarrow>
          and_then (sswal_NewManager lib dir) (\<lambda>w.
            case bk_Recover lib (bk_NewBitcask lib w) of
              (Some err, _) \<Rightarrow> Inl err
            | (None, d) \<Rightarrow> Inr \<lparr>sl_w = Some w, sl_db = Some d\<rparr>))"

definition slip_Close :: "('d, 'w) bitcask \<Rightarrow> ('d, 'w) SlipstreamLog \<Rightarrow> go_error option \<times> ('d, 'w) SlipstreamLog" where
  "slip_Close lib s =
     (let err1 = (case sl_db s of None \<Rightarrow> None | Some d \<Rightarrow> bk_Close lib d);
          err2 = (case sl_w s of None \<Rightarrow> None | Some w \<Rightarrow> sswal_Close lib w)
      in (if err1 \<noteq> None then err1 else err2, \<lparr>sl_w = None, sl_db = None\<rparr>))"

text \<open>\<open>fmt.Sprintf("%020d", seq)\<close>: a number of 64 bits has at most twenty digits.\<close>

fun digits :: "nat \<Rightarrow> nat \<Rightarrow> string" where
  "digits 0 n = []"
| "digits (Suc k) n = digits k (n div 10) @ [char_of (48 + n mod 10)]"

definition seq_key :: "uint64 \<Rightarrow> string" where
  "seq_key seq = digits 20 (unat seq)"

text \<open>The number of records so far, zero where the store has none.\<close>

definition last_seq :: "('d, 'w) bitcask \<Rightarrow> go_error + bytes \<Rightarrow> go_error + uint64" where
  "last_seq lib got =
     (case got of
        Inr seqBytes \<Rightarrow> if length seqBytes \<noteq> 8 then Inl ErrInvalidSeq else Inr (get_le seqBytes)
      | Inl err \<Rightarrow>
          if \<not> is_ErrKeyNotFound lib err \<and> err \<noteq> ErrExternal ''engine: not found'' then Inl err else Inr 0)"

definition append_tx :: "('d, 'w) bitcask \<Rightarrow> bytes \<Rightarrow> 'd \<Rightarrow> go_error option \<times> 'd" where
  "append_tx lib payload d0 =
     (case bk_Begin lib d0 of
        (Some err, d) \<Rightarrow> (Some err, d)
      | (None, d1) \<Rightarrow>
          (case tx_Get lib slipstreamSeqKey d1 of (got, d2) \<Rightarrow>
            (case last_seq lib got of
               Inl err \<Rightarrow> (Some err, snd (tx_Rollback lib d2))
             | Inr seq0 \<Rightarrow>
                 let seq = seq0 + 1 in
                 (case tx_Put lib (seq_key seq) payload 0 d2 of
                    (Some err, d3) \<Rightarrow> (Some err, snd (tx_Rollback lib d3))
                  | (None, d3) \<Rightarrow>
                      (case tx_Put lib slipstreamSeqKey (put_le 8 seq) 0 d3 of
                         (Some err, d4) \<Rightarrow> (Some err, snd (tx_Rollback lib d4))
                       | (None, d4) \<Rightarrow>
                           (case tx_Commit lib d4 of
                              (Some err, d5) \<Rightarrow> (Some err, snd (tx_Rollback lib d5))
                            | (None, d5) \<Rightarrow> (None, d5)))))))"

definition slip_Append :: "('d, 'w) bitcask \<Rightarrow> Record \<Rightarrow> ('d, 'w) SlipstreamLog \<Rightarrow> go_error option \<times> ('d, 'w) SlipstreamLog" where
  "slip_Append lib r s =
     (case encodeRecord r of
        Inl err \<Rightarrow> (Some err, s)
      | Inr payload \<Rightarrow>
          (case sl_db s of
             None \<Rightarrow> (Some ErrSlipstreamClosed, s)
           | Some d \<Rightarrow> (case append_tx lib payload d of (err, d') \<Rightarrow> (err, s\<lparr>sl_db := Some d'\<rparr>))))"

fun replay_keys :: "('d, 'w) bitcask \<Rightarrow> 's ReplayFunc option \<Rightarrow> string list \<Rightarrow> 'd \<Rightarrow> 's \<Rightarrow> go_error option \<times> 'd \<times> 's" where
  "replay_keys lib f [] d s = (None, d, s)"
| "replay_keys lib f (k # ks) d s =
     (if k = slipstreamSeqKey then replay_keys lib f ks d s
      else
        case bk_Get lib k d of
          (Inl err, d') \<Rightarrow> (Some err, d', s)
        | (Inr val, d') \<Rightarrow>
            (case decodeRecord val of
               Inl err \<Rightarrow> (Some err, d', s)
             | Inr r \<Rightarrow>
                 (case f of
                    None \<Rightarrow> replay_keys lib f ks d' s
                  | Some fn \<Rightarrow>
                      (case fn r s of
                         (Some err, s') \<Rightarrow> (Some err, d', s')
                       | (None, s') \<Rightarrow> replay_keys lib f ks d' s'))))"

definition slip_Replay :: "('d, 'w) bitcask \<Rightarrow> 's ReplayFunc option \<Rightarrow> ('d, 'w) SlipstreamLog \<Rightarrow> 's \<Rightarrow>
    go_error option \<times> ('d, 'w) SlipstreamLog \<times> 's" where
  "slip_Replay lib f s st =
     (case sl_db s of
        None \<Rightarrow> (Some ErrSlipstreamClosed, s, st)
      | Some d \<Rightarrow>
          (case bk_Keys lib d of
             (Inl err, d') \<Rightarrow> (Some err, s\<lparr>sl_db := Some d'\<rparr>, st)
           | (Inr ks, d') \<Rightarrow>
               (case replay_keys lib f (sort_slice string_less ks) d' st of
                  (err, d'', st') \<Rightarrow> (err, s\<lparr>sl_db := Some d''\<rparr>, st'))))"

section \<open>What the log relies on\<close>

text \<open>
  \<open>V\<close> is what the store holds, \<open>T\<close> what the open transaction sees: reads return what is there, a key is
  reported missing only if it is, an entry put without a time to live stays, a transaction is committed
  whole or not at all, and \<open>Keys\<close> lists the keys once each, in some order. Every operation may fail.
\<close>

definition bitcask_ok :: "('d, 'w) bitcask \<Rightarrow> ('d \<Rightarrow> string \<rightharpoonup> bytes) \<Rightarrow> ('d \<Rightarrow> string \<rightharpoonup> bytes) \<Rightarrow> bool" where
  "bitcask_ok lib V T \<longleftrightarrow>
     (\<forall>d err d'. bk_Begin lib d = (err, d') \<longrightarrow> V d' = V d \<and> (err = None \<longrightarrow> T d' = V d)) \<and>
     (\<forall>k d v d'. tx_Get lib k d = (Inr v, d') \<longrightarrow> V d' = V d \<and> T d' = T d \<and> T d k = Some v) \<and>
     (\<forall>k d err d'. tx_Get lib k d = (Inl err, d') \<longrightarrow> V d' = V d \<and> T d' = T d \<and>
        (is_ErrKeyNotFound lib err \<or> err = ErrExternal ''engine: not found'' \<longrightarrow> T d k = None)) \<and>
     (\<forall>k v d err d'. tx_Put lib k v 0 d = (err, d') \<longrightarrow> V d' = V d \<and> (err = None \<longrightarrow> T d' = (T d)(k \<mapsto> v))) \<and>
     (\<forall>d err d'. tx_Commit lib d = (err, d') \<longrightarrow> V d' = (if err = None then T d else V d)) \<and>
     (\<forall>d. V (snd (tx_Rollback lib d)) = V d) \<and>
     (\<forall>d got d'. bk_Keys lib d = (got, d') \<longrightarrow> V d' = V d \<and>
        (\<forall>ks. got = Inr ks \<longrightarrow> distinct ks \<and> set ks = dom (V d))) \<and>
     (\<forall>k d got d'. bk_Get lib k d = (got, d') \<longrightarrow> V d' = V d \<and> (\<forall>v. got = Inr v \<longrightarrow> V d k = Some v))"

lemma bitcask_okD:
  assumes "bitcask_ok lib V T"
  shows "bk_Begin lib d = (err, d') \<Longrightarrow> V d' = V d \<and> (err = None \<longrightarrow> T d' = V d)"
    and "tx_Get lib k d = (Inr v, d') \<Longrightarrow> V d' = V d \<and> T d' = T d \<and> T d k = Some v"
    and "tx_Get lib k d = (Inl er, d') \<Longrightarrow> V d' = V d \<and> T d' = T d \<and>
      (is_ErrKeyNotFound lib er \<or> er = ErrExternal ''engine: not found'' \<longrightarrow> T d k = None)"
    and "tx_Put lib k v 0 d = (err, d') \<Longrightarrow> V d' = V d \<and> (err = None \<longrightarrow> T d' = (T d)(k \<mapsto> v))"
    and "tx_Commit lib d = (err, d') \<Longrightarrow> V d' = (if err = None then T d else V d)"
    and "V (snd (tx_Rollback lib d)) = V d"
    and "bk_Keys lib d = (gotk, d') \<Longrightarrow> V d' = V d \<and> (\<forall>ks. gotk = Inr ks \<longrightarrow> distinct ks \<and> set ks = dom (V d))"
    and "bk_Get lib k d = (got, d') \<Longrightarrow> V d' = V d \<and> (\<forall>v. got = Inr v \<longrightarrow> V d k = Some v)"
proof -
  note ok = assms [unfolded bitcask_ok_def]
  show "bk_Begin lib d = (err, d') \<Longrightarrow> V d' = V d \<and> (err = None \<longrightarrow> T d' = V d)"
    by (rule ok [THEN conjunct1, rule_format])
  show "tx_Get lib k d = (Inr v, d') \<Longrightarrow> V d' = V d \<and> T d' = T d \<and> T d k = Some v"
    by (rule ok [THEN conjunct2, THEN conjunct1, rule_format])
  show "tx_Get lib k d = (Inl er, d') \<Longrightarrow> V d' = V d \<and> T d' = T d \<and>
      (is_ErrKeyNotFound lib er \<or> er = ErrExternal ''engine: not found'' \<longrightarrow> T d k = None)"
    by (rule ok [THEN conjunct2, THEN conjunct2, THEN conjunct1, rule_format])
  show "tx_Put lib k v 0 d = (err, d') \<Longrightarrow> V d' = V d \<and> (err = None \<longrightarrow> T d' = (T d)(k \<mapsto> v))"
    by (rule ok [THEN conjunct2, THEN conjunct2, THEN conjunct2, THEN conjunct1, rule_format])
  show "tx_Commit lib d = (err, d') \<Longrightarrow> V d' = (if err = None then T d else V d)"
    by (rule ok [THEN conjunct2, THEN conjunct2, THEN conjunct2, THEN conjunct2, THEN conjunct1, rule_format])
  show "V (snd (tx_Rollback lib d)) = V d"
    by (rule ok [THEN conjunct2, THEN conjunct2, THEN conjunct2, THEN conjunct2, THEN conjunct2, THEN conjunct1, rule_format])
  show "bk_Keys lib d = (gotk, d') \<Longrightarrow> V d' = V d \<and> (\<forall>ks. gotk = Inr ks \<longrightarrow> distinct ks \<and> set ks = dom (V d))"
    by (rule ok [THEN conjunct2, THEN conjunct2, THEN conjunct2, THEN conjunct2, THEN conjunct2, THEN conjunct2, THEN conjunct1, rule_format])
  show "bk_Get lib k d = (got, d') \<Longrightarrow> V d' = V d \<and> (\<forall>v. got = Inr v \<longrightarrow> V d k = Some v)"
    by (rule ok [THEN conjunct2, THEN conjunct2, THEN conjunct2, THEN conjunct2, THEN conjunct2, THEN conjunct2, THEN conjunct2, rule_format])
qed

section \<open>Keys\<close>

lemma length_digits [simp]: "length (digits k n) = k"
  by (induction k arbitrary: n) simp_all

lemma less_append_same_length:
  "length a = length b \<Longrightarrow> a @ c < b @ d \<longleftrightarrow> a < b \<or> a = b \<and> c < d" for a b c d :: string
  by (induction a b rule: list_induct2) auto

lemma digit_less: "i < 10 \<Longrightarrow> j < 10 \<Longrightarrow> (char_of (48 + i) :: char) < char_of (48 + j) \<longleftrightarrow> i < j" for i j :: nat
  by (simp add: less_char_def)

lemma less_div_mod: "m < n \<longleftrightarrow> m div 10 < n div 10 \<or> m div 10 = n div 10 \<and> m mod 10 < n mod 10" for m n :: nat
proof -
  have "10 * a + c < 10 * b + d \<longleftrightarrow> a < b \<or> a = b \<and> c < d" if "c < 10" "d < 10" for a b c d :: nat
    using that by auto
  from this [of "m mod 10" "n mod 10" "m div 10" "n div 10"] show ?thesis by simp
qed

lemma digits_less:
  "m < 10 ^ k \<Longrightarrow> n < 10 ^ k \<Longrightarrow> digits k m < digits k n \<longleftrightarrow> m < n"
proof (induction k arbitrary: m n)
  case (Suc k)
  have "m div 10 < 10 ^ k" "n div 10 < 10 ^ k"
    using Suc.prems by (simp_all add: less_mult_imp_div_less mult.commute)
  note ih = Suc.IH [OF this] Suc.IH [OF this(2,1)]
  have eq: "digits k (m div 10) = digits k (n div 10) \<longleftrightarrow> m div 10 = n div 10"
    using ih by (metis less_irrefl linorder_neqE_nat)
  show ?case
    unfolding less_div_mod [of m n] by (simp add: less_append_same_length ih(1) eq digit_less)
qed simp

lemma seq_key_less: "seq_key v < seq_key w \<longleftrightarrow> v < w"
proof -
  have "unat x < 10 ^ 20" for x :: uint64
    using unsigned_less [of x, where ?'a = nat] by simp
  then show ?thesis
    unfolding seq_key_def word_less_nat_alt by (intro digits_less)
qed

lemma seq_key_inject [simp]: "seq_key v = seq_key w \<longleftrightarrow> v = w"
  using seq_key_less [of v w] seq_key_less [of w v] by (metis less_irrefl linorder_neqE)

lemma seq_key_reserved [simp]: "seq_key v \<noteq> slipstreamSeqKey" "slipstreamSeqKey \<noteq> seq_key v"
proof -
  have "length (seq_key v) \<noteq> length slipstreamSeqKey"
    by (simp add: seq_key_def slipstreamSeqKey_def del: digits.simps)
  then show "seq_key v \<noteq> slipstreamSeqKey" "slipstreamSeqKey \<noteq> seq_key v" by metis+
qed

lemma digits_Cons: "n < 10 ^ Suc k \<Longrightarrow> \<exists>i < 10 :: nat. \<exists>ds. digits (Suc k) n = char_of (48 + i) # ds"
proof (induction k arbitrary: n)
  case 0
  then show ?case by (intro exI [of _ "n mod 10"]) simp
next
  case (Suc k)
  then have "n div 10 < 10 ^ Suc k"
    by (simp add: less_mult_imp_div_less mult.commute)
  from Suc.IH [OF this] show ?case
    by (simp only: digits.simps(2) [of "Suc k"]) (metis append_Cons)
qed

lemma seq_key_before: "seq_key v < slipstreamSeqKey"
proof -
  have "unat v < 10 ^ Suc 19"
    using unsigned_less [of v, where ?'a = nat] by simp
  then obtain i :: nat and ds where "i < 10" "seq_key v = char_of (48 + i) # ds"
    using digits_Cons [of "unat v" 19] by (auto simp: seq_key_def simp del: digits.simps)
  moreover have "(char_of (48 + i) :: char) < CHR ''_''" if "i < 10" for i :: nat
    using that by (simp add: less_char_def)
  ultimately show ?thesis
    by (simp add: slipstreamSeqKey_def)
qed

section \<open>The contents of a log\<close>

definition slip_keys :: "nat \<Rightarrow> string list" where
  "slip_keys n = map (\<lambda>i. seq_key (word_of_nat (Suc i))) [0..<n]"

definition slip_map :: "bytes list \<Rightarrow> string \<rightharpoonup> bytes" where
  "slip_map ps k =
     (if k = slipstreamSeqKey then (if ps = [] then None else Some (put_le 8 (word_of_nat (length ps) :: uint64)))
      else map_of (zip (slip_keys (length ps)) ps) k)"

lemma length_slip_keys [simp]: "length (slip_keys n) = n"
  by (simp add: slip_keys_def)

lemma slip_keys_Suc [simp]: "slip_keys (Suc n) = slip_keys n @ [seq_key (word_of_nat (Suc n))]"
  by (simp add: slip_keys_def)

lemma slip_keys_reserved [simp]: "slipstreamSeqKey \<notin> set (slip_keys n)"
  by (auto simp: slip_keys_def)

lemma word_of_nat_less_iff: "m < 2 ^ 64 \<Longrightarrow> n < 2 ^ 64 \<Longrightarrow> (word_of_nat m :: uint64) < word_of_nat n \<longleftrightarrow> m < n"
  by (simp add: word_less_nat_alt unsigned_of_nat take_bit_nat_eq_self)

lemma sorted_slip_keys: "n < 2 ^ 64 \<Longrightarrow> sorted_wrt string_less (slip_keys n)"
proof (induction n)
  case (Suc n)
  have "seq_key (word_of_nat (Suc i)) < seq_key (word_of_nat (Suc n))" if "i < n" for i
    using that Suc.prems by (simp add: seq_key_less word_of_nat_less_iff del: of_nat_Suc)
  then have "string_less k (seq_key (word_of_nat (Suc n)))" if "k \<in> set (slip_keys n)" for k
    using that by (auto simp: string_less_def slip_keys_def)
  with Suc show ?case
    by (simp add: sorted_wrt_append)
qed (simp add: slip_keys_def)

lemma distinct_slip_keys: "n < 2 ^ 64 \<Longrightarrow> distinct (slip_keys n)"
  using sorted_slip_keys [of n] strict_sorted_iff [of "slip_keys n"] by (simp add: string_less_def [abs_def])

lemma slip_map_empty [simp]: "slip_map [] = Map.empty"
  by (simp add: slip_map_def fun_eq_iff)

lemma slip_get_None: "map_of (zip (slip_keys (length ps)) ps) k = None \<longleftrightarrow> k \<notin> set (slip_keys (length ps))"
  by (rule map_of_zip_is_None) simp

lemma slip_map_snoc:
  assumes "Suc (length ps) < 2 ^ 64"
  shows "(slip_map ps)(seq_key (word_of_nat (length ps) + 1) \<mapsto> p, slipstreamSeqKey \<mapsto> put_le 8 (word_of_nat (length ps) + 1 :: uint64)) =
    slip_map (ps @ [p])"
proof -
  have new: "seq_key (word_of_nat (length ps) + 1) \<notin> set (slip_keys (length ps))"
    using distinct_slip_keys [OF assms] by (simp add: add.commute)
  have zip: "map_of (zip (slip_keys (length ps) @ [seq_key (word_of_nat (length ps) + 1)]) (ps @ [p])) k =
      (if k = seq_key (word_of_nat (length ps) + 1) then Some p else map_of (zip (slip_keys (length ps)) ps) k)" for k
    using new by (auto simp: map_add_def slip_get_None [THEN iffD2] simp del: slip_keys_Suc split: option.split)
  show ?thesis
    by (rule ext) (use zip in \<open>simp add: slip_map_def add.commute\<close>)
qed

lemma dom_slip_map: "dom (slip_map ps) = set (slip_keys (length ps)) \<union> (if ps = [] then {} else {slipstreamSeqKey})"
proof (intro set_eqI)
  fix k
  show "k \<in> dom (slip_map ps) \<longleftrightarrow> k \<in> set (slip_keys (length ps)) \<union> (if ps = [] then {} else {slipstreamSeqKey})"
    using slip_get_None [of ps k] by (cases "k = slipstreamSeqKey") (simp_all add: slip_map_def domIff)
qed

lemma sorted_keys:
  assumes "length ps < 2 ^ 64" and "distinct ks" and "set ks = dom (slip_map ps)"
  shows "sort_slice string_less ks = slip_keys (length ps) @ (if ps = [] then [] else [slipstreamSeqKey])"
proof (rule string_sort.sort_slice_unique_set)
  have "string_less k slipstreamSeqKey" if "k \<in> set (slip_keys n)" for k n
    using that seq_key_before by (auto simp: slip_keys_def string_less_def)
  then show "sorted_wrt string_less (slip_keys (length ps) @ (if ps = [] then [] else [slipstreamSeqKey]))"
    using sorted_slip_keys [OF assms(1)] by (simp add: sorted_wrt_append)
qed (use assms in \<open>simp_all add: dom_slip_map\<close>)

section \<open>Appending\<close>

lemma append_tx_stores:
  assumes ok: "bitcask_ok lib V T" and V: "V d = slip_map ps" and len: "Suc (length ps) < 2 ^ 64"
    and run: "append_tx lib p d = (err, d')"
  shows "V d' = slip_map (if err = None then ps @ [p] else ps)"
proof -
  note law = bitcask_okD [OF ok]
  have rb: "V (snd (tx_Rollback lib x)) = V x" for x by (rule law(6))
  obtain er1 d1 where start: "bk_Begin lib d = (er1, d1)" by force
  obtain got d2 where got: "tx_Get lib slipstreamSeqKey d1 = (got, d2)" by force
  show ?thesis
  proof (cases er1)
    case (Some x)
    then show ?thesis using run start law(1) [OF start] V by (auto simp: append_tx_def)
  next
    case None
    then have d1: "V d1 = V d" "T d1 = slip_map ps" using law(1) [OF start] V by simp_all
    have d2: "V d2 = V d" "T d2 = slip_map ps" using law(2,3) [of slipstreamSeqKey d1 _ d2] got d1 by (cases got; metis)+
    show ?thesis
    proof (cases "last_seq lib got")
      case (Inl x)
      then show ?thesis using run start None got V d2 rb by (auto simp: append_tx_def)
    next
      case (Inr seq0)
      have seq0: "seq0 = word_of_nat (length ps)"
      proof (cases got)
        case (Inl er)
        then have "T d1 slipstreamSeqKey = None"
          using Inr law(3) [of slipstreamSeqKey d1 er d2] got by (auto simp: last_seq_def split: if_splits)
        with Inl Inr d1(2) show ?thesis by (auto simp: slip_map_def last_seq_def split: if_splits)
      next
        case (Inr v)
        then have "T d1 slipstreamSeqKey = Some v" using law(2) [of slipstreamSeqKey d1 v d2] got by simp
        with Inr \<open>last_seq lib got = Inr seq0\<close> d1(2) show ?thesis
          by (auto simp: slip_map_def last_seq_def get_put_le split: if_splits)
      qed
      obtain er3 d3 where put1: "tx_Put lib (seq_key (seq0 + 1)) p 0 d2 = (er3, d3)" by force
      obtain er4 d4 where put2: "tx_Put lib slipstreamSeqKey (put_le 8 (seq0 + 1)) 0 d3 = (er4, d4)" by force
      obtain er5 d5 where commit: "tx_Commit lib d4 = (er5, d5)" by force
      note put = law(4) [OF put1] law(4) [OF put2] law(5) [OF commit]
      show ?thesis
        using run start None got Inr put1 put2 commit put d2 V rb slip_map_snoc [OF len, of p] seq0
        by (auto simp: append_tx_def Let_def split: option.splits)
    qed
  qed
qed

text \<open>The log holds these records, on a store whose contents are \<open>V\<close>.\<close>

definition slip_holds :: "('d \<Rightarrow> string \<rightharpoonup> bytes) \<Rightarrow> Record list \<Rightarrow> ('d, 'w) SlipstreamLog \<Rightarrow> bool" where
  "slip_holds V rs s \<longleftrightarrow>
     (\<exists>d ps. sl_db s = Some d \<and> V d = slip_map ps \<and> map encodeRecord rs = map Inr ps)"

lemma slip_Append_stores:
  assumes "bitcask_ok lib V T" and "slip_holds V rs s" and "Suc (length rs) < 2 ^ 64"
    and "slip_Append lib r s = (err, s')"
  shows "slip_holds V (if err = None then rs @ [r] else rs) s' \<and> (recType r = EventUnknown \<longrightarrow> err \<noteq> None)"
proof -
  obtain d ps where s: "sl_db s = Some d" "V d = slip_map ps" "map encodeRecord rs = map Inr ps"
    using assms(2) by (auto simp: slip_holds_def)
  then have "length ps = length rs"
    by (metis length_map)
  show ?thesis
  proof (cases "encodeRecord r")
    case (Inl er)
    with assms(2,4) show ?thesis by (auto simp: slip_Append_def)
  next
    case (Inr p)
    obtain er d' where tx: "append_tx lib p d = (er, d')" by force
    then have "err = er" "s' = s\<lparr>sl_db := Some d'\<rparr>"
      using assms(4) Inr s(1) by (auto simp: slip_Append_def)
    moreover have "V d' = slip_map (if er = None then ps @ [p] else ps)"
      using append_tx_stores [OF assms(1) s(2) _ tx] assms(3) \<open>length ps = length rs\<close> by simp
    moreover have "recType r \<noteq> EventUnknown"
      using Inr by (auto simp: encodeRecord_def)
    ultimately show ?thesis
      using s(3) Inr by (cases er) (auto simp: slip_holds_def)
  qed
qed

text \<open>A sequence of appends, with their results.\<close>

fun slip_appends :: "('d, 'w) bitcask \<Rightarrow> Record list \<Rightarrow> ('d, 'w) SlipstreamLog \<Rightarrow> go_error option list \<times> ('d, 'w) SlipstreamLog" where
  "slip_appends lib [] s = ([], s)"
| "slip_appends lib (r # rs) s =
     (case slip_Append lib r s of
        (err, s1) \<Rightarrow> (case slip_appends lib rs s1 of (errs, s2) \<Rightarrow> (err # errs, s2)))"

definition stored :: "Record list \<Rightarrow> go_error option list \<Rightarrow> Record list" where
  "stored rs errs = map fst (filter (\<lambda>(r, e). e = None) (zip rs errs))"

lemma slip_appends_stored:
  "bitcask_ok lib V T \<Longrightarrow> slip_holds V rs0 s \<Longrightarrow> length rs0 + length rs < 2 ^ 64 \<Longrightarrow>
    slip_appends lib rs s = (errs, s') \<Longrightarrow> slip_holds V (rs0 @ stored rs errs) s' \<and> length errs = length rs"
proof (induction rs arbitrary: rs0 s errs)
  case Nil
  then show ?case by (simp add: stored_def)
next
  case (Cons r rs)
  obtain err s1 where a: "slip_Append lib r s = (err, s1)" by force
  obtain errs' where errs: "slip_appends lib rs s1 = (errs', s')" "errs = err # errs'"
    using Cons.prems(4) a by (auto split: prod.splits)
  have "slip_holds V (if err = None then rs0 @ [r] else rs0) s1"
    using slip_Append_stores [OF Cons.prems(1,2) _ a] Cons.prems(3) by simp
  from Cons.IH [OF Cons.prems(1) this _ errs(1)] Cons.prems(3) show ?case
    by (cases err) (simp_all add: errs(2) stored_def)
qed

section \<open>Replaying\<close>

lemma replay_keys_records:
  assumes ok: "bitcask_ok lib V T"
  shows "\<forall>(k, r) \<in> set krs. k \<noteq> slipstreamSeqKey \<and> (\<exists>p. V d k = Some p \<and> decodeRecord p = Inr r) \<Longrightarrow>
    set tail \<subseteq> {slipstreamSeqKey} \<Longrightarrow> replay_keys lib (Some f) (map fst krs @ tail) d st = (err, d', st') \<Longrightarrow>
    \<exists>n e. (err, st') = replay_records f (take n (map snd krs)) e st \<and> (e = None \<longrightarrow> n = length krs)"
proof (induction krs arbitrary: d st)
  case Nil
  have "replay_keys lib (Some f) tail d st = (None, d, st)"
    using Nil.prems(2) by (induction tail) auto
  with Nil.prems show ?case by auto
next
  case (Cons kr krs)
  obtain k r where kr: "kr = (k, r)" by force
  have k: "k \<noteq> slipstreamSeqKey"
    using Cons.prems(1) by (simp add: kr)
  obtain p where p: "V d k = Some p" "decodeRecord p = Inr r"
    using Cons.prems(1) by (auto simp: kr)
  obtain got d1 where got: "bk_Get lib k d = (got, d1)" by force
  note law = bitcask_okD(8) [OF ok got]
  show ?case
  proof (cases got)
    case (Inl er)
    then have "(err, st') = replay_records f (take 0 (map snd (kr # krs))) (Some er) st"
      using Cons.prems(3) k got by (simp add: kr)
    then show ?thesis by blast
  next
    case (Inr v)
    then have v: "decodeRecord v = Inr r" using law p by simp
    obtain er s1 where f: "f r st = (er, s1)" by force
    show ?thesis
    proof (cases er)
      case (Some x)
      then have "(err, st') = replay_records f (take (length (kr # krs)) (map snd (kr # krs))) None st"
        using Cons.prems(3) k got Inr v f by (auto simp: kr)
      then show ?thesis by blast
    next
      case None
      then have run: "replay_keys lib (Some f) (map fst krs @ tail) d1 s1 = (err, d', st')"
        using Cons.prems(3) k got Inr v f by (simp add: kr)
      have "\<forall>(k, r) \<in> set krs. k \<noteq> slipstreamSeqKey \<and> (\<exists>p. V d1 k = Some p \<and> decodeRecord p = Inr r)"
        using Cons.prems(1) law by simp
      from Cons.IH [OF this Cons.prems(2) run]
      obtain n e where "(err, st') = replay_records f (take n (map snd krs)) e s1" "e = None \<longrightarrow> n = length krs"
        by blast
      then have "(err, st') = replay_records f (take (Suc n) (map snd (kr # krs))) e st \<and> (e = None \<longrightarrow> Suc n = length (kr # krs))"
        by (simp add: kr f None)
      then show ?thesis by blast
    qed
  qed
qed

lemma slip_Replay_records:
  assumes "bitcask_ok lib V T" and "slip_holds V rs s" and "length rs < 2 ^ 64"
    and "slip_Replay lib (Some f) s st = (err, s', st')"
  shows "\<exists>n e. (err, st') = replay_records f (take n rs) e st \<and> (e = None \<longrightarrow> n = length rs)"
proof -
  obtain d ps where s: "sl_db s = Some d" "V d = slip_map ps" "map encodeRecord rs = map Inr ps"
    using assms(2) by (auto simp: slip_holds_def)
  then have len: "length ps = length rs" by (metis length_map)
  obtain got d1 where got: "bk_Keys lib d = (got, d1)" by force
  show ?thesis
  proof (cases got)
    case (Inl er)
    then have "(err, st') = replay_records f (take 0 rs) (Some er) st"
      using assms(4) s(1) got by (simp add: slip_Replay_def)
    then show ?thesis by blast
  next
    case (Inr ks)
    note keys = bitcask_okD(7) [OF assms(1) got]
    let ?krs = "zip (slip_keys (length rs)) rs" and ?tail = "if ps = [] then [] else [slipstreamSeqKey]"
    have ks: "sort_slice string_less ks = map fst ?krs @ ?tail"
      using sorted_keys [of ps ks] keys Inr s(2) len assms(3) by simp
    have at: "\<exists>p. V d1 k = Some p \<and> decodeRecord p = Inr r" "k \<noteq> slipstreamSeqKey" if kr: "(k, r) \<in> set ?krs" for k r
    proof -
      show k: "k \<noteq> slipstreamSeqKey" using set_zip_leftD [OF kr] by auto
      obtain i where i: "i < length rs" "k = slip_keys (length rs) ! i" "r = rs ! i"
        using kr by (auto simp: set_zip)
      then have "encodeRecord r = Inr (ps ! i)"
        using arg_cong [OF s(3), of "\<lambda>xs. xs ! i"] len by simp
      moreover have "map_of (zip (slip_keys (length ps)) ps) k = Some (ps ! i)"
        using i len distinct_slip_keys [OF assms(3)] by (intro map_of_is_SomeI) (auto simp: set_zip)
      ultimately show "\<exists>p. V d1 k = Some p \<and> decodeRecord p = Inr r"
        using keys s(2) k decode_encodeRecord by (simp add: slip_map_def)
    qed
    obtain d2 where "replay_keys lib (Some f) (map fst ?krs @ ?tail) d1 st = (err, d2, st')"
      using assms(4) s(1) got Inr by (auto simp: slip_Replay_def ks split: prod.splits)
    note run = this
    have "\<forall>(k, r) \<in> set ?krs. k \<noteq> slipstreamSeqKey \<and> (\<exists>p. V d1 k = Some p \<and> decodeRecord p = Inr r)"
      using at by blast
    moreover have "set ?tail \<subseteq> {slipstreamSeqKey}" by simp
    ultimately show ?thesis
      using replay_keys_records [OF assms(1) _ _ run] by simp
  qed
qed

section \<open>A store in memory\<close>

text \<open>A store that keeps its entries and those of the transaction as lists, and never fails.\<close>

definition mem_store :: "((string, bytes) gomap \<times> (string, bytes) gomap, unit) bitcask" where
  "mem_store =
     \<lparr>os_MkdirAll = (\<lambda>_. None), sswal_NewManager = (\<lambda>_. Inr ()), sswal_Close = (\<lambda>_. None),
      bk_NewBitcask = (\<lambda>_. ([], [])), bk_Recover = (\<lambda>d. (None, d)), bk_Close = (\<lambda>_. None),
      bk_Keys = (\<lambda>d. (Inr (remdups (map fst (fst d))), d)),
      bk_Get = (\<lambda>k d. (case map_of (fst d) k of None \<Rightarrow> Inl (ErrExternal ''engine: not found'') | Some v \<Rightarrow> Inr v, d)),
      bk_Begin = (\<lambda>d. (None, (fst d, fst d))),
      tx_Get = (\<lambda>k d. (case map_of (snd d) k of None \<Rightarrow> Inl (ErrExternal ''engine: not found'') | Some v \<Rightarrow> Inr v, d)),
      tx_Put = (\<lambda>k v ttl d. (None, (fst d, (k, v) # snd d))),
      tx_Commit = (\<lambda>d. (None, (snd d, snd d))), tx_Rollback = (\<lambda>d. (None, d)),
      is_ErrKeyNotFound = (\<lambda>_. False)\<rparr>"

lemma mem_store_ok: "bitcask_ok mem_store (\<lambda>d. map_of (fst d)) (\<lambda>d. map_of (snd d))"
  by (auto simp: bitcask_ok_def mem_store_def dom_map_of_conv_image_fst split: option.splits)

section \<open>Properties\<close>

text \<open>
  C28: The log over the key-value store keeps its order. After any appends to a log on an empty store,
  fewer than two to the 64, whichever of the store's operations fail, \<open>Replay\<close> hands out a prefix of the
  records whose \<open>Append\<close> reported no error, in the order of the appends, and all of them where it ends
  without an error. A record of the unknown event type is always refused.
\<close>

theorem slipstream_replays_appends:
  assumes "bitcask_ok lib V T" and "V d = Map.empty" and "length rs < 2 ^ 64"
    and "slip_appends lib rs \<lparr>sl_w = w, sl_db = Some d\<rparr> = (errs, s)"
    and "slip_Replay lib (Some f) s st = (err, s', st')"
  shows "(\<exists>n e. (err, st') = replay_records f (take n (stored rs errs)) e st \<and>
      (e = None \<longrightarrow> n = length (stored rs errs))) \<and>
    (\<forall>r \<in> set (stored rs errs). recType r \<noteq> EventUnknown)"
proof -
  have "slip_holds V [] \<lparr>sl_w = w, sl_db = Some d\<rparr>"
    using assms(2) by (simp add: slip_holds_def)
  from slip_appends_stored [OF assms(1) this _ assms(4)] assms(3)
  have holds: "slip_holds V (stored rs errs) s" and "length errs = length rs" by simp_all
  have "length (stored rs errs) \<le> length rs"
    unfolding stored_def length_map by (rule le_trans [OF length_filter_le]) simp
  from slip_Replay_records [OF assms(1) holds _ assms(5)] this assms(3)
  have "\<exists>n e. (err, st') = replay_records f (take n (stored rs errs)) e st \<and> (e = None \<longrightarrow> n = length (stored rs errs))"
    by simp
  moreover have "recType r \<noteq> EventUnknown" if "r \<in> set (stored rs errs)" for r
  proof -
    obtain ps where "map encodeRecord (stored rs errs) = map Inr ps"
      using holds by (auto simp: slip_holds_def)
    from arg_cong [OF this, of set] that have "encodeRecord r \<in> range Inr" by auto
    then show ?thesis by (auto simp: encodeRecord_def)
  qed
  ultimately show ?thesis by blast
qed

definition ex_records :: "Record list" where
  "ex_records = [\<lparr>recType = EventFactAdded, recPayload = [1, 2]\<rparr>, \<lparr>recType = EventUnknown, recPayload = []\<rparr>,
     \<lparr>recType = EventRuleAdded, recPayload = [3]\<rparr>]"

definition ex_slip :: "((string, bytes) gomap \<times> (string, bytes) gomap, unit) SlipstreamLog" where
  "ex_slip = \<lparr>sl_w = Some (), sl_db = Some ([], [])\<rparr>"

lemmas ex_slip_simps = ex_records_def ex_slip_def slip_Append_def append_tx_def mem_store_def encodeRecord_def
  last_seq_def Let_def get_put_le

lemma ex_slip_run:
  "fst (slip_appends mem_store ex_records ex_slip) = [None, Some ErrInvalidEventType, None]"
  "fst (slip_Replay mem_store (Some collect) (snd (slip_appends mem_store ex_records ex_slip)) []) = None"
  using seq_key_before [of 1] seq_key_before [of 2] less_imp_not_less [OF seq_key_before [of 1]]
    less_imp_not_less [OF seq_key_before [of 2]]
  by (simp_all add: ex_slip_simps slip_Replay_def string_less_def seq_key_less collect_def decodeRecord_def)

theorem slipstream_replays_appends_witness:
  "snd (snd (slip_Replay mem_store (Some collect) (snd (slip_appends mem_store ex_records ex_slip)) [])) =
     [\<lparr>recType = EventFactAdded, recPayload = [1, 2]\<rparr>, \<lparr>recType = EventRuleAdded, recPayload = [3]\<rparr>]"
proof -
  let ?a = "slip_appends mem_store ex_records ex_slip"
  let ?r = "slip_Replay mem_store (Some collect) (snd ?a) []"
  have a: "slip_appends mem_store ex_records \<lparr>sl_w = Some (), sl_db = Some ([], [])\<rparr> =
      ([None, Some ErrInvalidEventType, None], snd ?a)"
    using ex_slip_run(1) by (simp add: ex_slip_def prod_eq_iff)
  have r: "slip_Replay mem_store (Some collect) (snd ?a) [] = (None, fst (snd ?r), snd (snd ?r))"
    using ex_slip_run(2) by (simp add: prod_eq_iff)
  have st: "stored ex_records [None, Some ErrInvalidEventType, None] =
      [\<lparr>recType = EventFactAdded, recPayload = [1, 2]\<rparr>, \<lparr>recType = EventRuleAdded, recPayload = [3]\<rparr>]"
    by (simp add: stored_def ex_records_def)
  show ?thesis
    using slipstream_replays_appends [OF mem_store_ok _ _ a r, unfolded st replay_collect]
    by (auto simp: ex_records_def)
qed

end
