(* ===== verification/Spec2Isabelle.thy ===== *)
theory Spec2Isabelle
  imports Engine_Loss Compact Explain Semantic_Props Bulk_Props Slipstream
begin

text \<open>
  nan-core is a reasoning engine in Go. A client tells it facts with a polarity and a source, resolutions
  of contradictions, and rules; the engine derives what follows, draws it as a graph, answers queries with
  a verdict and its proof, and records what it was told in a log from which a new engine is restored. This
  library models the packages under \<open>src/pkg\<close> and states what the engine promises.

  \<^bold>\<open>The parts and their theories.\<close> Each theory follows the file or files it names, definition for function,
  and closes with the properties of its part.

  \<^item> \<open>Prelude\<close>: what the parts share. Go errors are one datatype \<open>go_error\<close>, with \<open>ErrExternal\<close> for a message
    of code that is not modelled; fallible functions return \<open>go_error + 'a\<close> or \<open>go_error option\<close>. Go maps are
    association lists, whose order is the order of a \<open>range\<close> loop; \<open>sort.Slice\<close> is \<open>sort_slice\<close>, and the locales
    \<open>keyed_less\<close> and \<open>total_less\<close> say what a comparator has to satisfy for it: they are interpreted for every
    comparator of the program.
  \<^item> \<open>KG\<close>: package \<open>kg\<close> (\<open>graph.go\<close>, \<open>memgraph.go\<close>). \<open>MemGraph\<close> with its indexes; the locale \<open>fact_graph\<close> is the
    interface \<open>Graph\<close>, interpreted for it.
  \<^item> \<open>Belief_Store\<close>: package \<open>belief\<close> (\<open>types.go\<close>, \<open>store.go\<close>). \<open>Store\<close>, its refinement of a set of beliefs and a
    map of resolutions, and the report of contradictions.
  \<^item> \<open>Rules\<close>, \<open>Rules_Eval\<close>, \<open>Rules_Correct\<close>: package \<open>rules\<close> (\<open>rules.go\<close>, \<open>unify.go\<close>, \<open>eval.go\<close>, \<open>eval_indexed.go\<close>).
    The unifier, the three depth-first evaluators, and their meaning by \<open>rule_instance\<close>.
  \<^item> \<open>Vsa\<close>, \<open>Float64\<close>, \<open>Space\<close>: package \<open>vsa\<close> (\<open>vector.go\<close>, \<open>ops.go\<close>, \<open>space.go\<close>). Vectors of 64-bit words, with
    the panics of an index out of range as errors, and the correctly rounded similarity as a rational.
  \<^item> \<open>Ilp\<close>: package \<open>ilp\<close> (\<open>ilp.go\<close>, \<open>suggest.go\<close>).
  \<^item> \<open>Bytes\<close>, \<open>Codec\<close>, \<open>Log\<close>, \<open>Wal\<close>, \<open>Slipstream\<close>: the log (\<open>codec.go\<close> and \<open>codec_rules.go\<close> of \<open>engine\<close>; \<open>log.go\<close>,
    \<open>record_codec.go\<close>, \<open>wal.go\<close> and \<open>slipstream.go\<close> of \<open>store\<close>). The locale \<open>record_log\<close> is the interface of a log
    that the engine relies on, interpreted for the write-ahead log.
  \<^item> \<open>Semantic\<close>, \<open>Metrics\<close>, \<open>Derivations\<close>: \<open>semantic.go\<close>, \<open>metrics.go\<close>, \<open>proof.go\<close> and \<open>derivations.go\<close> of \<open>engine\<close>.
  \<^item> \<open>Engine\<close>: \<open>engine.go\<close>, \<open>rules.go\<close>, \<open>query.go\<close>, \<open>ilp.go\<close>. The record \<open>Engine\<close> has the fields of the struct. A
    method is a function of the engine before the call that returns its results and the engine after it;
    the log and the inducer, which the engine calls through interfaces, are functions in a record \<open>env\<close>.
  \<^item> \<open>Canonical\<close>, \<open>Compact\<close>, \<open>Explain\<close>, \<open>Semantic_Query\<close>, \<open>Text_Input\<close>, \<open>Bulk\<close>: \<open>canonical.go\<close>, \<open>compact.go\<close>, \<open>explain.go\<close>,
    \<open>semantic_query.go\<close> and \<open>bulk.go\<close>, the last with the scanner, the trimming and the CSV reader of the standard
    library.

  \<^bold>\<open>How the parts interact.\<close> \<open>Ingest\<close> puts a belief into the store, draws it in the graph and indexes its
  vector unless a resolution denies it, appends a record to the log and applies the rules; \<open>ApplyRules\<close>
  evaluates the rules over the edges of the graph and ingests what they derive; \<open>Resolve\<close> sets a resolution
  and rebuilds everything derived by \<open>recompute\<close>; \<open>ReplayFromLog\<close> decodes the records and rebuilds;
  \<open>Evaluate\<close>, \<open>SemanticQuery\<close> and \<open>ExplainGraph\<close> read.

  \<^bold>\<open>The lemmas.\<close>

  \<^item> \<open>Engine_Inv\<close>, \<open>Engine_Ops\<close>, \<open>Engine_Steps\<close>: the invariant \<open>engine_ok\<close>, which every operation keeps in success
    and in failure; \<open>synced\<close>, that graph and index are in step with the beliefs; what each operation does
    to the beliefs, the facts, the resolutions and the rules; \<open>core\<close>, the fields that matter to reasoning.
  \<^item> \<open>Engine_Reach\<close>: the step relation \<open>engine_step\<close> over all calls, those that fail included, labelled with
    their effect, and the engines it reaches. Two of its calls can fail half way: where the log refuses the
    record, \<open>Resolve\<close> leaves the resolution set and the graph as it was, and \<open>ReplayFromLog\<close> stops in the
    middle of the records. \<open>reachable\<close> holds of every engine; \<open>settled\<close> of those that are new or were rebuilt
    since. \<open>Engine_Props\<close> has an induction principle for each, and the properties of the facts: what needs
    graph and beliefs in step is stated for settled engines, everything else for all.
  \<^item> \<open>Engine_Fixpoint\<close>, \<open>Engine_Correct\<close>, \<open>Engine_Limits\<close>, \<open>Engine_Loss\<close>: the rounds of \<open>ApplyRules\<close> counted
    against their limit, what is complete below it, and what a limit loses; what follows from what
    (\<open>derivable\<close>) and the proofs that are kept.
  \<^item> \<open>Engine_Replay\<close>: a replay restores what was told. The locale \<open>engine_log\<close> extends \<open>record_log\<close> and is
    interpreted for the write-ahead log.
  \<^item> The other theories prove where the encoders are exact, that a log survives a crash at any byte, what a
    torn write does to what is appended behind it, that the listings do not depend on the history, that
    compaction keeps everything, what explanations and semantic queries return, and what a bulk load
    counts, loads and leaves out.

  \<^bold>\<open>Bounds and termination.\<close> Machine integers keep their width: bytes, the length fields and checksums of the
  formats, the words of vectors, the counters of the metrics and the sequence numbers of \<open>slipstream.go\<close>
  are words that wrap around. Limits and counts that the code keeps in an \<open>int\<close> and that a run cannot bring
  near its bounds are unbounded. The strings of Go are lists of bytes as characters. Every loop is a total
  function, by structural recursion or with a measure: \<open>ApplyRules\<close> counts its limit down, a replay and a
  scan shorten the input; the depth of \<open>ExplainGraph\<close> is its own bound, so no fuel is added anywhere. The
  loop over CSV records, which does not end on a reader that keeps failing, is a \<open>partial_function\<close>, and
  its property says exactly when it returns.

  \<^bold>\<open>What is an argument.\<close> The outcome of the operating system at each open, write and sync, the clock, the
  inducer, the triples that \<open>encoding/json\<close> decodes, and the key-value store of the third-party package
  \<open>go-slipstream\<close>, whose behaviour is the hypothesis \<open>bitcask_ok\<close>: its operations may fail, and those that
  succeed act on the contents of the store as a transactional map. It is shown to hold for a store in
  memory.

  \<^bold>\<open>What is not modelled.\<close> \<open>store/registry.go\<close> registers the two logs by name with a registry of another
  package, and \<open>examples/reason/main.go\<close> is an example of use. The mutexes: each operation is one step.
  The accessors that hand out pointers to the store or the graph, so that a client who changes a part
  behind the engine's back is out of reach. \<open>WithWAL\<close> and \<open>ReplayFromWAL\<close>, which are other names of
  \<open>WithLog\<close> and \<open>ReplayFromLog\<close>. \<open>MarshalJSONPretty\<close> and \<open>BulkResult.String\<close>, which only format. What the
  store of \<open>go-slipstream\<close> does when it is closed after a failed recovery.
\<close>

end
